(* ===== verification/Prelude.thy ===== *)
theory Prelude
  imports Main "HOL-Library.Word" "HOL-Library.Sublist"
begin

text \<open>
  What every component shares: the machine types of the Rust code, the result of a Rust
  function that may return an error or panic, checked slice access, and generic lemmas on
  lists and words.

  A \<open>usize\<close> is a \<^typ>\<open>nat\<close>: the only ones the code computes are offsets into a slice, and
  Rust bounds a slice by \<open>isize::MAX\<close> bytes. A \<open>u32\<close> (the type of the entries of the
  structural index and of cursors) is a 32-bit word, so \<open>as u32\<close> truncates and \<open>+\<close> wraps
  as in the release profile the crate ships with; where a debug build is modelled the theory says so.
\<close>

unbundle bit_operations_syntax

section \<open>Machine types\<close>

type_synonym u8 = "8 word"
type_synonym u16 = "16 word"
type_synonym u32 = "32 word"
type_synonym u64 = "64 word"
type_synonym bytes = "u8 list"

abbreviation U32_MAX :: u32 where
  "U32_MAX \<equiv> - 1"

section \<open>Results\<close>

text \<open>
  A Rust \<open>Result\<close> with a third outcome for a panic (a slice index out of range, or an
  \<open>unwrap\<close> of \<open>None\<close>). The exported functions turn a panic into an error code, so the
  outcome is observable and is kept apart from the errors.
\<close>

datatype ('a, 'e) outcome = Ok 'a | Err 'e | Panic

text \<open>The \<open>?\<close> operator.\<close>

fun and_then :: "('a, 'e) outcome \<Rightarrow> ('a \<Rightarrow> ('b, 'e) outcome) \<Rightarrow> ('b, 'e) outcome" where
  "and_then (Ok x) f = f x"
| "and_then (Err e) f = Err e"
| "and_then Panic f = Panic"

fun map_err :: "('e \<Rightarrow> 'f) \<Rightarrow> ('a, 'e) outcome \<Rightarrow> ('a, 'f) outcome" where
  "map_err g (Ok x) = Ok x"
| "map_err g (Err e) = Err (g e)"
| "map_err g Panic = Panic"

definition is_ok :: "('a, 'e) outcome \<Rightarrow> bool" where
  "is_ok r = (case r of Ok _ \<Rightarrow> True | _ \<Rightarrow> False)"

lemma is_ok_simps [simp]: "is_ok (Ok x)" "\<not> is_ok (Err e)" "\<not> is_ok Panic"
  by (simp_all add: is_ok_def)

lemma and_then_cong [fundef_cong]:
  "m = m' \<Longrightarrow> (\<And>x. m' = Ok x \<Longrightarrow> f x = f' x) \<Longrightarrow> and_then m f = and_then m' f'"
  by (cases m') auto

lemma and_then_eq_Ok [simp]: "and_then m f = Ok y \<longleftrightarrow> (\<exists>x. m = Ok x \<and> f x = Ok y)"
  by (cases m) auto

lemma and_then_eq_Err:
  "and_then m f = Err e \<longleftrightarrow> m = Err e \<or> (\<exists>x. m = Ok x \<and> f x = Err e)"
  by (cases m) auto

lemma and_then_eq_Panic:
  "and_then m f = Panic \<longleftrightarrow> m = Panic \<or> (\<exists>x. m = Ok x \<and> f x = Panic)"
  by (cases m) auto

lemma map_err_eq_Ok [simp]: "map_err g m = Ok y \<longleftrightarrow> m = Ok y"
  by (cases m) auto

lemma map_err_eq_Panic [simp]: "map_err g m = Panic \<longleftrightarrow> m = Panic"
  by (cases m) auto

lemma map_err_eq_Err: "map_err g m = Err e \<longleftrightarrow> (\<exists>d. m = Err d \<and> e = g d)"
  by (cases m) auto

section \<open>Slices\<close>

text \<open>\<open>buf[i]\<close> panics out of range, \<open>buf.get(i)\<close> returns an option.\<close>

definition at :: "'a list \<Rightarrow> nat \<Rightarrow> ('a, 'e) outcome" where
  "at xs i = (if i < length xs then Ok (xs ! i) else Panic)"

definition slice_get :: "'a list \<Rightarrow> nat \<Rightarrow> 'a option" where
  "slice_get xs i = (if i < length xs then Some (xs ! i) else None)"

text \<open>\<open>&buf[i..j]\<close> for \<open>i \<le> j \<le> buf.len()\<close>, and the checked form.\<close>

definition slice :: "nat \<Rightarrow> nat \<Rightarrow> 'a list \<Rightarrow> 'a list" where
  "slice i j xs = take (j - i) (drop i xs)"

definition slice_at :: "'a list \<Rightarrow> nat \<Rightarrow> nat \<Rightarrow> ('a list, 'e) outcome" where
  "slice_at xs i j = (if i \<le> j \<and> j \<le> length xs then Ok (slice i j xs) else Panic)"

text \<open>\<open>iter().position(p)\<close>.\<close>

fun position :: "('a \<Rightarrow> bool) \<Rightarrow> 'a list \<Rightarrow> nat option" where
  "position p [] = None"
| "position p (x # xs) = (if p x then Some 0 else map_option Suc (position p xs))"

text \<open>\<open>Vec::pop\<close> on a stack whose top is the head of the list.\<close>

fun pop :: "'a list \<Rightarrow> 'a option \<times> 'a list" where
  "pop [] = (None, [])"
| "pop (x # xs) = (Some x, xs)"

lemma length_slice [simp]: "j \<le> length xs \<Longrightarrow> length (slice i j xs) = j - i"
  by (simp add: slice_def)

lemma slice_empty [simp]: "slice i i xs = []"
  by (simp add: slice_def)

lemma nth_slice: "i + k < j \<Longrightarrow> j \<le> length xs \<Longrightarrow> slice i j xs ! k = xs ! (i + k)"
  by (simp add: slice_def)

lemma slice_append_drop: "i \<le> j \<Longrightarrow> slice i j xs @ drop j xs = drop i xs"
  by (metis append_take_drop_id drop_drop le_add_diff_inverse2 slice_def)

lemma position_None: "position p xs = None \<longleftrightarrow> (\<forall>x \<in> set xs. \<not> p x)"
  by (induction xs) auto

lemma position_SomeD:
  "position p xs = Some n \<Longrightarrow> n < length xs \<and> p (xs ! n) \<and> (\<forall>x \<in> set (take n xs). \<not> p x)"
proof (induction xs arbitrary: n)
  case (Cons x xs)
  then show ?case by (cases n) (auto split: if_splits)
qed simp

lemma position_append:
  "(\<forall>x \<in> set xs. \<not> p x) \<Longrightarrow> position p (xs @ ys) = map_option (\<lambda>n. length xs + n) (position p ys)"
  by (induction xs) (auto simp: option.map_comp comp_def option.map_ident cong: map_option_cong)

lemma drop_eq_ConsD: "drop n xs = y # ys \<Longrightarrow> n < length xs \<and> xs ! n = y \<and> drop (Suc n) xs = ys"
proof -
  assume d: "drop n xs = y # ys"
  then have "n < length xs"
    by (metis drop_eq_Nil leI list.distinct(1))
  with d show ?thesis
    by (simp flip: Cons_nth_drop_Suc)
qed

lemma drop_eq_nth:
  assumes "drop i xs = ys @ zs" "k < length ys"
  shows "i + k < length xs \<and> xs ! (i + k) = ys ! k"
proof -
  have len: "length xs - i = length ys + length zs"
    using assms(1) by (metis length_append length_drop)
  with assms(2) have lt: "i + k < length xs" by linarith
  with assms have "xs ! (i + k) = (ys @ zs) ! k"
    by (metis add_leD1 less_imp_le nth_drop)
  with lt assms(2) show ?thesis by (simp add: nth_append)
qed

lemma drop_add: "drop i xs = ys @ zs \<Longrightarrow> drop (i + length ys) xs = zs"
  by (metis add.commute append_eq_conv_conj drop_drop)

lemma slice_of_drop:
  assumes "drop i xs = a @ b @ c"
  shows "slice (i + length a) (i + length a + length b) xs = b"
proof -
  have "drop (i + length a) xs = b @ c"
    using assms by (metis add.commute append_eq_conv_conj drop_drop)
  then show ?thesis by (simp add: slice_def)
qed

lemma length_drop_eq: "drop i xs = ys \<Longrightarrow> ys \<noteq> [] \<Longrightarrow> length xs = i + length ys"
  by (metis drop_eq_Nil le_add_diff_inverse length_drop nat_le_linear)

lemma split_4: "4 \<le> length xs \<Longrightarrow> \<exists>h s. xs = h @ s \<and> length h = 4"
  by (intro exI[of _ "take 4 xs"] exI[of _ "drop 4 xs"]) simp

section \<open>Byte text\<close>

text \<open>
  ASCII text as bytes; \<open>`\<close> stands for the double quote and \<open>~\<close> for the backslash, so that
  JSON text is readable in the examples.
\<close>

definition bs :: "string \<Rightarrow> bytes" where
  "bs s = map of_char s"

definition js :: "string \<Rightarrow> bytes" where
  "js s = map (\<lambda>c. if c = CHR ''`'' then 34 else if c = CHR ''~'' then 92 else of_char c) s"

lemma bs_simps [simp]: "bs [] = []" "bs (c # s) = of_char c # bs s"
  by (simp_all add: bs_def)

lemma js_simps [simp]:
  "js [] = []"
  "js (c # s) = (if c = CHR ''`'' then 34 else if c = CHR ''~'' then 92 else of_char c) # js s"
  by (simp_all add: js_def)

section \<open>Words\<close>

lemma unat_of_nat32: "n < 2 ^ 32 \<Longrightarrow> unat (of_nat n :: u32) = n"
  by (simp add: unat_of_nat)

lemma of_nat32_inj: "m < 2 ^ 32 \<Longrightarrow> n < 2 ^ 32 \<Longrightarrow> (of_nat m :: u32) = of_nat n \<longleftrightarrow> m = n"
  by (metis unat_of_nat32)

lemma unat_U32_MAX [simp]: "unat U32_MAX = 2 ^ 32 - 1"
  by (simp add: unsigned_minus_1_eq_mask mask_eq_exp_minus_1)

lemma unat_of_nat8: "n < 256 \<Longrightarrow> unat (of_nat n :: u8) = n"
  by (simp add: unat_of_nat)

end
