(* ===== verification/Errors.thy ===== *)
theory Errors
  imports Prelude
begin

text \<open>
  \<open>src/error.rs\<close>: the error codes of the C ABI, parse errors with their byte offset, the JSON
  type tags, and the rendering of an error as a message for the Lua caller. The offset of an
  error that has none is \<open>usize::MAX\<close>.
\<close>

section \<open>Codes and parse errors\<close>

definition QJSON_NO_OFFSET :: nat where
  "QJSON_NO_OFFSET = 2 ^ 64 - 1"

definition QJSON_EXPECT_CONTAINER :: nat where
  "QJSON_EXPECT_CONTAINER = 2 ^ 64 - 2"

datatype qjson_err =
    QJSON_OK | QJSON_PARSE_ERROR | QJSON_NOT_FOUND | QJSON_TYPE_MISMATCH | QJSON_OUT_OF_RANGE
  | QJSON_DECODE_FAILED | QJSON_INVALID_PATH | QJSON_INVALID_ARG | QJSON_OOM
  | QJSON_NESTING_TOO_DEEP | QJSON_TRAILING_CONTENT | QJSON_NUMBER_OUT_OF_RANGE
  | QJSON_INVALID_NUMBER | QJSON_INVALID_STRING | QJSON_INVALID_UTF8

text \<open>\<open>code as c_int\<close>.\<close>

fun err_code :: "qjson_err \<Rightarrow> int" where
  "err_code QJSON_OK = 0"
| "err_code QJSON_PARSE_ERROR = 1"
| "err_code QJSON_NOT_FOUND = 2"
| "err_code QJSON_TYPE_MISMATCH = 3"
| "err_code QJSON_OUT_OF_RANGE = 4"
| "err_code QJSON_DECODE_FAILED = 5"
| "err_code QJSON_INVALID_PATH = 6"
| "err_code QJSON_INVALID_ARG = 7"
| "err_code QJSON_OOM = 8"
| "err_code QJSON_NESTING_TOO_DEEP = 9"
| "err_code QJSON_TRAILING_CONTENT = 10"
| "err_code QJSON_NUMBER_OUT_OF_RANGE = 11"
| "err_code QJSON_INVALID_NUMBER = 12"
| "err_code QJSON_INVALID_STRING = 13"
| "err_code QJSON_INVALID_UTF8 = 14"

record parse_error =
  pe_code :: qjson_err
  pe_offset :: nat

definition parse_error_new :: "qjson_err \<Rightarrow> nat \<Rightarrow> parse_error" where
  "parse_error_new c off = \<lparr>pe_code = c, pe_offset = off\<rparr>"

definition parse_error_no_offset :: "qjson_err \<Rightarrow> parse_error" where
  "parse_error_no_offset c = parse_error_new c QJSON_NO_OFFSET"

text \<open>The C struct written through \<open>err_out\<close>.\<close>

record qjson_error =
  qe_code :: int
  qe_offset :: nat

definition qjson_error_new :: "qjson_err \<Rightarrow> nat \<Rightarrow> qjson_error" where
  "qjson_error_new c off = \<lparr>qe_code = err_code c, qe_offset = off\<rparr>"

definition qjson_error_no_offset :: "qjson_err \<Rightarrow> qjson_error" where
  "qjson_error_no_offset c = qjson_error_new c QJSON_NO_OFFSET"

definition qjson_error_default :: qjson_error where
  "qjson_error_default = qjson_error_no_offset QJSON_OK"

definition qjson_error_from :: "parse_error \<Rightarrow> qjson_error" where
  "qjson_error_from e = qjson_error_new (pe_code e) (pe_offset e)"

datatype qjson_type =
  QJSON_T_NULL | QJSON_T_BOOL | QJSON_T_NUM | QJSON_T_STR | QJSON_T_ARR | QJSON_T_OBJ

fun type_code :: "qjson_type \<Rightarrow> nat" where
  "type_code QJSON_T_NULL = 0"
| "type_code QJSON_T_BOOL = 1"
| "type_code QJSON_T_NUM = 2"
| "type_code QJSON_T_STR = 3"
| "type_code QJSON_T_ARR = 4"
| "type_code QJSON_T_OBJ = 5"

fun strerror :: "qjson_err \<Rightarrow> string" where
  "strerror QJSON_OK = ''ok''"
| "strerror QJSON_PARSE_ERROR = ''JSON parse error''"
| "strerror QJSON_NOT_FOUND = ''path not found''"
| "strerror QJSON_TYPE_MISMATCH = ''type mismatch at path''"
| "strerror QJSON_OUT_OF_RANGE = ''numeric out of range''"
| "strerror QJSON_DECODE_FAILED = ''decode failed''"
| "strerror QJSON_INVALID_PATH = ''invalid path syntax''"
| "strerror QJSON_INVALID_ARG = ''invalid argument''"
| "strerror QJSON_OOM = ''out of memory''"
| "strerror QJSON_NESTING_TOO_DEEP = ''nesting depth exceeds limit''"
| "strerror QJSON_TRAILING_CONTENT = ''trailing content after root value''"
| "strerror QJSON_NUMBER_OUT_OF_RANGE = ''number out of representable range''"
| "strerror QJSON_INVALID_NUMBER = ''invalid number format (RFC 8259)''"
| "strerror QJSON_INVALID_STRING = ''invalid string content (unescaped control char)''"
| "strerror QJSON_INVALID_UTF8 = ''invalid UTF-8 in string''"

lemma err_code_inj [simp]: "err_code a = err_code b \<longleftrightarrow> a = b"
  by (cases a; cases b) simp_all

lemma err_code_range: "0 \<le> err_code e \<and> err_code e \<le> 14"
  by (cases e) simp_all

section \<open>Message fragments\<close>

fun expected_type_name :: "nat \<Rightarrow> string option" where
  "expected_type_name extra =
     (if extra = QJSON_EXPECT_CONTAINER then Some ''array/object''
      else if extra = type_code QJSON_T_NULL then Some ''null''
      else if extra = type_code QJSON_T_BOOL then Some ''boolean''
      else if extra = type_code QJSON_T_NUM then Some ''number''
      else if extra = type_code QJSON_T_STR then Some ''string''
      else if extra = type_code QJSON_T_ARR then Some ''array''
      else if extra = type_code QJSON_T_OBJ then Some ''object''
      else None)"

definition inferred_type_name :: "bytes \<Rightarrow> nat \<Rightarrow> string option" where
  "inferred_type_name buf off =
     (case slice_get buf off of
        None \<Rightarrow> None
      | Some lead \<Rightarrow>
          (if lead = 123 then Some ''object''
           else if lead = 91 then Some ''array''
           else if lead = 34 then Some ''string''
           else if lead = 116 \<or> lead = 102 then Some ''boolean''
           else if lead = 110 then Some ''null''
           else if lead = 45 \<or> 48 \<le> lead \<and> lead \<le> 57 then Some ''number''
           else None))"

text \<open>The formatting directives \<open>{n}\<close> and \<open>{b:02X}\<close>.\<close>

fun dec_string :: "nat \<Rightarrow> string" where
  "dec_string n =
     (if n < 10 then [char_of (48 + n)] else dec_string (n div 10) @ [char_of (48 + n mod 10)])"

declare dec_string.simps [simp del]

definition hex_digit_char :: "nat \<Rightarrow> char" where
  "hex_digit_char d = (if d < 10 then char_of (48 + d) else char_of (55 + d))"

definition hex2_string :: "u8 \<Rightarrow> string" where
  "hex2_string b = [hex_digit_char (unat b div 16), hex_digit_char (unat b mod 16)]"

definition byte_char :: "u8 \<Rightarrow> char" where
  "byte_char b = char_of (unat b)"

definition push_offset :: "string \<Rightarrow> nat \<Rightarrow> string" where
  "push_offset msg off =
     (if off \<noteq> QJSON_NO_OFFSET then msg @ '' at byte '' @ dec_string off else msg)"

abbreviation (input) squote :: char where
  "squote \<equiv> CHR 0x27"

abbreviation (input) bslash :: char where
  "bslash \<equiv> CHR 0x5C"

definition escape_unexpected_char :: "u8 \<Rightarrow> string" where
  "escape_unexpected_char b =
     (if 32 \<le> b \<and> b \<le> 126 then
        (if b = 39 then [squote, bslash, squote, squote]
         else if b = 92 then [squote, bslash, bslash, squote]
         else [squote, byte_char b, squote])
      else ''0x'' @ hex2_string b)"

definition escape_byte :: "u8 \<Rightarrow> string" where
  "escape_byte b =
     (if 32 \<le> b \<and> b \<le> 126 then
        (if b = 39 then [bslash, squote]
         else if b = 92 then [bslash, bslash]
         else [byte_char b])
      else bslash # CHR ''x'' # hex2_string b)"

fun escape_snippet :: "bytes \<Rightarrow> string" where
  "escape_snippet [] = []"
| "escape_snippet (b # bytes) = escape_byte b @ escape_snippet bytes"

definition is_snippet_boundary :: "u8 \<Rightarrow> bool" where
  "is_snippet_boundary b \<longleftrightarrow> b \<in> {32, 9, 10, 13, 44, 58, 125, 93}"

definition snippet_cap :: nat where
  "snippet_cap = 20"

function snippet_end :: "bytes \<Rightarrow> nat \<Rightarrow> nat \<Rightarrow> nat" where
  "snippet_end buf off e =
     (if e < length buf \<and> e - off < snippet_cap then
        (if e > off \<and> is_snippet_boundary (buf ! e) then e
         else snippet_end buf off (Suc e))
      else e)"
  by pat_completeness auto
termination
  by (relation "measure (\<lambda>(buf, off, e). length buf - e)") auto

declare snippet_end.simps [simp del]

definition snippet_from_offset :: "bytes \<Rightarrow> nat \<Rightarrow> string" where
  "snippet_from_offset buf off =
     (if off \<ge> length buf then []
      else escape_snippet (slice off (snippet_end buf off off) buf))"

section \<open>Messages\<close>

definition format_parse_error :: "nat \<Rightarrow> bytes \<Rightarrow> string" where
  "format_parse_error off buf =
     (if off \<noteq> QJSON_NO_OFFSET then
        (case slice_get buf off of
           Some b \<Rightarrow>
             ''parse error at byte '' @ dec_string off @ '': unexpected '' @ escape_unexpected_char b
               @ (if b = 125 \<or> b = 93 \<or> b = 44 then '', expected value'' else [])
         | None \<Rightarrow> ''parse error at byte '' @ dec_string off)
      else ''parse error'')"

definition format_error :: "qjson_err \<Rightarrow> nat \<Rightarrow> nat \<Rightarrow> bytes \<Rightarrow> string" where
  "format_error code off extra buf =
     (case code of
        QJSON_PARSE_ERROR \<Rightarrow> format_parse_error off buf
      | QJSON_INVALID_NUMBER \<Rightarrow>
          (let snippet = snippet_from_offset buf off in
           push_offset (if snippet = [] then ''invalid number''
                        else ''invalid number '' @ [squote] @ snippet @ [squote]) off)
      | QJSON_INVALID_STRING \<Rightarrow> push_offset ''invalid string content'' off
      | QJSON_INVALID_UTF8 \<Rightarrow> push_offset ''invalid UTF-8 in string'' off
      | QJSON_NESTING_TOO_DEEP \<Rightarrow>
          (if off = QJSON_NO_OFFSET then ''nesting too deep (max '' @ dec_string extra @ '')''
           else ''nesting too deep at byte '' @ dec_string off
                  @ '' (max '' @ dec_string extra @ '')'')
      | QJSON_TRAILING_CONTENT \<Rightarrow>
          (let snippet = snippet_from_offset buf off in
           push_offset (if snippet = [] then ''trailing content after root value''
                        else ''trailing content '' @ [squote] @ snippet @ [squote]
                               @ '' after root value'') off)
      | QJSON_TYPE_MISMATCH \<Rightarrow>
          (let msg =
             (case (expected_type_name extra, inferred_type_name buf off) of
                (Some expected, Some got) \<Rightarrow>
                  ''type mismatch: expected '' @ expected @ '', got '' @ got
              | _ \<Rightarrow> ''type mismatch'') in
           push_offset msg off)
      | QJSON_OUT_OF_RANGE \<Rightarrow> push_offset ''out of range'' off
      | QJSON_NUMBER_OUT_OF_RANGE \<Rightarrow> push_offset ''out of range'' off
      | QJSON_DECODE_FAILED \<Rightarrow> push_offset ''decode failed'' off
      | QJSON_NOT_FOUND \<Rightarrow> ''path not found''
      | QJSON_INVALID_PATH \<Rightarrow> ''invalid path syntax''
      | QJSON_INVALID_ARG \<Rightarrow> ''invalid argument''
      | QJSON_OK \<Rightarrow> ''ok''
      | QJSON_OOM \<Rightarrow> ''out of memory'')"

end
