(* ===== verification/Options.thy ===== *)
theory Options
  imports Prelude
begin

text \<open>\<open>src/options.rs\<close>: the parse mode and the nesting limit a caller may choose.\<close>

definition QJSON_MODE_EAGER :: u32 where
  "QJSON_MODE_EAGER = 0"

definition QJSON_MODE_LAZY :: u32 where
  "QJSON_MODE_LAZY = 1"

definition QJSON_DEFAULT_MAX_DEPTH :: u32 where
  "QJSON_DEFAULT_MAX_DEPTH = 1024"

definition QJSON_MAX_MAX_DEPTH :: u32 where
  "QJSON_MAX_MAX_DEPTH = 4096"

record options =
  opt_mode :: u32
  opt_max_depth :: u32

definition options_default :: options where
  "options_default = \<lparr>opt_mode = QJSON_MODE_EAGER, opt_max_depth = 0\<rparr>"

definition effective_max_depth :: "options \<Rightarrow> u32" where
  "effective_max_depth o' =
     (let d = (if opt_max_depth o' = 0 then QJSON_DEFAULT_MAX_DEPTH else opt_max_depth o')
      in min d QJSON_MAX_MAX_DEPTH)"

definition is_eager :: "options \<Rightarrow> bool" where
  "is_eager o' \<longleftrightarrow> opt_mode o' = QJSON_MODE_EAGER"

lemma effective_max_depth_bounds:
  "1 \<le> unat (effective_max_depth o') \<and> unat (effective_max_depth o') \<le> 4096"
proof -
  have "effective_max_depth o' \<noteq> 0" and le: "effective_max_depth o' \<le> 4096"
    by (simp_all add: effective_max_depth_def min_def QJSON_DEFAULT_MAX_DEPTH_def
          QJSON_MAX_MAX_DEPTH_def Let_def)
  then have "0 < unat (effective_max_depth o')"
    by (simp add: unat_gt_0)
  moreover from le have "unat (effective_max_depth o') \<le> 4096"
    by (simp add: word_le_nat_alt)
  ultimately show ?thesis by simp
qed

text \<open>A limit of 0 asks for the default.\<close>

lemma effective_max_depth_range:
  "1 \<le> unat (effective_max_depth opts) \<and> unat (effective_max_depth opts) \<le> 4096 \<and>
   (opt_max_depth opts = 0 \<longrightarrow> effective_max_depth opts = 1024)"
  using effective_max_depth_bounds[of opts]
  by (simp add: effective_max_depth_def QJSON_DEFAULT_MAX_DEPTH_def QJSON_MAX_MAX_DEPTH_def min_def)

end
