(* ===== verification/Lexer.thy ===== *)
theory Lexer
  imports Prelude
begin

text \<open>
  The reference meaning of the structural scan: a three-state automaton that reads a buffer one
  byte at a time and lists the structural bytes outside string literals (the quotes included)
  with their offsets. The scanners under \<open>src/scan/\<close> are proved to compute this list; the
  validators are proved about it.
\<close>

section \<open>Structural bytes\<close>

definition is_ws :: "u8 \<Rightarrow> bool" where
  "is_ws b \<longleftrightarrow> b = 32 \<or> b = 9 \<or> b = 10 \<or> b = 13"

definition is_structural :: "u8 \<Rightarrow> bool" where
  "is_structural b \<longleftrightarrow>
     b = 123 \<or> b = 125 \<or> b = 91 \<or> b = 93 \<or> b = 58 \<or> b = 44 \<or> b = 34"

lemma is_structural_consts [simp]:
  "is_structural 123" "is_structural 125" "is_structural 91" "is_structural 93"
  "is_structural 58" "is_structural 44" "is_structural 34" "\<not> is_structural 92"
  by (simp_all add: is_structural_def)

lemma ws_not_structural: "is_ws b \<Longrightarrow> \<not> is_structural b"
  by (auto simp: is_ws_def is_structural_def)

section \<open>The automaton\<close>

datatype lex_state = Outside | Inside | Escaped

fun lex_step :: "lex_state \<Rightarrow> u8 \<Rightarrow> lex_state" where
  "lex_step Outside b = (if b = 34 then Inside else Outside)"
| "lex_step Inside b = (if b = 92 then Escaped else if b = 34 then Outside else Inside)"
| "lex_step Escaped b = Inside"

fun lex_emits :: "lex_state \<Rightarrow> u8 \<Rightarrow> bool" where
  "lex_emits Outside b = is_structural b"
| "lex_emits Inside b = (b = 34)"
| "lex_emits Escaped b = False"

fun lex_run :: "lex_state \<Rightarrow> bytes \<Rightarrow> lex_state" where
  "lex_run s [] = s"
| "lex_run s (b # bytes) = lex_run (lex_step s b) bytes"

fun lex_tokens :: "lex_state \<Rightarrow> nat \<Rightarrow> bytes \<Rightarrow> (nat \<times> u8) list" where
  "lex_tokens s n [] = []"
| "lex_tokens s n (b # bytes) =
     (if lex_emits s b then [(n, b)] else []) @ lex_tokens (lex_step s b) (Suc n) bytes"

definition start_state :: "bool \<Rightarrow> lex_state" where
  "start_state in_str = (if in_str then Inside else Outside)"

lemma start_state_simps [simp]: "start_state True = Inside" "start_state False = Outside"
  by (simp_all add: start_state_def)

text \<open>The structural index of a buffer.\<close>

definition tokens :: "bytes \<Rightarrow> (nat \<times> u8) list" where
  "tokens buf = lex_tokens Outside 0 buf"

lemma lex_run_append [simp]: "lex_run s (xs @ ys) = lex_run (lex_run s xs) ys"
  by (induction xs arbitrary: s) auto

lemma lex_tokens_append:
  "lex_tokens s n (xs @ ys) = lex_tokens s n xs @ lex_tokens (lex_run s xs) (n + length xs) ys"
  by (induction xs arbitrary: s n) auto

lemma lex_tokens_range: "(p, b) \<in> set (lex_tokens s n xs) \<Longrightarrow> n \<le> p \<and> p < n + length xs"
  by (induction xs arbitrary: s n) (fastforce split: if_splits)+

lemma lex_tokens_nth: "(p, b) \<in> set (lex_tokens s n xs) \<Longrightarrow> xs ! (p - n) = b"
proof (induction xs arbitrary: s n)
  case (Cons x xs)
  show ?case
  proof (cases "(p, b) \<in> set (lex_tokens (lex_step s x) (Suc n) xs)")
    case True
    with Cons.IH have "xs ! (p - Suc n) = b" by blast
    moreover from True have "Suc n \<le> p" by (auto dest: lex_tokens_range)
    ultimately show ?thesis by (simp add: nth_Cons' Suc_diff_le)
  next
    case False
    with Cons.prems show ?thesis by (auto split: if_splits)
  qed
qed simp

lemma lex_tokens_structural: "(p, b) \<in> set (lex_tokens s n xs) \<Longrightarrow> is_structural b"
proof (induction xs arbitrary: s n)
  case (Cons x xs)
  then show ?case by (cases s) (auto split: if_splits)
qed simp

lemma lex_tokens_sorted: "sorted_wrt (<) (map fst (lex_tokens s n xs))"
  by (induction xs arbitrary: s n) (fastforce dest: lex_tokens_range)+

lemma tokens_nth: "(p, b) \<in> set (tokens buf) \<Longrightarrow> p < length buf \<and> buf ! p = b"
  using lex_tokens_range[of p b Outside 0 buf] lex_tokens_nth[of p b Outside 0 buf]
  by (simp add: tokens_def)

text \<open>Shifting the offset shifts every position.\<close>

lemma lex_tokens_shift: "lex_tokens s (n + k) xs = map (\<lambda>(p, b). (p + k, b)) (lex_tokens s n xs)"
  by (induction xs arbitrary: s n) (simp_all flip: add_Suc)

section \<open>Bracket pairing\<close>

text \<open>
  Pairing the brackets of a token list with a stack of openers: the offset of the first closer
  that does not match, or the openers left over.
\<close>

fun pair_brackets :: "u8 list \<Rightarrow> (nat \<times> u8) list \<Rightarrow> nat + u8 list" where
  "pair_brackets st [] = Inr st"
| "pair_brackets st ((p, b) # ts) =
     (if b = 123 \<or> b = 91 then pair_brackets (b # st) ts
      else if b = 125 then
        (case st of t # st' \<Rightarrow> if t = 123 then pair_brackets st' ts else Inl p | [] \<Rightarrow> Inl p)
      else if b = 93 then
        (case st of t # st' \<Rightarrow> if t = 91 then pair_brackets st' ts else Inl p | [] \<Rightarrow> Inl p)
      else pair_brackets st ts)"

lemma pair_brackets_append:
  "pair_brackets st (ts @ us) =
     (case pair_brackets st ts of Inl p \<Rightarrow> Inl p | Inr st' \<Rightarrow> pair_brackets st' us)"
  by (induction st ts rule: pair_brackets.induct) (auto split: list.splits)

lemma pair_brackets_Inl: "pair_brackets st ts = Inl p \<Longrightarrow> p \<in> fst ` set ts"
  by (induction st ts rule: pair_brackets.induct) (auto split: if_splits list.splits)

text \<open>A well-bracketed buffer: no string is left open and every bracket is paired.\<close>

definition well_bracketed :: "bytes \<Rightarrow> bool" where
  "well_bracketed buf \<longleftrightarrow>
     lex_run Outside buf = Outside \<and> pair_brackets [] (tokens buf) = Inr []"

end
