(* ===== verification/Scan_Scalar.thy ===== *)
theory Scan_Scalar
  imports Lexer
begin

text \<open>
  \<open>src/scan/scalar.rs\<close> and the bracket pass of \<open>src/scan/mod.rs\<close>. A scanner appends structural
  offsets to \<open>out\<close> also when it fails, and the caller reads them, so the model returns the
  result together with \<open>out\<close>. A stack is a list whose head is the top.
\<close>

section \<open>The fused scanner\<close>

type_synonym scan_result = "(unit, nat) outcome \<times> u32 list"

function scan_and_validate_loop ::
    "bytes \<Rightarrow> nat \<Rightarrow> bool \<Rightarrow> u8 list \<Rightarrow> u32 list \<Rightarrow> scan_result" where
  "scan_and_validate_loop buf i in_str stack out =
     (if i < length buf then
        (let b = buf ! i in
         if in_str then
           (if b = 92 then scan_and_validate_loop buf (i + 2) in_str stack out
            else if b = 34 then scan_and_validate_loop buf (i + 1) False stack (out @ [of_nat i])
            else scan_and_validate_loop buf (i + 1) in_str stack out)
         else if b = 34 then scan_and_validate_loop buf (i + 1) True stack (out @ [of_nat i])
         else if b = 123 \<or> b = 91 then
           scan_and_validate_loop buf (i + 1) in_str (b # stack) (out @ [of_nat i])
         else if b = 125 then
           (if fst (pop stack) \<noteq> Some 123 then (Err i, out @ [of_nat i])
            else scan_and_validate_loop buf (i + 1) in_str (snd (pop stack)) (out @ [of_nat i]))
         else if b = 93 then
           (if fst (pop stack) \<noteq> Some 91 then (Err i, out @ [of_nat i])
            else scan_and_validate_loop buf (i + 1) in_str (snd (pop stack)) (out @ [of_nat i]))
         else if b = 58 \<or> b = 44 then
           scan_and_validate_loop buf (i + 1) in_str stack (out @ [of_nat i])
         else scan_and_validate_loop buf (i + 1) in_str stack out)
      else if in_str then (Err (length buf), out)
      else if stack \<noteq> [] then (Err (length buf), out)
      else (Ok (), out))"
  by pat_completeness auto
termination
  by (relation "measure (\<lambda>(buf, i, _). length buf - i)") auto

declare scan_and_validate_loop.simps [simp del]

definition scan_and_validate :: "bytes \<Rightarrow> u32 list \<Rightarrow> scan_result" where
  "scan_and_validate buf out = scan_and_validate_loop buf 0 False [] out"

text \<open>\<open>ScalarScanner::scan\<close>.\<close>

definition scalar_scan :: "bytes \<Rightarrow> u32 list \<Rightarrow> scan_result" where
  "scalar_scan buf out = scan_and_validate buf out"

section \<open>The emit-only scanner and the bracket pass\<close>

function scan_emit_resume_loop :: "bytes \<Rightarrow> nat \<Rightarrow> bool \<Rightarrow> u32 list \<Rightarrow> scan_result" where
  "scan_emit_resume_loop buf i in_str out =
     (if i < length buf then
        (let b = buf ! i in
         if in_str then
           (if b = 92 then scan_emit_resume_loop buf (i + 2) in_str out
            else if b = 34 then scan_emit_resume_loop buf (i + 1) False (out @ [of_nat i])
            else scan_emit_resume_loop buf (i + 1) in_str out)
         else if b = 34 then scan_emit_resume_loop buf (i + 1) True (out @ [of_nat i])
         else if b = 123 \<or> b = 125 \<or> b = 91 \<or> b = 93 \<or> b = 44 \<or> b = 58 then
           scan_emit_resume_loop buf (i + 1) in_str (out @ [of_nat i])
         else scan_emit_resume_loop buf (i + 1) in_str out)
      else if in_str then (Err (length buf), out)
      else (Ok (), out))"
  by pat_completeness auto
termination
  by (relation "measure (\<lambda>(buf, i, _). length buf - i)") auto

declare scan_emit_resume_loop.simps [simp del]

definition scan_emit_resume :: "bytes \<Rightarrow> nat \<Rightarrow> bool \<Rightarrow> u32 list \<Rightarrow> scan_result" where
  "scan_emit_resume buf start in_str_init out = scan_emit_resume_loop buf start in_str_init out"

fun validate_brackets_loop ::
    "bytes \<Rightarrow> u8 list \<Rightarrow> bool \<Rightarrow> u32 list \<Rightarrow> (unit, nat) outcome" where
  "validate_brackets_loop buf stack in_string [] =
     (if stack \<noteq> [] then Err (length buf) else Ok ())"
| "validate_brackets_loop buf stack in_string (idx # indices) =
     and_then (at buf (unat idx)) (\<lambda>b.
       if b = 34 then validate_brackets_loop buf stack (\<not> in_string) indices
       else if in_string then validate_brackets_loop buf stack in_string indices
       else if b = 123 \<or> b = 91 then validate_brackets_loop buf (b # stack) in_string indices
       else if b = 125 then
         (if fst (pop stack) \<noteq> Some 123 then Err (unat idx)
          else validate_brackets_loop buf (snd (pop stack)) in_string indices)
       else if b = 93 then
         (if fst (pop stack) \<noteq> Some 91 then Err (unat idx)
          else validate_brackets_loop buf (snd (pop stack)) in_string indices)
       else validate_brackets_loop buf stack in_string indices)"

definition validate_brackets :: "bytes \<Rightarrow> u32 list \<Rightarrow> (unit, nat) outcome" where
  "validate_brackets buf indices = validate_brackets_loop buf [] False indices"

section \<open>The scanners compute the token list\<close>

definition offsets :: "(nat \<times> u8) list \<Rightarrow> u32 list" where
  "offsets ts = map (\<lambda>t. of_nat (fst t)) ts"

lemma offsets_simps [simp]:
  "offsets [] = []" "offsets (t # ts) = of_nat (fst t) # offsets ts"
  "offsets (ts @ us) = offsets ts @ offsets us" "length (offsets ts) = length ts"
  by (simp_all add: offsets_def)

lemma drop_2_cases:
  "i < length buf \<Longrightarrow> drop i buf = [buf ! i] \<and> drop (i + 2) buf = []
     \<or> (\<exists>c. drop i buf = buf ! i # c # drop (i + 2) buf)"
  by (cases "Suc i < length buf") (auto simp flip: Cons_nth_drop_Suc)

lemma lex_run_Escape:
  assumes "i < length buf" "buf ! i = 92"
  shows "lex_run Inside (drop i buf) = Outside \<longleftrightarrow> lex_run Inside (drop (i + 2) buf) = Outside"
    and "lex_tokens Inside i (drop i buf) = lex_tokens Inside (i + 2) (drop (i + 2) buf)"
  using drop_2_cases[OF assms(1)] assms(2) by auto

lemma lex_run_Cons_drop:
  "i < length buf \<Longrightarrow> lex_run s (drop i buf) = lex_run (lex_step s (buf ! i)) (drop (Suc i) buf)"
  by (simp flip: Cons_nth_drop_Suc)

lemma lex_tokens_Cons_drop:
  "i < length buf \<Longrightarrow>
     lex_tokens s i (drop i buf) =
       (if lex_emits s (buf ! i) then [(i, buf ! i)] else [])
         @ lex_tokens (lex_step s (buf ! i)) (Suc i) (drop (Suc i) buf)"
  by (simp flip: Cons_nth_drop_Suc)

lemmas lex_drop = lex_run_Cons_drop lex_tokens_Cons_drop

lemma scan_emit_resume_loop_eq:
  "scan_emit_resume_loop buf i in_str out =
     (if lex_run (start_state in_str) (drop i buf) = Outside then Ok () else Err (length buf),
      out @ offsets (lex_tokens (start_state in_str) i (drop i buf)))"
proof (induction buf i in_str out rule: scan_emit_resume_loop.induct)
  case (1 buf i in_str out)
  note step = scan_emit_resume_loop.simps[of buf i]
  show ?case
  proof (cases "i < length buf")
    case False
    then show ?thesis by (simp add: step)
  next
    case lt: True
    show ?thesis
    proof (cases in_str)
      case in_s: True
      show ?thesis
      proof (cases "buf ! i = 92")
        case True
        with lt in_s "1.IH"(1) show ?thesis
          by (simp add: step lex_run_Escape)
      next
        case False
        with lt in_s "1.IH"(2,3) show ?thesis
          by (simp add: step lex_drop)
      qed
    next
      case False
      with lt "1.IH"(4-6) show ?thesis
        by (auto simp: step lex_drop is_structural_def Let_def)
    qed
  qed
qed

lemma scan_emit_resume_eq:
  "scan_emit_resume buf start in_str out =
     (if lex_run (start_state in_str) (drop start buf) = Outside then Ok () else Err (length buf),
      out @ offsets (lex_tokens (start_state in_str) start (drop start buf)))"
  by (simp add: scan_emit_resume_def scan_emit_resume_loop_eq)

text \<open>
  The fused scanner stops at the first bracket that does not pair, also when a string is left
  open further on.
\<close>

definition fused_result :: "nat \<Rightarrow> lex_state \<Rightarrow> u32 list \<Rightarrow> (nat \<times> u8) list \<Rightarrow> nat + u8 list \<Rightarrow> scan_result" where
  "fused_result len final out ts r =
     (case r of
        Inl p \<Rightarrow> (Err p, out @ offsets (filter (\<lambda>t. fst t \<le> p) ts))
      | Inr st \<Rightarrow> (if final = Outside \<and> st = [] then Ok () else Err len, out @ offsets ts))"

lemma filter_le_lex_tokens:
  "p < n \<Longrightarrow> filter (\<lambda>t. fst t \<le> p) (lex_tokens s n xs) = []"
  by (auto simp: filter_empty_conv dest!: lex_tokens_range)

lemma fused_result_Cons:
  assumes "\<And>p. r = Inl p \<Longrightarrow> n \<le> p"
  shows "fused_result len final (out @ [of_nat n]) ts r = fused_result len final out ((n, b) # ts) r"
  using assms by (auto simp: fused_result_def split: sum.splits)

lemma pair_brackets_lex_le:
  "pair_brackets st (lex_tokens s (Suc n) xs) = Inl p \<Longrightarrow> n \<le> p"
  by (fastforce dest!: pair_brackets_Inl lex_tokens_range)

lemma fused_result_stop:
  "fused_result len f out ((n, b) # lex_tokens s (Suc n) xs) (Inl n) = (Err n, out @ [of_nat n])"
  by (simp add: fused_result_def filter_le_lex_tokens)

lemma fused_result_cong:
  "(f = Outside \<longleftrightarrow> f' = Outside) \<Longrightarrow> fused_result len f out ts r = fused_result len f' out ts r"
  by (auto simp: fused_result_def split: sum.splits)

lemma scan_and_validate_loop_eq:
  "scan_and_validate_loop buf i in_str stack out =
     fused_result (length buf) (lex_run (start_state in_str) (drop i buf)) out
       (lex_tokens (start_state in_str) i (drop i buf))
       (pair_brackets stack (lex_tokens (start_state in_str) i (drop i buf)))"
proof (induction buf i in_str stack out rule: scan_and_validate_loop.induct)
  case (1 buf i in_str stack out)
  note step = scan_and_validate_loop.simps[of buf i]
  note [simp] = fused_result_Cons[OF pair_brackets_lex_le]
  show ?case
  proof (cases "i < length buf")
    case False
    then show ?thesis by (simp add: step fused_result_def)
  next
    case lt: True
    show ?thesis
    proof (cases in_str)
      case in_s: True
      show ?thesis
      proof (cases "buf ! i = 92")
        case True
        with lt in_s "1.IH"(1) show ?thesis
          by (auto simp: step lex_run_Escape intro!: fused_result_cong)
      next
        case False
        with lt in_s "1.IH"(2,3) show ?thesis
          by (auto simp: step lex_drop)
      qed
    next
      case out_s: False
      consider "buf ! i = 34" | "buf ! i = 123 \<or> buf ! i = 91" | "buf ! i = 125" | "buf ! i = 93"
        | "buf ! i = 58 \<or> buf ! i = 44" | "\<not> is_structural (buf ! i)"
        by (auto simp: is_structural_def)
      then show ?thesis
      proof cases
        case 1
        with lt out_s "1.IH"(4) show ?thesis by (simp add: step lex_drop)
      next
        case 2
        with lt out_s "1.IH"(5) show ?thesis by (auto simp: step lex_drop)
      next
        case 3
        with lt out_s "1.IH"(6) show ?thesis
          by (cases stack) (auto simp: step lex_drop fused_result_stop)
      next
        case 4
        with lt out_s "1.IH"(7) show ?thesis
          by (cases stack) (auto simp: step lex_drop fused_result_stop)
      next
        case 5
        with lt out_s "1.IH"(8) show ?thesis by (auto simp: step lex_drop)
      next
        case 6
        with lt out_s "1.IH"(9) show ?thesis
          by (auto simp: step lex_drop is_structural_def)
      qed
    qed
  qed
qed

lemma scan_and_validate_eq:
  "scan_and_validate buf out =
     fused_result (length buf) (lex_run Outside buf) out (tokens buf) (pair_brackets [] (tokens buf))"
  by (simp add: scan_and_validate_def scan_and_validate_loop_eq tokens_def)


lemma validate_brackets_loop_eq:
  assumes "length buf \<le> 2 ^ 32" and "drop n buf = xs"
  shows "validate_brackets_loop buf st (s \<noteq> Outside) (offsets (lex_tokens s n xs)) =
    (case pair_brackets st (lex_tokens s n xs) of
       Inl p \<Rightarrow> Err p
     | Inr st' \<Rightarrow> if st' \<noteq> [] then Err (length buf) else Ok ())"
  using assms(2)
proof (induction xs arbitrary: n s st)
  case Nil
  then show ?case by simp
next
  case (Cons b xs)
  from Cons.prems have n: "n < length buf" "buf ! n = b" and d: "drop (Suc n) buf = xs"
    by (auto dest: drop_eq_ConsD)
  with assms(1) have un: "unat (of_nat n :: u32) = n"
    by (intro unat_of_nat32) simp
  note IH = Cons.IH[OF d]
  show ?case
  proof (cases s)
    case Outside
    with n un IH[of _ "lex_step s b"] IH[of _ Outside] show ?thesis
      by (cases st) (auto simp: at_def is_structural_def)
  next
    case Inside
    with n un IH[of _ "lex_step s b"] show ?thesis
      by (auto simp: at_def)
  next
    case Escaped
    with IH[of _ Inside] show ?thesis by simp
  qed
qed

lemma validate_brackets_tokens:
  assumes "length buf \<le> 2 ^ 32"
  shows "validate_brackets buf (offsets (tokens buf)) =
    (case pair_brackets [] (tokens buf) of
       Inl p \<Rightarrow> Err p
     | Inr st \<Rightarrow> if st \<noteq> [] then Err (length buf) else Ok ())"
  using validate_brackets_loop_eq[OF assms, of 0 buf "[]" Outside]
  by (simp add: validate_brackets_def tokens_def)

section \<open>Properties\<close>

text \<open>C33: The scalar scanner accepts a buffer exactly when its strings are closed and its brackets pair up, and on acceptance it has appended the offset of every structural byte outside string literals, in order; it never panics.\<close>

theorem scalar_scan_correct:
  "fst (scalar_scan buf out) \<noteq> Panic \<and>
   (fst (scalar_scan buf out) = Ok () \<longleftrightarrow> well_bracketed buf) \<and>
   (well_bracketed buf \<longrightarrow> snd (scalar_scan buf out) = out @ offsets (tokens buf))"
  by (auto simp: scalar_scan_def scan_and_validate_eq fused_result_def well_bracketed_def
      split: sum.splits if_splits)

theorem scalar_scan_correct_witness:
  "fst (scalar_scan (js ''[]'') []) = Ok () \<and> snd (scalar_scan (js ''[]'') []) = [0, 1]"
proof -
  have "well_bracketed (js ''[]'')" "offsets (tokens (js ''[]'')) = [0, 1]"
    by (simp_all add: well_bracketed_def tokens_def is_structural_def)
  with scalar_scan_correct[of "js ''[]''" "[]"] show ?thesis by simp
qed

text \<open>C34: The fused scan agrees with the two-pass pipeline of the SIMD scanners run from the start of the buffer: both accept the same buffers with the same index, for buffers of at most 4 GiB.\<close>

theorem fused_scan_is_two_pass:
  assumes "length buf \<le> 2 ^ 32"
  shows "scan_and_validate buf [] = (Ok (), idx) \<longleftrightarrow>
    scan_emit_resume buf 0 False [] = (Ok (), idx) \<and> validate_brackets buf idx = Ok ()"
  using validate_brackets_tokens[OF assms]
  by (auto simp: scan_and_validate_eq scan_emit_resume_eq fused_result_def tokens_def
      split: sum.splits if_splits)

theorem fused_scan_is_two_pass_witness:
  "scan_and_validate (js ''[1]'') [] = (Ok (), [0, 2]) \<longleftrightarrow>
    scan_emit_resume (js ''[1]'') 0 False [] = (Ok (), [0, 2]) \<and> validate_brackets (js ''[1]'') [0, 2] = Ok ()"
  by (rule fused_scan_is_two_pass) simp

end
