(* ===== verification/Unicode.thy ===== *)
theory Unicode
  imports Prelude
begin

text \<open>
  What the interior of a JSON string literal denotes (RFC 8259, section 7, and RFC 3629),
  written with plain arithmetic on code points: the specification against which the string
  validator and the string decoder are proved.
\<close>

section \<open>UTF-8\<close>

definition is_surrogate :: "nat \<Rightarrow> bool" where
  "is_surrogate cp \<longleftrightarrow> 0xD800 \<le> cp \<and> cp \<le> 0xDFFF"

definition is_scalar_value :: "nat \<Rightarrow> bool" where
  "is_scalar_value cp \<longleftrightarrow> cp < 0x110000 \<and> \<not> is_surrogate cp"

definition utf8 :: "nat \<Rightarrow> bytes" where
  "utf8 cp =
     (if cp < 0x80 then [of_nat cp]
      else if cp < 0x800 then [of_nat (0xC0 + cp div 64), of_nat (0x80 + cp mod 64)]
      else if cp < 0x10000 then
        [of_nat (0xE0 + cp div 4096), of_nat (0x80 + cp div 64 mod 64), of_nat (0x80 + cp mod 64)]
      else
        [of_nat (0xF0 + cp div 262144), of_nat (0x80 + cp div 4096 mod 64),
         of_nat (0x80 + cp div 64 mod 64), of_nat (0x80 + cp mod 64)])"

definition utf8_text :: "nat list \<Rightarrow> bytes" where
  "utf8_text cps = concat (map utf8 cps)"

lemma utf8_text_simps [simp]:
  "utf8_text [] = []" "utf8_text (cp # cps) = utf8 cp @ utf8_text cps"
  by (simp_all add: utf8_text_def)

lemma utf8_nonempty [simp]: "utf8 cp \<noteq> []"
  by (simp add: utf8_def)

lemma utf8_2: "0x80 \<le> cp \<Longrightarrow> cp < 0x800 \<Longrightarrow> utf8 cp = [of_nat (0xC0 + cp div 64), of_nat (0x80 + cp mod 64)]"
  and utf8_3: "0x800 \<le> cp \<Longrightarrow> cp < 0x10000 \<Longrightarrow> utf8 cp =
    [of_nat (0xE0 + cp div 4096), of_nat (0x80 + cp div 64 mod 64), of_nat (0x80 + cp mod 64)]"
  and utf8_4: "0x10000 \<le> cp \<Longrightarrow> utf8 cp =
    [of_nat (0xF0 + cp div 262144), of_nat (0x80 + cp div 4096 mod 64),
         of_nat (0x80 + cp div 64 mod 64), of_nat (0x80 + cp mod 64)]"
  by (simp_all add: utf8_def)

lemma cont_less: "(0x80::nat) + n mod 64 < 256"
  by (rule less_trans[of _ "128 + 64"]) simp_all

lemma digit64_div: "z < 64 \<Longrightarrow> (q * 64 + z) div 64 = q"
  and digit64_mod: "z < 64 \<Longrightarrow> (q * 64 + z) mod 64 = z" for q z :: nat
  by simp_all

text \<open>A code point from its base-64 digits.\<close>

lemma digits64_3: "cp = 4096 * (cp div 4096) + 64 * (cp div 64 mod 64) + cp mod 64" for cp :: nat
proof -
  have "cp div 4096 = cp div 64 div 64" by (simp flip: div_mult2_eq)
  moreover have "cp div 64 = 64 * (cp div 64 div 64) + cp div 64 mod 64" by simp
  moreover have "cp = 64 * (cp div 64) + cp mod 64" by simp
  ultimately show ?thesis by linarith
qed

lemma digits64_4:
  "cp = 262144 * (cp div 262144) + 4096 * (cp div 4096 mod 64) + 64 * (cp div 64 mod 64) + cp mod 64"
  for cp :: nat
proof -
  have "cp div 262144 = cp div 4096 div 64" by (simp flip: div_mult2_eq)
  moreover have "cp div 4096 = 64 * (cp div 4096 div 64) + cp div 4096 mod 64" by simp
  ultimately show ?thesis using digits64_3[of cp] by linarith
qed

lemma utf8_hd: "0x80 \<le> cp \<Longrightarrow> is_scalar_value cp \<Longrightarrow> 0x80 \<le> hd (utf8 cp)"
proof -
  assume cp: "0x80 \<le> cp" "is_scalar_value cp"
  consider "cp < 0x800" | "0x800 \<le> cp" "cp < 0x10000" | "0x10000 \<le> cp" by linarith
  then show ?thesis
  proof cases
    case 1
    then have "0xC0 + cp div 64 < 256" by (simp add: less_mult_imp_div_less)
    with 1 cp show ?thesis by (simp add: utf8_2 word_le_nat_alt unat_of_nat8 del: of_nat_add)
  next
    case 2
    then have "0xE0 + cp div 4096 < 256" by (simp add: less_mult_imp_div_less)
    with 2 show ?thesis by (simp add: utf8_3 word_le_nat_alt unat_of_nat8 del: of_nat_add)
  next
    case 3
    with cp have "cp div 262144 < 5"
      by (simp add: less_mult_imp_div_less is_scalar_value_def)
    then have "0xF0 + cp div 262144 < 256" by simp
    with 3 show ?thesis by (simp add: utf8_4 word_le_nat_alt unat_of_nat8 del: of_nat_add)
  qed
qed

section \<open>Escapes\<close>

definition hex_digit :: "u8 \<Rightarrow> nat option" where
  "hex_digit h =
     (if 48 \<le> h \<and> h \<le> 57 then Some (unat h - 48)
      else if 97 \<le> h \<and> h \<le> 102 then Some (unat h - 87)
      else if 65 \<le> h \<and> h \<le> 70 then Some (unat h - 55)
      else None)"

fun hex_value :: "nat \<Rightarrow> bytes \<Rightarrow> nat option" where
  "hex_value v [] = Some v"
| "hex_value v (h # bytes) =
     (case hex_digit h of None \<Rightarrow> None | Some d \<Rightarrow> hex_value (16 * v + d) bytes)"

definition simple_escape_value :: "u8 \<Rightarrow> nat option" where
  "simple_escape_value c =
     (if c = 34 then Some 34 else if c = 92 then Some 92 else if c = 47 then Some 47
      else if c = 98 then Some 8 else if c = 102 then Some 12 else if c = 110 then Some 10
      else if c = 114 then Some 13 else if c = 116 then Some 9 else None)"

definition surrogate_pair :: "nat \<Rightarrow> nat \<Rightarrow> nat" where
  "surrogate_pair hi lo = 0x10000 + (hi - 0xD800) * 1024 + (lo - 0xDC00)"

lemma hex_digit_less: "hex_digit h = Some d \<Longrightarrow> d < 16"
  by (auto simp: hex_digit_def word_le_nat_alt split: if_splits)

lemma hex_value_less: "hex_value v bytes = Some u \<Longrightarrow> u < (v + 1) * 16 ^ length bytes"
proof (induction v bytes rule: hex_value.induct)
  case (2 v h bytes)
  then obtain d where d: "hex_digit h = Some d" "hex_value (16 * v + d) bytes = Some u"
    by (auto split: option.splits)
  then have "u < (16 * v + d + 1) * 16 ^ length bytes"
    by (rule "2.IH")
  also have "\<dots> \<le> (16 * (v + 1)) * 16 ^ length bytes"
    using hex_digit_less[OF d(1)] by (intro mult_le_mono1) simp
  finally show ?case by (simp add: algebra_simps)
qed simp

section \<open>The denotation of a string interior\<close>

text \<open>
  \<open>string_denotes s cps\<close>: the bytes \<open>s\<close> are a valid interior and denote the code points
  \<open>cps\<close>. A raw double quote may stand for itself here: the structural scan ends a literal at
  the first unescaped one, so an interior it delimits has none.
\<close>

inductive string_denotes :: "bytes \<Rightarrow> nat list \<Rightarrow> bool" where
  den_nil: "string_denotes [] []"
| den_plain: "0x20 \<le> b \<Longrightarrow> b < 0x80 \<Longrightarrow> b \<noteq> 92 \<Longrightarrow> string_denotes s cps \<Longrightarrow>
     string_denotes (b # s) (unat b # cps)"
| den_escape: "simple_escape_value c = Some v \<Longrightarrow> string_denotes s cps \<Longrightarrow>
     string_denotes (92 # c # s) (v # cps)"
| den_unicode: "length h = 4 \<Longrightarrow> hex_value 0 h = Some u \<Longrightarrow> \<not> is_surrogate u \<Longrightarrow>
     string_denotes s cps \<Longrightarrow> string_denotes (92 # 117 # h @ s) (u # cps)"
| den_pair: "length h = 4 \<Longrightarrow> hex_value 0 h = Some hi \<Longrightarrow> 0xD800 \<le> hi \<Longrightarrow> hi \<le> 0xDBFF \<Longrightarrow>
     length l = 4 \<Longrightarrow> hex_value 0 l = Some lo \<Longrightarrow> 0xDC00 \<le> lo \<Longrightarrow> lo \<le> 0xDFFF \<Longrightarrow>
     string_denotes s cps \<Longrightarrow>
     string_denotes (92 # 117 # h @ 92 # 117 # l @ s) (surrogate_pair hi lo # cps)"
| den_utf8: "0x80 \<le> cp \<Longrightarrow> is_scalar_value cp \<Longrightarrow> string_denotes s cps \<Longrightarrow>
     string_denotes (utf8 cp @ s) (cp # cps)"

lemma string_denotes_scalar: "string_denotes s cps \<Longrightarrow> cp \<in> set cps \<Longrightarrow> is_scalar_value cp"
proof (induction rule: string_denotes.induct)
  case (den_plain b s cps)
  then show ?case
    by (auto simp: is_scalar_value_def is_surrogate_def word_less_nat_alt)
next
  case (den_escape c v s cps)
  then show ?case
    by (auto simp: is_scalar_value_def is_surrogate_def simple_escape_value_def split: if_splits)
next
  case (den_unicode h u s cps)
  then show ?case
    using hex_value_less[of 0 h u] by (auto simp: is_scalar_value_def)
next
  case (den_pair h hi l lo s cps)
  then show ?case
    by (auto simp: is_scalar_value_def is_surrogate_def surrogate_pair_def)
qed auto

end
