(* ===== verification/Strings.thy ===== *)
theory Strings
  imports Errors Unicode
begin

text \<open>
  \<open>src/validate/strings/scalar.rs\<close>: the single-pass validator of a string literal's interior
  (control characters, escapes with their surrogate pairing, UTF-8).
\<close>

section \<open>Hexadecimal escapes\<close>

text \<open>
  The two \<open>parse_hex4\<close> of the crate (16-bit in the validator, 32-bit in the decoder) run the
  same loop \<open>v <<= 4; v |= digit\<close> and differ in width and error code.
\<close>

fun hex4_loop :: "'e \<Rightarrow> bytes \<Rightarrow> 'a::len word \<Rightarrow> ('a word, 'e) outcome" where
  "hex4_loop e [] v = Ok v"
| "hex4_loop e (h # bytes) v =
     (if 48 \<le> h \<and> h \<le> 57 then hex4_loop e bytes (push_bit 4 v OR ucast (h - 48))
      else if 97 \<le> h \<and> h \<le> 102 then hex4_loop e bytes (push_bit 4 v OR ucast (h - 97 + 10))
      else if 65 \<le> h \<and> h \<le> 70 then hex4_loop e bytes (push_bit 4 v OR ucast (h - 65 + 10))
      else Err e)"

definition parse_hex4 :: "bytes \<Rightarrow> (u16, qjson_err) outcome" where
  "parse_hex4 bytes = hex4_loop QJSON_INVALID_STRING bytes 0"

section \<open>The validator\<close>

definition simple_escape :: "u8 \<Rightarrow> bool" where
  "simple_escape c \<longleftrightarrow>
     c = 34 \<or> c = 92 \<or> c = 47 \<or> c = 98 \<or> c = 102 \<or> c = 110 \<or> c = 114 \<or> c = 116"

definition validate_escape :: "bytes \<Rightarrow> nat \<Rightarrow> (nat, qjson_err) outcome" where
  "validate_escape span i =
     (if i \<ge> length span then Err QJSON_INVALID_STRING
      else if simple_escape (span ! i) then Ok (i + 1)
      else if span ! i = 117 then
        (let hex_start = i + 1; hex_end = hex_start + 4 in
         if hex_end > length span then Err QJSON_INVALID_STRING
         else and_then (parse_hex4 (slice hex_start hex_end span)) (\<lambda>unit.
           if 0xD800 \<le> unit \<and> unit \<le> 0xDBFF then
             (let low_escape = hex_end; low_hex_start = low_escape + 2;
                  low_hex_end = low_hex_start + 4 in
              if low_hex_end > length span \<or> slice low_escape (low_escape + 2) span \<noteq> [92, 117]
              then Err QJSON_INVALID_STRING
              else and_then (parse_hex4 (slice low_hex_start low_hex_end span)) (\<lambda>low.
                if \<not> (0xDC00 \<le> low \<and> low \<le> 0xDFFF) then Err QJSON_INVALID_STRING
                else Ok low_hex_end))
           else if 0xDC00 \<le> unit \<and> unit \<le> 0xDFFF then Err QJSON_INVALID_STRING
           else Ok hex_end))
      else Err QJSON_INVALID_STRING)"

definition is_cont :: "u8 \<Rightarrow> bool" where
  "is_cont b \<longleftrightarrow> 0x80 \<le> b \<and> b \<le> 0xBF"

definition validate_utf8_sequence :: "bytes \<Rightarrow> nat \<Rightarrow> (nat, qjson_err) outcome" where
  "validate_utf8_sequence span i =
     (let lead = span ! i; n = length span in
      if 0xC2 \<le> lead \<and> lead \<le> 0xDF then
        (if i + 1 \<ge> n then Err QJSON_INVALID_UTF8
         else if \<not> is_cont (span ! (i + 1)) then Err QJSON_INVALID_UTF8
         else Ok (i + 2))
      else if 0xE0 \<le> lead \<and> lead \<le> 0xEF then
        (if i + 2 \<ge> n then Err QJSON_INVALID_UTF8
         else
           (let b1 = span ! (i + 1); b2 = span ! (i + 2);
                b1_lo = (if lead = 0xE0 then 0xA0 else 0x80);
                b1_hi = (if lead = 0xED then 0x9F else 0xBF) in
            if b1 < b1_lo \<or> b1 > b1_hi then Err QJSON_INVALID_UTF8
            else if \<not> is_cont b2 then Err QJSON_INVALID_UTF8
            else Ok (i + 3)))
      else if 0xF0 \<le> lead \<and> lead \<le> 0xF4 then
        (if i + 3 \<ge> n then Err QJSON_INVALID_UTF8
         else
           (let b1 = span ! (i + 1); b2 = span ! (i + 2); b3 = span ! (i + 3);
                b1_lo = (if lead = 0xF0 then 0x90 else 0x80);
                b1_hi = (if lead = 0xF4 then 0x8F else 0xBF) in
            if b1 < b1_lo \<or> b1 > b1_hi then Err QJSON_INVALID_UTF8
            else if \<not> is_cont b2 then Err QJSON_INVALID_UTF8
            else if \<not> is_cont b3 then Err QJSON_INVALID_UTF8
            else Ok (i + 4)))
      else Err QJSON_INVALID_UTF8)"

lemma validate_escape_progress: "validate_escape span i = Ok j \<Longrightarrow> i < j \<and> j \<le> length span"
  by (auto simp: validate_escape_def Let_def split: if_splits)

lemma validate_utf8_sequence_progress:
  "validate_utf8_sequence span i = Ok j \<Longrightarrow> i < j \<and> j \<le> length span"
  by (auto simp: validate_utf8_sequence_def Let_def split: if_splits)

function validate_span_loop :: "bytes \<Rightarrow> nat \<Rightarrow> (unit, qjson_err) outcome" where
  "validate_span_loop span i =
     (if i < length span then
        (let b = span ! i in
         if b < 0x80 then
           (if b < 0x20 then Err QJSON_INVALID_STRING
            else if b = 92 then
              and_then (validate_escape span (i + 1)) (\<lambda>j. validate_span_loop span j)
            else validate_span_loop span (i + 1))
         else and_then (validate_utf8_sequence span i) (\<lambda>j. validate_span_loop span j))
      else Ok ())"
  by pat_completeness auto
termination
  by (relation "measure (\<lambda>(span, i). length span - i)")
     (auto dest: validate_escape_progress validate_utf8_sequence_progress)

declare validate_span_loop.simps [simp del]

definition validate_span_scalar :: "bytes \<Rightarrow> (unit, qjson_err) outcome" where
  "validate_span_scalar span = validate_span_loop span 0"

section \<open>Hexadecimal digits\<close>

lemma unat_push_bit4_or:
  fixes v :: "'a::len word" and d :: u8
  assumes "16 * unat v + 15 < 2 ^ LENGTH('a)" and "unat d < 16"
  shows "unat (push_bit 4 v OR ucast d) = 16 * unat v + unat d"
proof -
  have *: "unat (push_bit 4 v) = 16 * unat v"
    using assms(1) by (simp add: unsigned_push_bit_eq push_bit_nat_def take_bit_nat_eq_self)
  have d: "unat (ucast d :: 'a word) = unat d"
    using assms by (simp add: unsigned_ucast_eq take_bit_nat_eq_self)
  have "take_bit 4 (unat d) = unat d"
    using assms(2) by (simp add: take_bit_nat_eq_self)
  then have t: "take_bit 4 d = d"
    by (metis unsigned_take_bit_eq unsigned_word_eqI)
  have "push_bit 4 v OR ucast d = push_bit 4 v + ucast d"
  proof (rule sym, rule disjunctive_add_eq_or, rule bit_word_eqI)
    fix n assume "n < LENGTH('a)"
    have "\<not> bit d n" if "4 \<le> n"
      using that by (metis t bit_take_bit_iff linorder_not_le)
    then show "bit (push_bit 4 v AND ucast d) n = bit (0 :: 'a word) n"
      by (auto simp: bit_simps)
  qed
  then show ?thesis
    using assms * d by (simp add: unat_word_ariths)
qed

lemma hex4_loop_value:
  fixes v :: "'a::len word"
  assumes "(unat v + 1) * 16 ^ length h \<le> 2 ^ LENGTH('a)"
  shows "hex4_loop e h v = (case hex_value (unat v) h of None \<Rightarrow> Err e | Some u \<Rightarrow> Ok (of_nat u))"
  using assms
proof (induction e h v rule: hex4_loop.induct)
  case (1 e v)
  then show ?case by simp
next
  case (2 e c h v)
  have pos: "(16::nat) \<le> 16 ^ length (c # h)" by simp
  have bound: "(16 * unat v + 16) * 16 ^ length h \<le> 2 ^ LENGTH('a)"
    using "2.prems" by (simp add: algebra_simps)
  have "(1::nat) \<le> 16 ^ length h" by simp
  then have "(16 * unat v + 16) * 1 \<le> (16 * unat v + 16) * 16 ^ length h"
    by (rule mult_le_mono2)
  with bound have v15: "16 * unat v + 15 < 2 ^ LENGTH('a)"
    proof -
    assume "(16 * unat v + 16) * 1 \<le> (16 * unat v + 16) * 16 ^ length h"
    with bound have "(16 * unat v + 16) * 1 \<le> 2 ^ LENGTH('a)" by (rule order_trans [rotated])
    then show ?thesis by simp
  qed
  have step: "hex4_loop e h (push_bit 4 v OR ucast d) =
      (case hex_value (16 * unat v + unat d) h of None \<Rightarrow> Err e | Some u \<Rightarrow> Ok (of_nat u))"
    if d: "unat d < 16" and IH: "(unat (push_bit 4 v OR ucast d :: 'a word) + 1) * 16 ^ length h \<le> 2 ^ LENGTH('a) \<Longrightarrow>
      hex4_loop e h (push_bit 4 v OR ucast d) = (case hex_value (unat (push_bit 4 v OR ucast d :: 'a word)) h of None \<Rightarrow> Err e | Some u \<Rightarrow> Ok (of_nat u))"
    for d :: u8
  proof -
    have "(16 * unat v + unat d + 1) * 16 ^ length h \<le> (16 * unat v + 16) * 16 ^ length h"
      using d by (intro mult_le_mono1) simp
    with bound have "(16 * unat v + unat d + 1) * 16 ^ length h \<le> 2 ^ LENGTH('a)"
      by (rule order_trans [rotated])
    with IH show ?thesis
      by (simp add: unat_push_bit4_or[OF v15 d])
  qed
  show ?case
  proof (cases "48 \<le> c \<and> c \<le> 57")
    case True
    then have "unat (c - 48) = unat c - 48" "unat (c - 48) < 16"
      by (auto simp: unat_sub word_le_nat_alt)
    with True step[OF _ "2.IH"(1)] show ?thesis
      by (auto simp: hex_digit_def)
  next
    case no1: False
    show ?thesis
    proof (cases "97 \<le> c \<and> c \<le> 102")
      case True
      then have "unat (c - 97 + 10) = unat c - 87" "unat (c - 97 + 10) < 16"
        by (auto simp: unat_word_ariths unat_sub word_le_nat_alt)
      with True no1 step[OF _ "2.IH"(2)] show ?thesis
        by (auto simp: hex_digit_def)
    next
      case no2: False
      show ?thesis
      proof (cases "65 \<le> c \<and> c \<le> 70")
        case True
        then have "unat (c - 65 + 10) = unat c - 55" "unat (c - 65 + 10) < 16"
          by (auto simp: unat_word_ariths unat_sub word_le_nat_alt)
        with True no1 no2 step[OF _ "2.IH"(3)] show ?thesis
          by (auto simp: hex_digit_def)
      next
        case False
        with no1 no2 show ?thesis
          by (auto simp: hex_digit_def)
      qed
    qed
  qed
qed

section \<open>Escapes\<close>

lemma parse_hex4_eq:
  assumes "length h = 4"
  shows "parse_hex4 h = (case hex_value 0 h of None \<Rightarrow> Err QJSON_INVALID_STRING | Some u \<Rightarrow> Ok (of_nat u))"
  using hex4_loop_value[of "0 :: u16" h QJSON_INVALID_STRING] assms by (simp add: parse_hex4_def)

lemma hex_value4_less: "length h = 4 \<Longrightarrow> hex_value 0 h = Some u \<Longrightarrow> u < 65536"
  using hex_value_less[of 0 h u] by simp

lemma u16_le_iff:
  assumes "u < 65536"
  shows "0xD800 \<le> (of_nat u :: u16) \<longleftrightarrow> 0xD800 \<le> u" "(of_nat u :: u16) \<le> 0xDBFF \<longleftrightarrow> u \<le> 0xDBFF"
    "0xDC00 \<le> (of_nat u :: u16) \<longleftrightarrow> 0xDC00 \<le> u" "(of_nat u :: u16) \<le> 0xDFFF \<longleftrightarrow> u \<le> 0xDFFF"
proof -
  have "unat (of_nat u :: u16) = u" using assms by (simp add: unat_of_nat)
  then show "0xD800 \<le> (of_nat u :: u16) \<longleftrightarrow> 0xD800 \<le> u" "(of_nat u :: u16) \<le> 0xDBFF \<longleftrightarrow> u \<le> 0xDBFF"
    "0xDC00 \<le> (of_nat u :: u16) \<longleftrightarrow> 0xDC00 \<le> u" "(of_nat u :: u16) \<le> 0xDFFF \<longleftrightarrow> u \<le> 0xDFFF"
    by (simp_all add: word_le_nat_alt)
qed

lemma simple_escape_iff: "simple_escape c \<longleftrightarrow> (\<exists>v. simple_escape_value c = Some v)"
  by (simp add: simple_escape_def simple_escape_value_def)

lemma not_simple_escape_u [simp]: "\<not> simple_escape 117"
  by (simp add: simple_escape_def)

lemma validate_escape_unicode:
  assumes d: "drop i span = 117 # h @ s" and h: "length h = 4"
  shows "validate_escape span i =
    (case hex_value 0 h of
       None \<Rightarrow> Err QJSON_INVALID_STRING
     | Some u \<Rightarrow>
         if 0xD800 \<le> u \<and> u \<le> 0xDBFF then
           (if length s < 6 \<or> take 2 s \<noteq> [92, 117] then Err QJSON_INVALID_STRING
            else case hex_value 0 (take 4 (drop 2 s)) of
                None \<Rightarrow> Err QJSON_INVALID_STRING
              | Some lo \<Rightarrow>
                  if 0xDC00 \<le> lo \<and> lo \<le> 0xDFFF then Ok (i + 11) else Err QJSON_INVALID_STRING)
         else if is_surrogate u then Err QJSON_INVALID_STRING
         else Ok (i + 5))"
proof -
  have len: "length span = i + 5 + length s"
    using length_drop_eq[OF d] h by simp
  have c: "span ! i = 117"
    using drop_eq_nth[of i span "[117]" "h @ s" 0] d by simp
  have sl: "slice (i + 1) (i + 1 + 4) span = h"
    using slice_of_drop[of i span "[117]" h s] d h by simp
  have ds: "drop (i + 1 + 4) span = s"
    using d h by (metis (no_types, lifting) add.commute append_Cons append_eq_conv_conj drop_drop
        length_Cons append_Nil list.size(3) plus_1_eq_Suc add.assoc)
  have sl2: "slice (i + 1 + 4) (i + 1 + 4 + 2) span = take 2 s"
    using ds by (simp add: slice_def)
  have sl3: "slice (i + 1 + 4 + 2) (i + 1 + 4 + 2 + 4) span = take 4 (drop 2 s)"
  proof -
    have "drop 2 s = drop (2 + (i + 1 + 4)) span"
      using ds by (metis drop_drop)
    then show ?thesis by (simp add: slice_def add.commute)
  qed
  have ph: "parse_hex4 (take 4 (drop 2 s)) = (case hex_value 0 (take 4 (drop 2 s)) of None \<Rightarrow> Err QJSON_INVALID_STRING | Some u \<Rightarrow> Ok (of_nat u))"
    if "6 \<le> length s"
    using that by (intro parse_hex4_eq) simp
  show ?thesis
  proof (cases "hex_value 0 h")
    case None
    with sl show ?thesis
      by (simp add: validate_escape_def len c Let_def parse_hex4_eq[OF h])
  next
    case (Some u)
    with h have u: "u < 65536" by (rule hex_value4_less)
    have low: "lo < 65536" if "6 \<le> length s" "hex_value 0 (take 4 (drop 2 s)) = Some lo" for lo
      using that by (intro hex_value4_less[of "take 4 (drop 2 s)"]) simp_all
    have ph2: "and_then (parse_hex4 (take 4 (drop 2 s)))
         (\<lambda>low. if \<not> (0xDC00 \<le> low \<and> low \<le> 0xDFFF) then Err QJSON_INVALID_STRING else Ok j) =
       (case hex_value 0 (take 4 (drop 2 s)) of
                None \<Rightarrow> Err QJSON_INVALID_STRING
              | Some lo \<Rightarrow>
                  if 0xDC00 \<le> lo \<and> lo \<le> 0xDFFF then Ok j else Err QJSON_INVALID_STRING)"
      if "6 \<le> length s" for j
      using ph[OF that] low[OF that] by (simp add: u16_le_iff split: option.split)
    have e: "i + 1 + 4 + 2 + 4 = i + 11" by simp
    show ?thesis
      unfolding validate_escape_def Let_def sl sl2 sl3 c parse_hex4_eq[OF h] Some
      unfolding e
      using ph2[of "i + 11"]
      by (simp add: len u16_le_iff[OF u] is_surrogate_def)
  qed
qed

lemma validate_escape_cases:
  assumes "validate_escape span i = Ok j"
  shows "(\<exists>c s v. drop i span = c # s \<and> simple_escape_value c = Some v \<and> j = i + 1) \<or>
    (\<exists>h s u. drop i span = 117 # h @ s \<and> length h = 4 \<and> hex_value 0 h = Some u \<and> \<not> is_surrogate u \<and> j = i + 5) \<or>
    (\<exists>h hi l lo s. drop i span = 117 # h @ 92 # 117 # l @ s \<and> length h = 4 \<and> hex_value 0 h = Some hi \<and>
       0xD800 \<le> hi \<and> hi \<le> 0xDBFF \<and> length l = 4 \<and> hex_value 0 l = Some lo \<and>
       0xDC00 \<le> lo \<and> lo \<le> 0xDFFF \<and> j = i + 11)"
proof -
  from assms have i: "i < length span"
    by (auto simp: validate_escape_def split: if_splits)
  then have d: "drop i span = span ! i # drop (Suc i) span"
    by (simp add: Cons_nth_drop_Suc)
  show ?thesis
  proof (cases "simple_escape (span ! i)")
    case True
    with assms i have "j = i + 1"
      by (simp add: validate_escape_def)
    with True d show ?thesis by (auto simp: simple_escape_iff)
  next
    case False
    with assms i have c: "span ! i = 117" and "i + 1 + 4 \<le> length span"
      by (auto simp: validate_escape_def Let_def split: if_splits)
    then have "4 \<le> length (drop (Suc i) span)" by simp
    from split_4[OF this] obtain h s where hs: "drop (Suc i) span = h @ s" "length h = 4"
      by blast
    with d c have d': "drop i span = 117 # h @ s" by simp
    note eq = validate_escape_unicode[OF d' hs(2)]
    from assms eq obtain u where u: "hex_value 0 h = Some u"
      by (auto split: option.splits)
    show ?thesis
    proof (cases "0xD800 \<le> u \<and> u \<le> 0xDBFF")
      case True
      with assms eq u have s: "6 \<le> length s" "take 2 s = [92, 117]"
        by (auto split: if_splits)
      define l s' where "l = take 4 (drop 2 s)" and "s' = drop 6 s"
      have "s = take 2 s @ take 4 (drop 2 s) @ drop 4 (drop 2 s)"
        by (metis append_take_drop_id)
      then have s': "s = 92 # 117 # l @ s'" "length l = 4"
        using s by (simp_all add: l_def s'_def)
      from assms eq u True s obtain lo where "hex_value 0 l = Some lo" "0xDC00 \<le> lo" "lo \<le> 0xDFFF" "j = i + 11"
        by (auto simp: l_def split: if_splits option.splits)
      with d' hs u True s' show ?thesis by blast
    next
      case False
      with assms eq u have "\<not> is_surrogate u" "j = i + 5"
        by (auto split: if_splits)
      with d' hs u show ?thesis by blast
    qed
  qed
qed

section \<open>UTF-8 sequences\<close>

lemma is_cont_cont: "is_cont (of_nat (0x80 + n mod 64))"
  using cont_less[of n] by (simp add: is_cont_def word_le_nat_alt unat_of_nat8 del: of_nat_add)

lemma validate_utf8_sequence_utf8:
  assumes d: "drop i span = utf8 cp @ s" and cp: "0x80 \<le> cp" "is_scalar_value cp"
  shows "validate_utf8_sequence span i = Ok (i + length (utf8 cp))"
proof -
  note nth = drop_eq_nth[OF d]
  consider "cp < 0x800" | "0x800 \<le> cp" "cp < 0x10000" | "0x10000 \<le> cp"
    by linarith
  then show ?thesis
  proof cases
    case 1
    with cp have u: "utf8 cp = [of_nat (0xC0 + cp div 64), of_nat (0x80 + cp mod 64)]"
      by (intro utf8_2)
    have "0xC2 \<le> 0xC0 + cp div 64" "0xC0 + cp div 64 \<le> 0xDF"
      using 1 cp by (simp_all add: div_le_mono)
    then have "0xC2 \<le> (of_nat (0xC0 + cp div 64) :: u8)" "(of_nat (0xC0 + cp div 64) :: u8) \<le> 0xDF"
      by (simp_all add: word_le_nat_alt unat_of_nat8 del: of_nat_add)
    then show ?thesis
      using nth[of 0] nth[of 1] is_cont_cont[of cp] by (simp add: u validate_utf8_sequence_def del: of_nat_add)
  next
    case 2
    define a b where "a = cp div 4096" and "b = cp div 64 mod 64"
    have u: "utf8 cp = [of_nat (0xE0 + a), of_nat (0x80 + b), of_nat (0x80 + cp mod 64)]"
      using 2 by (simp add: utf8_3 a_def b_def)
    have c: "cp mod 64 < 64" and eq: "cp = 4096 * a + 64 * b + cp mod 64"
      using digits64_3[of cp] by (simp_all add: a_def b_def)
    have ab: "a \<le> 15" "b < 64" "a = 0 \<Longrightarrow> 32 \<le> b"
      using 2 c eq by (linarith, simp add: b_def, linarith)
    have "a = 13 \<Longrightarrow> b < 32"
      using cp(2) c eq ab(2) unfolding is_scalar_value_def is_surrogate_def by linarith
    with ab have ub: "unat (of_nat (0xE0 + a) :: u8) = 0xE0 + a" "unat (of_nat (0x80 + b) :: u8) = 0x80 + b"
      by (simp_all add: unat_of_nat8 del: of_nat_add)
    have l: "span ! i = of_nat (0xE0 + a)" "span ! (i + 1) = of_nat (0x80 + b)" "is_cont (span ! (i + 2))"
      "i + 2 < length span"
      using nth[of 0] nth[of 1] nth[of 2] is_cont_cont[of cp] by (simp_all add: u del: of_nat_add)
    have ul: "unat (span ! i) = 0xE0 + a" "unat (span ! (i + 1)) = 0x80 + b"
      using l ub by simp_all
    show ?thesis
      using l(3,4) ab \<open>a = 13 \<Longrightarrow> b < 32\<close>
      by (auto simp: u validate_utf8_sequence_def word_le_nat_alt word_less_nat_alt
            word_unat_eq_iff ul[simplified] Let_def simp del: of_nat_add)
  next
    case 3
    define a b c where "a = cp div 262144" and "b = cp div 4096 mod 64" and "c = cp div 64 mod 64"
    have u: "utf8 cp = [of_nat (0xF0 + a), of_nat (0x80 + b), of_nat (0x80 + c), of_nat (0x80 + cp mod 64)]"
      using 3 by (simp add: utf8_4 a_def b_def c_def)
    have d: "cp mod 64 < 64" and eq: "cp = 262144 * a + 4096 * b + 64 * c + cp mod 64"
      and bc: "b < 64" "c < 64"
      using digits64_4[of cp] by (simp_all add: a_def b_def c_def)
    have cp_lt: "cp < 0x110000"
      using cp(2) by (simp add: is_scalar_value_def)
    have ab: "a \<le> 4" "a = 0 \<Longrightarrow> 16 \<le> b" "a = 4 \<Longrightarrow> b < 16"
      using 3 d bc eq cp_lt by linarith+
    with bc have ub: "unat (of_nat (0xF0 + a) :: u8) = 0xF0 + a" "unat (of_nat (0x80 + b) :: u8) = 0x80 + b"
      by (simp_all add: unat_of_nat8 del: of_nat_add)
    have l: "span ! i = of_nat (0xF0 + a)" "span ! (i + 1) = of_nat (0x80 + b)" "is_cont (span ! (i + 2))"
      "is_cont (span ! (i + 3))" "i + 3 < length span"
      using nth[of 0] nth[of 1] nth[of 2] nth[of 3] is_cont_cont[of cp]
        is_cont_cont[of "cp div 64", folded c_def]
      by (simp_all add: u del: of_nat_add)
    have ul: "unat (span ! i) = 0xF0 + a" "unat (span ! (i + 1)) = 0x80 + b"
      using l ub by simp_all
    show ?thesis
      using l(3-5) ab bc
      by (auto simp: u validate_utf8_sequence_def word_le_nat_alt word_less_nat_alt
            word_unat_eq_iff ul[simplified] Let_def simp del: of_nat_add)
  qed
qed

lemma validate_utf8_sequence_Ok:
  assumes ok: "validate_utf8_sequence span i = Ok j" and i: "i < length span"
  shows "\<exists>cp s. 0x80 \<le> cp \<and> is_scalar_value cp \<and> drop i span = utf8 cp @ s \<and> j = i + length (utf8 cp)"
proof -
  define x where "x = unat (span ! i)"
  have x: "span ! i = of_nat x" by (simp add: x_def)
  have drop1: "drop k span = span ! k # drop (Suc k) span" if "k < length span" for k
    using that by (simp add: Cons_nth_drop_Suc)
  consider (two) "0xC2 \<le> span ! i" "span ! i \<le> 0xDF" | (three) "0xE0 \<le> span ! i" "span ! i \<le> 0xEF"
    | (four) "0xF0 \<le> span ! i" "span ! i \<le> 0xF4"
    using ok by (auto simp: validate_utf8_sequence_def Let_def split: if_splits)
  then show ?thesis
  proof cases
    case two
    define y where "y = unat (span ! (i + 1))"
    have y: "span ! (i + 1) = of_nat y" by (simp add: y_def)
    from ok two have lt: "i + 1 < length span" and c: "is_cont (span ! (i + 1))" and j: "j = i + 2"
      by (auto simp: validate_utf8_sequence_def Let_def split: if_splits)
    from two c have b: "0xC2 \<le> x" "x \<le> 0xDF" "0x80 \<le> y" "y \<le> 0xBF"
      by (simp_all add: is_cont_def word_le_nat_alt x_def y_def)
    obtain x' y' where xy: "x = 0xC0 + x'" "y = 0x80 + y'"
      using b le_Suc_ex[of "0xC0" x] le_Suc_ex[of "0x80" y] by auto
    define cp where "cp = x' * 64 + y'"
    have cp: "cp div 64 = x'" "cp mod 64 = y'" "0x80 \<le> cp" "cp < 0x800"
      using b xy by (simp_all add: cp_def)
    then have "utf8 cp = [of_nat x, of_nat y]"
      by (simp only: utf8_2 xy)
    moreover have "drop i span = [of_nat x, of_nat y] @ drop (i + 2) span"
      using drop1[of i] drop1[of "i + 1"] lt x y by simp
    ultimately show ?thesis
      using cp j by (intro exI[of _ cp]) (simp add: is_scalar_value_def is_surrogate_def)
  next
    case three
    define y z where "y = unat (span ! (i + 1))" and "z = unat (span ! (i + 2))"
    have y: "span ! (i + 1) = of_nat y" and z: "span ! (i + 2) = of_nat z"
      by (simp_all add: y_def z_def)
    from three have l: "\<not> (0xC2 \<le> span ! i \<and> span ! i \<le> 0xDF)"
      by (auto simp: word_le_nat_alt)
    from ok three l have lt: "i + 2 < length span" and c: "is_cont (span ! (i + 2))" and j: "j = i + 3"
      and r: "(if span ! i = 0xE0 then 0xA0 else 0x80) \<le> span ! (i + 1)"
        "span ! (i + 1) \<le> (if span ! i = 0xED then 0x9F else 0xBF)"
      by (auto simp: validate_utf8_sequence_def Let_def not_less split: if_splits)
    have b: "0xE0 \<le> x" "x \<le> 0xEF" "0x80 \<le> y" "y \<le> 0xBF" "0x80 \<le> z" "z \<le> 0xBF"
      "x = 0xE0 \<Longrightarrow> 0xA0 \<le> y" "x = 0xED \<Longrightarrow> y \<le> 0x9F"
      using three c r
      by (auto simp: is_cont_def word_le_nat_alt word_unat_eq_iff x_def y_def z_def split: if_splits)
    obtain x' y' z' where xyz: "x = 0xE0 + x'" "y = 0x80 + y'" "z = 0x80 + z'"
      using b le_Suc_ex[of "0xE0" x] le_Suc_ex[of "0x80" y] le_Suc_ex[of "0x80" z] by auto
    define cp where "cp = (x' * 64 + y') * 64 + z'"
    have cp64: "cp div 64 = x' * 64 + y'" "cp mod 64 = z'"
      unfolding cp_def by (intro digit64_div digit64_mod; use b xyz in simp)+
    have "cp div 4096 = cp div 64 div 64" by (simp flip: div_mult2_eq)
    with cp64 have cp: "cp div 4096 = x'" "cp div 64 mod 64 = y'"
      using b xyz by simp_all
    have "0x800 \<le> cp"
      using b xyz unfolding cp_def by (cases "x' = 0") auto
    moreover have "cp < 0x10000"
      using b(1-6) xyz unfolding cp_def by auto
    moreover have "\<not> is_surrogate cp"
      using b xyz unfolding cp_def is_surrogate_def by (cases "x' = 13") auto
    ultimately have range: "0x800 \<le> cp" "cp < 0x10000" "\<not> is_surrogate cp"
      by simp_all
    with cp cp64 have "utf8 cp = [of_nat x, of_nat y, of_nat z]"
      by (simp only: utf8_3 xyz)
    moreover have "drop i span = [of_nat x, of_nat y, of_nat z] @ drop (i + 3) span"
      using drop1[of i] drop1[of "i + 1"] drop1[of "i + 2"] lt x y z by (simp add: numeral_3_eq_3)
    ultimately show ?thesis
      using range j by (intro exI[of _ cp]) (simp add: is_scalar_value_def)
  next
    case four
    define y z w where "y = unat (span ! (i + 1))" and "z = unat (span ! (i + 2))"
      and "w = unat (span ! (i + 3))"
    have y: "span ! (i + 1) = of_nat y" and z: "span ! (i + 2) = of_nat z"
      and w: "span ! (i + 3) = of_nat w"
      by (simp_all add: y_def z_def w_def)
    from four have l: "\<not> (0xC2 \<le> span ! i \<and> span ! i \<le> 0xDF)" "\<not> (0xE0 \<le> span ! i \<and> span ! i \<le> 0xEF)"
      by (auto simp: word_le_nat_alt)
    from ok four l have lt: "i + 3 < length span" and c: "is_cont (span ! (i + 2))" "is_cont (span ! (i + 3))"
      and j: "j = i + 4"
      and r: "(if span ! i = 0xF0 then 0x90 else 0x80) \<le> span ! (i + 1)"
        "span ! (i + 1) \<le> (if span ! i = 0xF4 then 0x8F else 0xBF)"
      by (auto simp: validate_utf8_sequence_def Let_def not_less split: if_splits)
    have b: "0xF0 \<le> x" "x \<le> 0xF4" "0x80 \<le> y" "y \<le> 0xBF" "0x80 \<le> z" "z \<le> 0xBF"
      "0x80 \<le> w" "w \<le> 0xBF" "x = 0xF0 \<Longrightarrow> 0x90 \<le> y" "x = 0xF4 \<Longrightarrow> y \<le> 0x8F"
      using four c r
      by (auto simp: is_cont_def word_le_nat_alt word_unat_eq_iff x_def y_def z_def w_def split: if_splits)
    obtain x' y' z' w' where xyz: "x = 0xF0 + x'" "y = 0x80 + y'" "z = 0x80 + z'" "w = 0x80 + w'"
      using b le_Suc_ex[of "0xF0" x] le_Suc_ex[of "0x80" y] le_Suc_ex[of "0x80" z]
        le_Suc_ex[of "0x80" w] by auto
    define cp where "cp = ((x' * 64 + y') * 64 + z') * 64 + w'"
    have cp64: "cp div 64 = (x' * 64 + y') * 64 + z'" "cp mod 64 = w'"
      unfolding cp_def by (intro digit64_div digit64_mod; use b xyz in simp)+
    have "cp div 4096 = cp div 64 div 64" by (simp flip: div_mult2_eq)
    with cp64 have cp4096: "cp div 4096 = x' * 64 + y'" "cp div 64 mod 64 = z'"
      by (simp_all only:, intro digit64_div digit64_mod; use b xyz in simp)+
    have "cp div 262144 = cp div 4096 div 64" by (simp flip: div_mult2_eq)
    with cp4096 have cp: "cp div 262144 = x'" "cp div 4096 mod 64 = y'"
      using b xyz by simp_all
    have "0x10000 \<le> cp"
      using b xyz unfolding cp_def by (cases "x' = 0") auto
    moreover have "cp < 0x110000"
      using b xyz unfolding cp_def by (cases "x' = 4") auto
    ultimately have range: "0x10000 \<le> cp" "cp < 0x110000"
      by simp_all
    with cp cp64 cp4096 have "utf8 cp = [of_nat x, of_nat y, of_nat z, of_nat w]"
      by (simp only: utf8_4 xyz)
    moreover have "drop i span = [of_nat x, of_nat y, of_nat z, of_nat w] @ drop (i + 4) span"
      using drop1[of i] drop1[of "i + 1"] drop1[of "i + 2"] drop1[of "i + 3"] lt x y z w
      by (simp add: numeral_3_eq_3 numeral_Bit0)
    ultimately show ?thesis
      using range j by (intro exI[of _ cp]) (simp add: is_scalar_value_def is_surrogate_def)
  qed
qed

section \<open>The validator accepts exactly the interiors that denote\<close>

lemma validate_span_loop_denotes:
  "validate_span_loop span i = Ok () \<Longrightarrow> \<exists>cps. string_denotes (drop i span) cps"
proof (induction span i rule: validate_span_loop.induct)
  case (1 span i)
  note step = validate_span_loop.simps[of span i]
  show ?case
  proof (cases "i < length span")
    case False
    then show ?thesis by (auto intro: den_nil)
  next
    case lt: True
    then have d: "drop i span = span ! i # drop (Suc i) span"
      by (simp add: Cons_nth_drop_Suc)
    consider (plain) "0x20 \<le> span ! i" "span ! i < 0x80" "span ! i \<noteq> 92"
        "validate_span_loop span (i + 1) = Ok ()"
      | (esc) j where "span ! i = 92" "validate_escape span (i + 1) = Ok j"
        "validate_span_loop span j = Ok ()"
      | (multi) j where "\<not> span ! i < 0x80" "validate_utf8_sequence span i = Ok j"
        "validate_span_loop span j = Ok ()"
      using "1.prems" lt by (auto simp: step Let_def not_less split: if_splits)
    then show ?thesis
    proof cases
      case plain
      then have "\<not> span ! i < 0x20" by (simp add: not_less)
      with "1.IH"(2)[OF lt refl plain(2) _ plain(3)] plain(4) obtain cps
        where "string_denotes (drop (Suc i) span) cps"
        by auto
      with plain d show ?thesis by (auto intro: den_plain)
    next
      case esc
      with "1.IH"(1)[OF lt refl _ _ _ esc(2) esc(3)] obtain cps where cps: "string_denotes (drop j span) cps"
        by auto
      from validate_escape_cases[OF esc(2)] show ?thesis
      proof (elim disjE exE conjE)
        fix c s v assume c: "drop (i + 1) span = c # s" "simple_escape_value c = Some v" "j = i + 1 + 1"
        then have "drop j span = s" using drop_eq_ConsD[OF c(1)] by simp
        with c cps d esc(1) show ?thesis by (auto intro: den_escape)
      next
        fix h s u assume h: "drop (i + 1) span = 117 # h @ s" "length h = 4" "hex_value 0 h = Some u"
          "\<not> is_surrogate u" "j = i + 1 + 5"
        then have "drop j span = drop 5 (117 # h @ s)" by (metis add.commute drop_drop)
        with h cps d esc(1) show ?thesis by (auto intro: den_unicode)
      next
        fix h hi l lo s assume h: "drop (i + 1) span = 117 # h @ 92 # 117 # l @ s" "length h = 4"
          "hex_value 0 h = Some hi" "0xD800 \<le> hi" "hi \<le> 0xDBFF" "length l = 4" "hex_value 0 l = Some lo"
          "0xDC00 \<le> lo" "lo \<le> 0xDFFF" "j = i + 1 + 11"
        then have "drop j span = drop 11 (117 # h @ 92 # 117 # l @ s)" by (metis add.commute drop_drop)
        with h cps d esc(1) show ?thesis by (auto intro: den_pair)
      qed
    next
      case multi
      with "1.IH"(3)[OF lt refl _ multi(2) multi(3)] obtain cps where cps: "string_denotes (drop j span) cps"
        by auto
      from validate_utf8_sequence_Ok[OF multi(2) lt] obtain cp s where
        cp: "0x80 \<le> cp" "is_scalar_value cp" "drop i span = utf8 cp @ s" "j = i + length (utf8 cp)"
        by auto
      then have "drop j span = s" by (metis add.commute append_eq_conv_conj drop_drop)
      with cp cps show ?thesis by (auto intro: den_utf8)
    qed
  qed
qed

lemma validate_span_loop_complete:
  "string_denotes r cps \<Longrightarrow> drop i span = r \<Longrightarrow> validate_span_loop span i = Ok ()"
proof (induction arbitrary: i rule: string_denotes.induct)
  case den_nil
  then show ?case by (simp add: validate_span_loop.simps[of span i])
next
  case (den_plain b s cps)
  then show ?case
    using drop_eq_ConsD[OF den_plain.prems]
    by (auto simp: validate_span_loop.simps[of span i] not_less)
next
  case (den_escape c v s cps)
  from drop_eq_ConsD[OF den_escape.prems] have d: "i < length span" "span ! i = 92" "drop (i + 1) span = c # s"
    by auto
  from drop_eq_ConsD[OF d(3)] have "i + 1 < length span" "span ! (i + 1) = c" "drop (i + 2) span = s"
    by auto
  with den_escape d show ?case
    by (auto simp: validate_span_loop.simps[of span i] validate_escape_def simple_escape_iff)
next
  case (den_unicode h u s cps)
  from drop_eq_ConsD[OF den_unicode.prems] have d: "i < length span" "span ! i = 92" "drop (i + 1) span = 117 # h @ s"
    by auto
  have "validate_escape span (i + 1) = Ok (i + 1 + 5)"
    using validate_escape_unicode[OF d(3)] den_unicode by (auto simp: is_surrogate_def)
  moreover have "drop (i + 1 + 5) span = s"
    using drop_add[of "i + 1" span "117 # h" s] d den_unicode by simp
  ultimately show ?case
    using d den_unicode.IH[of "i + 1 + 5"] by (simp add: validate_span_loop.simps[of span i])
next
  case (den_pair h hi l lo s cps)
  from drop_eq_ConsD[OF den_pair.prems] have d: "i < length span" "span ! i = 92"
    "drop (i + 1) span = 117 # h @ 92 # 117 # l @ s"
    by auto
  have "validate_escape span (i + 1) = Ok (i + 1 + 11)"
    using validate_escape_unicode[OF d(3)] den_pair by simp
  moreover have "drop (i + 1 + 11) span = s"
    using drop_add[of "i + 1" span "117 # h @ 92 # 117 # l" s] d den_pair by simp
  ultimately show ?case
    using d den_pair.IH[of "i + 1 + 11"] by (simp add: validate_span_loop.simps[of span i])
next
  case (den_utf8 cp s cps)
  have "i < length span" "0x80 \<le> span ! i"
    using drop_eq_nth[OF den_utf8.prems, of 0] utf8_hd[of cp] den_utf8 by (simp_all add: hd_conv_nth)
  moreover have "validate_utf8_sequence span i = Ok (i + length (utf8 cp))"
    using den_utf8 by (intro validate_utf8_sequence_utf8) auto
  ultimately show ?case
    using den_utf8.IH[OF drop_add[OF den_utf8.prems]]
    by (simp add: validate_span_loop.simps[of span i] flip: not_le)
qed

lemma validate_span_scalar_iff:
  "validate_span_scalar span = Ok () \<longleftrightarrow> (\<exists>cps. string_denotes span cps)"
  using validate_span_loop_denotes[of span 0] validate_span_loop_complete[of span _ 0 span]
  by (auto simp: validate_span_scalar_def)

text \<open>The only outcomes are acceptance and the two codes of a bad interior.\<close>

lemma parse_hex4_total: "(\<exists>u. parse_hex4 h = Ok u) \<or> parse_hex4 h = Err QJSON_INVALID_STRING"
proof -
  have "(\<exists>u. hex4_loop e h v = Ok u) \<or> hex4_loop e h v = Err e" for e :: qjson_err and v :: u16
    by (induction e h v rule: hex4_loop.induct) auto
  then show ?thesis by (simp add: parse_hex4_def)
qed

lemma validate_escape_total:
  "(\<exists>j. validate_escape span i = Ok j) \<or> validate_escape span i = Err QJSON_INVALID_STRING"
  using parse_hex4_total[of "slice (i + 1) (i + 1 + 4) span"]
    parse_hex4_total[of "slice (i + 1 + 4 + 2) (i + 1 + 4 + 2 + 4) span"]
  unfolding validate_escape_def Let_def
  by (elim disjE exE) (simp_all del: One_nat_def)

lemma validate_utf8_sequence_total:
  "(\<exists>j. validate_utf8_sequence span i = Ok j) \<or> validate_utf8_sequence span i = Err QJSON_INVALID_UTF8"
  unfolding validate_utf8_sequence_def Let_def by simp

lemma validate_span_loop_total:
  "validate_span_loop span i \<in> {Ok (), Err QJSON_INVALID_STRING, Err QJSON_INVALID_UTF8}"
proof (induction span i rule: validate_span_loop.induct)
  case (1 span i)
  note step = validate_span_loop.simps[of span i]
  show ?case
    using "1.IH" validate_escape_total[of span "i + 1"] validate_utf8_sequence_total[of span i]
    by (elim disjE exE) (simp_all add: step Let_def not_less)
qed

lemma validate_span_scalar_total:
  "validate_span_scalar span \<in> {Ok (), Err QJSON_INVALID_STRING, Err QJSON_INVALID_UTF8}"
  by (simp only: validate_span_scalar_def validate_span_loop_total)

end
