(* ===== verification/Simd.thy ===== *)
theory Simd
  imports Prelude
begin

text \<open>
  The vector and bit-counting instructions the SIMD paths use. A vector register is the list of
  its byte lanes, lowest address first; a comparison yields \<open>0xFF\<close> or \<open>0x00\<close> in every lane;
  a move-mask gathers the top bits of the lanes, lane 0 in bit 0.
\<close>

section \<open>The target\<close>

text \<open>
  The dispatchers choose an implementation once, from the architecture, the crate feature
  \<open>avx2\<close> and the features of the CPU; the choice is cached and never changes. \<open>debug_build\<close>: arithmetic overflow panics.
\<close>

record target =
  x86_64_avx2_build :: bool
  cpu_avx2 :: bool
  cpu_pclmulqdq :: bool
  aarch64_build :: bool
  cpu_aes :: bool
  debug_build :: bool

definition scalar_target :: target where
  "scalar_target = \<lparr>x86_64_avx2_build = False, cpu_avx2 = False, cpu_pclmulqdq = False,
     aarch64_build = False, cpu_aes = False, debug_build = False\<rparr>"

definition avx2_target :: target where
  "avx2_target = \<lparr>x86_64_avx2_build = True, cpu_avx2 = True, cpu_pclmulqdq = True,
     aarch64_build = False, cpu_aes = False, debug_build = False\<rparr>"

definition neon_target :: target where
  "neon_target = \<lparr>x86_64_avx2_build = False, cpu_avx2 = False, cpu_pclmulqdq = False,
     aarch64_build = True, cpu_aes = True, debug_build = False\<rparr>"

section \<open>Lanes\<close>

definition load :: "nat \<Rightarrow> bytes \<Rightarrow> nat \<Rightarrow> u8 list" where
  "load n buf i = slice i (i + n) buf"

definition lane_mask :: "bool \<Rightarrow> u8" where
  "lane_mask c = (if c then 0xFF else 0)"

definition v_eq :: "u8 list \<Rightarrow> u8 \<Rightarrow> u8 list" where
  "v_eq v c = map (\<lambda>b. lane_mask (b = c)) v"

text \<open>Unsigned (NEON) and signed (AVX2) comparisons with a broadcast byte.\<close>

definition v_ge_u :: "u8 list \<Rightarrow> u8 \<Rightarrow> u8 list" where
  "v_ge_u v c = map (\<lambda>b. lane_mask (c \<le> b)) v"

definition v_lt_u :: "u8 list \<Rightarrow> u8 \<Rightarrow> u8 list" where
  "v_lt_u v c = map (\<lambda>b. lane_mask (b < c)) v"

definition v_gt_s :: "u8 \<Rightarrow> u8 list \<Rightarrow> u8 list" where
  "v_gt_s c v = map (\<lambda>b. lane_mask (sint c > sint b)) v"

definition v_or :: "u8 list \<Rightarrow> u8 list \<Rightarrow> u8 list" where
  "v_or v w = map2 (OR) v w"

definition v_max :: "u8 list \<Rightarrow> u8" where
  "v_max v = fold max v 0"

definition movemask :: "u8 list \<Rightarrow> 'a::len word" where
  "movemask v = horner_sum of_bool 2 (map (\<lambda>b. bit b 7) v)"

definition trailing_zeros :: "'a::len word \<Rightarrow> nat" where
  "trailing_zeros w = length (takeWhile (\<lambda>k. \<not> bit w k) [0..<LENGTH('a)])"

definition leading_zeros :: "'a::len word \<Rightarrow> nat" where
  "leading_zeros w = length (takeWhile (\<lambda>k. \<not> bit w k) (rev [0..<LENGTH('a)]))"

definition trailing_ones :: "'a::len word \<Rightarrow> nat" where
  "trailing_ones w = trailing_zeros (NOT w)"

lemma length_load: "i + n \<le> length buf \<Longrightarrow> length (load n buf i) = n"
  by (simp add: load_def)

lemma nth_load: "i + n \<le> length buf \<Longrightarrow> k < n \<Longrightarrow> load n buf i ! k = buf ! (i + k)"
  by (simp add: load_def slice_def)

lemma length_v [simp]:
  "length (v_eq v c) = length v" "length (v_ge_u v c) = length v" "length (v_lt_u v c) = length v"
  "length (v_gt_s c v) = length v" "length (v_or v w) = min (length v) (length w)"
  by (simp_all add: v_eq_def v_ge_u_def v_lt_u_def v_gt_s_def v_or_def)

lemma bit_lane_mask [simp]: "bit (lane_mask c) 7 = c"
  by (simp add: lane_mask_def)

lemma nth_v [simp]:
  "k < length v \<Longrightarrow> v_eq v c ! k = lane_mask (v ! k = c)"
  "k < length v \<Longrightarrow> v_ge_u v c ! k = lane_mask (c \<le> v ! k)"
  "k < length v \<Longrightarrow> v_lt_u v c ! k = lane_mask (v ! k < c)"
  "k < length v \<Longrightarrow> v_gt_s c v ! k = lane_mask (sint (v ! k) < sint c)"
  "k < length v \<Longrightarrow> k < length w \<Longrightarrow> v_or v w ! k = v ! k OR w ! k"
  by (simp_all add: v_eq_def v_ge_u_def v_lt_u_def v_gt_s_def v_or_def)

lemma bit_movemask:
  "bit (movemask v :: 'a::len word) k \<longleftrightarrow> k < LENGTH('a) \<and> k < length v \<and> bit (v ! k) 7"
  by (auto simp: movemask_def bit_horner_sum_bit_iff possible_bit_def)

lemma takeWhile_upt:
  assumes "P n" "\<And>j. i \<le> j \<Longrightarrow> j < n \<Longrightarrow> \<not> P j" "i \<le> n" "n < m"
  shows "length (takeWhile (\<lambda>k. \<not> P k) [i..<m]) = n - i"
proof -
  have "[i..<m] = [i..<n] @ n # [Suc n..<m]"
    using assms(3,4) upt_add_eq_append[of i n "m - n"] by (simp add: upt_conv_Cons)
  moreover have "takeWhile (\<lambda>k. \<not> P k) ([i..<n] @ n # [Suc n..<m]) = [i..<n]"
    using assms(1,2) by (subst takeWhile_append2) auto
  ultimately show ?thesis by simp
qed

text \<open>\<open>trailing_zeros\<close> of a non-zero word is its lowest set bit.\<close>

lemma trailing_zeros_bits:
  fixes w :: "'a::len word"
  assumes "w \<noteq> 0"
  shows "bit w (trailing_zeros w)" "k < trailing_zeros w \<Longrightarrow> \<not> bit w k"
    "trailing_zeros w < LENGTH('a)"
proof -
  have "\<exists>n. bit w n"
  proof (rule ccontr)
    assume "\<not> (\<exists>n. bit w n)"
    then have "w = 0" by (intro bit_word_eqI) simp
    with assms show False ..
  qed
  then obtain n where n: "bit w n" "\<And>j. j < n \<Longrightarrow> \<not> bit w j"
    by (auto simp: exists_least_iff[of "bit w"])
  have lt: "n < LENGTH('a)"
    using n(1) by (rule bit_imp_le_length)
  have eq: "trailing_zeros w = n"
    unfolding trailing_zeros_def
    using takeWhile_upt[of "bit w" n 0 "LENGTH('a)"] n lt by simp
  show "bit w (trailing_zeros w)" "trailing_zeros w < LENGTH('a)"
    "k < trailing_zeros w \<Longrightarrow> \<not> bit w k"
    using n lt by (simp_all add: eq)
qed

lemma movemask_zero:
  assumes "length v \<le> LENGTH('a)"
  shows "(movemask v :: 'a::len word) = 0 \<longleftrightarrow> (\<forall>k < length v. \<not> bit (v ! k) 7)"
proof
  assume "(movemask v :: 'a word) = 0"
  then have "\<not> bit (movemask v :: 'a word) k" for k by simp
  with assms show "\<forall>k < length v. \<not> bit (v ! k) 7"
    by (auto simp: bit_movemask)
next
  assume "\<forall>k < length v. \<not> bit (v ! k) 7"
  then show "(movemask v :: 'a word) = 0"
    by (intro bit_word_eqI) (simp add: bit_movemask)
qed

end
