(* ===== verification/Strings_Simd.thy ===== *)
theory Strings_Simd
  imports Strings Simd
begin

text \<open>
  \<open>src/validate/strings/avx2.rs\<close>, \<open>neon.rs\<close> and \<open>mod.rs\<close>: the vectorised validators skip chunks of
  plain ASCII and hand the rest to the scalar one; the dispatcher picks one per target. All three
  compute the same function.
\<close>

section \<open>Definitions\<close>

function validate_span_avx2_loop :: "bytes \<Rightarrow> nat \<Rightarrow> (unit, qjson_err) outcome" where
  "validate_span_avx2_loop span i =
     (if i + 32 \<le> length span then
        (let chunk = load 32 span i;
             high = (movemask chunk :: u32);
             bs = (movemask (v_eq chunk 92) :: u32);
             ctrl = (movemask (v_gt_s 0x20 chunk) :: u32);
             interesting = high OR bs OR ctrl in
         if interesting \<noteq> 0 then
           (let offset = trailing_zeros interesting in
            validate_span_scalar (drop (i + offset) span))
         else validate_span_avx2_loop span (i + 32))
      else validate_span_scalar (drop i span))"
  by pat_completeness auto
termination
  by (relation "measure (\<lambda>(span, i). length span - i)") auto

declare validate_span_avx2_loop.simps [simp del]

definition validate_span_avx2 :: "bytes \<Rightarrow> (unit, qjson_err) outcome" where
  "validate_span_avx2 span = validate_span_avx2_loop span 0"

function validate_span_neon_loop :: "bytes \<Rightarrow> nat \<Rightarrow> (unit, qjson_err) outcome" where
  "validate_span_neon_loop span i =
     (if i + 16 \<le> length span then
        (let chunk = load 16 span i;
             high = v_ge_u chunk 0x80;
             bs = v_eq chunk 92;
             ctrl = v_lt_u chunk 0x20;
             interesting = v_or (v_or high bs) ctrl in
         if v_max interesting \<noteq> 0 then
           (case List.find (\<lambda>lane. 0x80 \<le> span ! (i + lane) \<or> span ! (i + lane) = 92
               \<or> span ! (i + lane) < 0x20) [0..<16] of
              Some lane \<Rightarrow> validate_span_scalar (drop (i + lane) span)
            | None \<Rightarrow> Panic)
         else validate_span_neon_loop span (i + 16))
      else validate_span_scalar (drop i span))"
  by pat_completeness auto
termination
  by (relation "measure (\<lambda>(span, i). length span - i)") auto

declare validate_span_neon_loop.simps [simp del]

definition validate_span_neon :: "bytes \<Rightarrow> (unit, qjson_err) outcome" where
  "validate_span_neon span = validate_span_neon_loop span 0"

definition validate_string_span :: "target \<Rightarrow> bytes \<Rightarrow> (unit, qjson_err) outcome" where
  "validate_string_span tgt =
     (if x86_64_avx2_build tgt \<and> cpu_avx2 tgt then validate_span_avx2
      else if aarch64_build tgt then validate_span_neon
      else validate_span_scalar)"

section \<open>The scalar validator on a suffix\<close>

fun shift_ok :: "nat \<Rightarrow> (nat, 'e) outcome \<Rightarrow> (nat, 'e) outcome" where
  "shift_ok k r = and_then r (\<lambda>j. Ok (k + j))"

lemma slice_drop: "slice i j (drop k xs) = slice (k + i) (k + j) xs"
  by (simp add: slice_def add.commute)

lemma validate_escape_shift:
  assumes "k \<le> length span"
  shows "validate_escape span (k + i) = shift_ok k (validate_escape (drop k span) i)"
proof -
  have s: "slice (k + a) (k + b) span = slice a b (drop k span)" for a b
    by (simp add: slice_drop)
  have l: "length span \<le> k + a \<longleftrightarrow> length (drop k span) \<le> a"
    "length span < k + a \<longleftrightarrow> length (drop k span) < a" for a
    using assms by auto
  show ?thesis
  proof (cases "length (drop k span) \<le> i")
    case True
    then show ?thesis using l by (simp add: validate_escape_def)
  next
    case False
    then have n: "span ! (k + i) = drop k span ! i" by simp
    show ?thesis
      unfolding validate_escape_def Let_def add.assoc l s n
      by (cases "parse_hex4 (slice (i + 1) (i + (1 + 4)) (drop k span))";
          cases "parse_hex4 (slice (i + (1 + (4 + 2))) (i + (1 + (4 + (2 + 4)))) (drop k span))")
        (simp_all only: and_then.simps shift_ok.simps if_distrib[of "shift_ok k"] cong: if_cong, simp_all)
  qed
qed

lemma validate_utf8_sequence_shift:
  assumes "k \<le> length span"
  shows "validate_utf8_sequence span (k + i) = shift_ok k (validate_utf8_sequence (drop k span) i)"
proof -
  have n: "span ! (k + a) = drop k span ! a" for a
    using assms by simp
  have l: "length span \<le> k + a \<longleftrightarrow> length (drop k span) \<le> a" for a
    using assms by auto
  show ?thesis
    unfolding validate_utf8_sequence_def Let_def add.assoc n l
    by (simp only: shift_ok.simps if_distrib[of "\<lambda>r. and_then r (\<lambda>j. Ok (k + j))"] and_then.simps)
qed

lemma validate_span_loop_shift:
  assumes "k \<le> length span"
  shows "validate_span_loop span (k + i) = validate_span_loop (drop k span) i"
  using assms
proof (induction "drop k span" i rule: validate_span_loop.induct)
  case (1 i)
  note steps = validate_span_loop.simps[of span "k + i"] validate_span_loop.simps[of "drop k span" i]
  have lt: "k + i < length span \<longleftrightarrow> i < length (drop k span)"
    using 1 by auto
  show ?case
  proof (cases "i < length (drop k span)")
    case True
    have n: "span ! (k + i) = drop k span ! i"
      using "1.prems" by simp
    have e: "validate_escape span (k + i + 1) = shift_ok k (validate_escape (drop k span) (i + 1))"
      using validate_escape_shift[OF "1.prems", of "i + 1"] by (simp only: add.assoc)
    show ?thesis
      unfolding steps lt n e validate_utf8_sequence_shift[OF "1.prems"] Let_def
      using True "1.hyps" "1.prems"
      by (cases "validate_escape (drop k span) (i + 1)"; cases "validate_utf8_sequence (drop k span) i")
        (simp_all add: add.assoc)
  next
    case False
    then show ?thesis by (simp add: steps lt)
  qed
qed

lemma validate_span_scalar_drop:
  "k \<le> length span \<Longrightarrow> validate_span_scalar (drop k span) = validate_span_loop span k"
  using validate_span_loop_shift[of k span 0] by (simp add: validate_span_scalar_def)

text \<open>Bytes that need no attention can be skipped.\<close>

definition plain :: "u8 \<Rightarrow> bool" where
  "plain b \<longleftrightarrow> 0x20 \<le> b \<and> b < 0x80 \<and> b \<noteq> 92"

lemma validate_span_loop_skip:
  "i + m \<le> length span \<Longrightarrow> (\<And>k. k < m \<Longrightarrow> plain (span ! (i + k))) \<Longrightarrow>
     validate_span_loop span i = validate_span_loop span (i + m)"
proof (induction m)
  case (Suc m)
  have "plain (span ! (i + m))" using Suc.prems by simp
  then have "validate_span_loop span (i + m) = validate_span_loop span (i + m + 1)"
    using Suc.prems(1) by (subst validate_span_loop.simps) (simp add: plain_def not_less flip: not_less)
  with Suc show ?case by simp
qed simp

section \<open>The vector tests\<close>

lemma bit7: "bit (b :: u8) 7 \<longleftrightarrow> 0x80 \<le> b"
proof -
  define n where "n = unat b"
  have n: "n < 256" using unsigned_less[of b, where ?'a = nat] by (simp add: n_def)
  have "bit b 7 \<longleftrightarrow> odd (n div 128)"
    using bit_unsigned_iff[of b 7, where ?'a = nat] by (simp add: bit_iff_odd[of "unat b"] n_def)
  moreover have "n div 128 = (if 128 \<le> n then 1 else 0)"
    using n by (auto intro: div_nat_eqI)
  ultimately show ?thesis
    by (simp add: word_le_nat_alt n_def)
qed

lemma sint_less_space: "sint (b :: u8) < sint (0x20 :: u8) \<longleftrightarrow> b < 0x20 \<or> 0x80 \<le> b"
proof -
  have "sint b = (if bit b 7 then uint b - 256 else uint b)"
    using unsigned_less[of b, where ?'a = int]
    by (simp add: sint_uint signed_take_bit_eq_take_bit_minus bit_uint_iff)
      (simp add: take_bit_eq_mod)
  moreover have "uint b < 256" "0 \<le> uint b"
    using unsigned_less[of b, where ?'a = int] by simp_all
  ultimately show ?thesis
    by (auto simp: bit7 word_le_def word_less_def)
qed

lemma v_max_zero: "v_max v = 0 \<longleftrightarrow> (\<forall>b \<in> set v. b = 0)"
proof -
  have "fold max v a = 0 \<longleftrightarrow> a = 0 \<and> (\<forall>b \<in> set v. b = 0)" for a :: u8
    by (induction v arbitrary: a) (auto simp: max_def)
  then show ?thesis by (simp add: v_max_def)
qed

lemma avx2_interesting_bit:
  assumes "length v = 32"
  shows "bit (movemask v OR movemask (v_eq v 92) OR movemask (v_gt_s 0x20 v) :: u32) k \<longleftrightarrow>
    k < 32 \<and> \<not> plain (v ! k)"
proof (cases "k < 32")
  case True
  with assms have "bit (movemask v :: u32) k = (0x80 \<le> v ! k)"
    "bit (movemask (v_eq v 92) :: u32) k = (v ! k = 92)"
    "bit (movemask (v_gt_s 0x20 v) :: u32) k = (v ! k < 0x20 \<or> 0x80 \<le> v ! k)"
    using sint_less_space[of "v ! k"] by (simp_all add: bit_movemask bit7[symmetric])
  with True show ?thesis
    by (auto simp: bit_or_iff plain_def not_le not_less)
qed (simp add: bit_or_iff bit_movemask)

section \<open>Equivalence\<close>

lemma validate_span_avx2_loop_eq:
  "i \<le> length span \<Longrightarrow> validate_span_avx2_loop span i = validate_span_loop span i"
proof (induction span i rule: validate_span_avx2_loop.induct)
  case (1 span i)
  show ?case
  proof (cases "i + 32 \<le> length span")
    case True
    define chunk where "chunk = load 32 span i"
    define w where "w = (movemask chunk OR movemask (v_eq chunk 92) OR movemask (v_gt_s 0x20 chunk) :: u32)"
    have b: "bit w k \<longleftrightarrow> k < 32 \<and> \<not> plain (span ! (i + k))" for k
      using avx2_interesting_bit[of chunk k] True by (auto simp: chunk_def w_def length_load nth_load)
    have step: "validate_span_avx2_loop span i =
      (if w \<noteq> 0 then validate_span_scalar (drop (i + trailing_zeros w) span)
       else validate_span_avx2_loop span (i + 32))"
      using True unfolding validate_span_avx2_loop.simps[of span i]
      by (simp add: Let_def w_def chunk_def)
    show ?thesis
    proof (cases "w = 0")
      case w: True
      then have "plain (span ! (i + k))" if "k < 32" for k
        using b[of k] that by simp
      with True have "validate_span_loop span i = validate_span_loop span (i + 32)"
        by (intro validate_span_loop_skip) auto
      moreover have "validate_span_avx2_loop span (i + 32) = validate_span_loop span (i + 32)"
        using "1.IH"[OF True refl refl refl refl refl] w True by (simp add: w_def chunk_def)
      ultimately show ?thesis
        using step w by simp
    next
      case False
      from trailing_zeros_bits[OF this] have t: "trailing_zeros w < 32" "\<And>k. k < trailing_zeros w \<Longrightarrow> plain (span ! (i + k))"
        using b by auto
      then have "validate_span_loop span i = validate_span_loop span (i + trailing_zeros w)"
        using True by (intro validate_span_loop_skip) auto
      with step False t True show ?thesis
        by (simp add: validate_span_scalar_drop)
    qed
  next
    case False
    with "1.prems" show ?thesis
      by (simp add: validate_span_avx2_loop.simps[of span i] validate_span_scalar_drop)
  qed
qed

lemma find_upt:
  "List.find P [0..<n] = Some k \<Longrightarrow> k < n \<and> P k \<and> (\<forall>j < k. \<not> P j)"
  by (auto simp: find_Some_iff)

lemma validate_span_neon_loop_eq:
  "i \<le> length span \<Longrightarrow> validate_span_neon_loop span i = validate_span_loop span i"
proof (induction span i rule: validate_span_neon_loop.induct)
  case (1 span i)
  show ?case
  proof (cases "i + 16 \<le> length span")
    case True
    define chunk where "chunk = load 16 span i"
    define w where "w = v_or (v_or (v_ge_u chunk 0x80) (v_eq chunk 92)) (v_lt_u chunk 0x20)"
    define P where "P lane \<longleftrightarrow> 0x80 \<le> span ! (i + lane) \<or> span ! (i + lane) = 92 \<or> span ! (i + lane) < 0x20" for lane
    have P: "P k \<longleftrightarrow> \<not> plain (span ! (i + k))" for k
      by (auto simp: P_def plain_def not_less not_le)
    have len: "length w = 16"
      using True by (simp add: w_def chunk_def length_load)
    have wk: "w ! k = 0 \<longleftrightarrow> \<not> P k" if "k < 16" for k
      using that True by (auto simp: w_def chunk_def nth_load length_load P_def lane_mask_def)
    have w: "v_max w = 0 \<longleftrightarrow> (\<forall>k < 16. \<not> P k)"
      using wk by (simp add: v_max_zero all_set_conv_all_nth len)
    have step: "validate_span_neon_loop span i =
      (if v_max w \<noteq> 0 then
         (case List.find P [0..<16] of Some lane \<Rightarrow> validate_span_scalar (drop (i + lane) span) | None \<Rightarrow> Panic)
       else validate_span_neon_loop span (i + 16))"
      using True unfolding validate_span_neon_loop.simps[of span i]
      by (simp add: Let_def w_def chunk_def P_def[abs_def])
    show ?thesis
    proof (cases "v_max w = 0")
      case z: True
      with True have "validate_span_loop span i = validate_span_loop span (i + 16)"
        using w P by (intro validate_span_loop_skip) auto
      moreover have "validate_span_neon_loop span (i + 16) = validate_span_loop span (i + 16)"
        using "1.IH"[OF True refl refl refl refl refl] z True by (simp add: w_def chunk_def)
      ultimately show ?thesis
        using step z by simp
    next
      case False
      with w obtain k where "k < 16" "P k" by auto
      then obtain lane where l: "List.find P [0..<16] = Some lane"
        by (cases "List.find P [0..<16]") (auto simp: find_None_iff)
      from find_upt[OF l] have "validate_span_loop span i = validate_span_loop span (i + lane)" "lane < 16"
        using True P by (auto intro!: validate_span_loop_skip)
      with step False l True show ?thesis
        by (simp add: validate_span_scalar_drop)
    qed
  next
    case False
    with "1.prems" show ?thesis
      by (simp add: validate_span_neon_loop.simps[of span i] validate_span_scalar_drop)
  qed
qed

lemma validate_string_span_eq: "validate_string_span tgt = validate_span_scalar"
  by (simp add: fun_eq_iff validate_string_span_def validate_span_avx2_def validate_span_neon_def
      validate_span_avx2_loop_eq validate_span_neon_loop_eq validate_span_scalar_def)

section \<open>Properties\<close>

text \<open>C8: On every target the string validator accepts an interior exactly when it denotes a sequence of code points: no raw control characters, only the escapes of RFC 8259 with surrogates properly paired, and well-formed UTF-8 (RFC 3629).\<close>

theorem string_validation_iff_denotes:
  "validate_string_span tgt span = Ok () \<longleftrightarrow> (\<exists>cps. string_denotes span cps)"
  by (simp add: validate_string_span_eq validate_span_scalar_iff)

text \<open>C9: The AVX2 validator (32-byte chunks), the NEON validator (16-byte chunks) and the scalar validator return the same result, error code included, on every span; the NEON lane search never reaches its unreachable arm.\<close>

theorem simd_string_validators_agree:
  "validate_span_avx2 span = validate_span_scalar span \<and>
   validate_span_neon span = validate_span_scalar span \<and>
   validate_string_span tgt span = validate_span_scalar span"
  by (simp add: validate_span_avx2_def validate_span_neon_def validate_span_avx2_loop_eq
      validate_span_neon_loop_eq validate_string_span_eq flip: validate_span_scalar_def)

end
