(* ===== verification/Decode_String.thy ===== *)
theory Decode_String
  imports Strings_Simd
begin

text \<open>
  \<open>src/decode/string.rs\<close>: decoding a string token. The result refers to the input buffer when
  the interior has no backslash, and to the scratch buffer, which the decoder fills, otherwise.
\<close>

section \<open>Definitions\<close>

text \<open>The pointer and length of the result; \<open>ref_bytes\<close> is what a reader of them sees.\<close>

datatype str_ref = InBuf nat nat | InScratch nat

fun ref_bytes :: "bytes \<Rightarrow> bytes \<Rightarrow> str_ref \<Rightarrow> bytes" where
  "ref_bytes buf scratch (InBuf start len) = slice start (start + len) buf"
| "ref_bytes buf scratch (InScratch len) = take len scratch"

fun ref_len :: "str_ref \<Rightarrow> nat" where
  "ref_len (InBuf _ len) = len"
| "ref_len (InScratch len) = len"

definition decode_hex4 :: "bytes \<Rightarrow> (u32, qjson_err) outcome" where
  "decode_hex4 bytes = hex4_loop QJSON_DECODE_FAILED bytes 0"

definition encode_utf8 :: "u32 \<Rightarrow> bytes" where
  "encode_utf8 cp =
     (if cp < 0x80 then [ucast cp]
      else if cp < 0x800 then
        [0xC0 OR ucast (drop_bit 6 cp), 0x80 OR ucast (cp AND 0x3F)]
      else if cp < 0x10000 then
        [0xE0 OR ucast (drop_bit 12 cp), 0x80 OR ucast (drop_bit 6 cp AND 0x3F),
         0x80 OR ucast (cp AND 0x3F)]
      else
        [0xF0 OR ucast (drop_bit 18 cp), 0x80 OR ucast (drop_bit 12 cp AND 0x3F),
         0x80 OR ucast (drop_bit 6 cp AND 0x3F), 0x80 OR ucast (cp AND 0x3F)])"

text \<open>
  The \<open>u\<close> escape at \<open>i\<close>: its code point and the position after it. The single-character escapes
  push the byte of \<open>simple_escape_byte\<close>.
\<close>

definition unicode_escape :: "bytes \<Rightarrow> nat \<Rightarrow> (u32 \<times> nat, qjson_err) outcome" where
  "unicode_escape sl i =
     (if i + 6 > length sl then Err QJSON_DECODE_FAILED
      else and_then (decode_hex4 (slice (i + 2) (i + 6) sl)) (\<lambda>h.
        let i = i + 6 in
        if 0xD800 \<le> h \<and> h \<le> 0xDBFF then
          (if i + 6 > length sl \<or> slice i (i + 2) sl \<noteq> [92, 117] then Err QJSON_DECODE_FAILED
           else and_then (decode_hex4 (slice (i + 2) (i + 6) sl)) (\<lambda>l.
             if \<not> (0xDC00 \<le> l \<and> l \<le> 0xDFFF) then Err QJSON_DECODE_FAILED
             else Ok (0x10000 + push_bit 10 (h - 0xD800) + (l - 0xDC00), i + 6)))
        else if 0xDC00 \<le> h \<and> h \<le> 0xDFFF then Err QJSON_DECODE_FAILED
        else Ok (h, i)))"

definition simple_escape_byte :: "u8 \<Rightarrow> u8 option" where
  "simple_escape_byte c =
     (if c = 34 then Some 34 else if c = 92 then Some 92 else if c = 47 then Some 47
      else if c = 98 then Some 0x08 else if c = 102 then Some 0x0C else if c = 110 then Some 10
      else if c = 114 then Some 13 else if c = 116 then Some 9 else None)"

lemma unicode_escape_progress: "unicode_escape sl i = Ok (cp, j) \<Longrightarrow> i < j \<and> j \<le> length sl"
  by (auto simp: unicode_escape_def Let_def split: if_splits)

text \<open>The loop returns the scratch buffer with the outcome: an error leaves a partial decoding.\<close>

function decode_loop :: "bytes \<Rightarrow> nat \<Rightarrow> bytes \<Rightarrow> bytes \<times> (unit, qjson_err) outcome" where
  "decode_loop sl i scratch =
     (if i < length sl then
        (let b = sl ! i in
         if b \<noteq> 92 then decode_loop sl (i + 1) (scratch @ [b])
         else if i + 1 \<ge> length sl then (scratch, Err QJSON_DECODE_FAILED)
         else case simple_escape_byte (sl ! (i + 1)) of
             Some e \<Rightarrow> decode_loop sl (i + 2) (scratch @ [e])
           | None \<Rightarrow>
               if sl ! (i + 1) = 117 then
                 (case unicode_escape sl i of
                    Ok (cp, j) \<Rightarrow> decode_loop sl j (scratch @ encode_utf8 cp)
                  | Err e \<Rightarrow> (scratch, Err e)
                  | Panic \<Rightarrow> (scratch, Panic))
               else (scratch, Err QJSON_DECODE_FAILED))
      else (scratch, Ok ()))"
  by pat_completeness auto
termination
  by (relation "measure (\<lambda>(sl, i, scratch). length sl - i)") (auto dest: unicode_escape_progress)

declare decode_loop.simps [simp del]

definition decode_string ::
  "target \<Rightarrow> bytes \<Rightarrow> nat \<Rightarrow> nat \<Rightarrow> bytes \<Rightarrow> bool \<Rightarrow> bytes \<times> (str_ref, qjson_err) outcome" where
  "decode_string tgt buf start end_pos scratch skip_validation =
     (case slice_at buf start end_pos of
        Ok sl \<Rightarrow>
          (case (if skip_validation then Ok () else validate_string_span tgt sl) of
             Ok _ \<Rightarrow>
               if 92 \<notin> set sl then (scratch, Ok (InBuf start (length sl)))
               else
                 (let (scratch, r) = decode_loop sl 0 [] in
                  (scratch, and_then r (\<lambda>_. Ok (InScratch (length scratch)))))
           | Err e \<Rightarrow> (scratch, Err e)
           | Panic \<Rightarrow> (scratch, Panic))
      | Err e \<Rightarrow> (scratch, Err e)
      | Panic \<Rightarrow> (scratch, Panic))"

section \<open>The encoder\<close>

lemma or_eq_plus:
  fixes c x :: "'a::len word"
  assumes "unat x < 2 ^ k" "c AND mask k = 0"
  shows "c OR x = c + x"
proof -
  have "take_bit k (unat x) = unat x"
    using assms(1) by (simp add: take_bit_nat_eq_self)
  then have "take_bit k x = x"
    by (metis unsigned_take_bit_eq unsigned_word_eqI)
  then have "x = mask k AND x"
    by (simp add: take_bit_eq_mask and.commute)
  then have "c AND x = (c AND mask k) AND x"
    by (metis and.assoc)
  then have "c AND x = 0" unfolding assms(2) by simp
  then show ?thesis by (simp add: disjunctive_add_eq_or)
qed

lemma unat_low_bits:
  fixes w :: u32
  shows "unat (ucast w :: u8) = unat w mod 256" "unat (w AND 0x3F) = unat w mod 64"
    "unat (drop_bit k w) = unat w div 2 ^ k"
proof -
  show "unat (ucast w :: u8) = unat w mod 256"
    by (simp add: unsigned_ucast_eq take_bit_eq_mod)
  have "w AND 0x3F = take_bit 6 w"
    by (simp only: take_bit_eq_mask mask_eq_exp_minus_1) simp
  moreover have "unat (take_bit 6 w) = unat w mod 64"
    by (subst unsigned_take_bit_eq) (simp_all add: take_bit_eq_mod)
  ultimately show "unat (w AND 0x3F) = unat w mod 64"
    by simp
  show "unat (drop_bit k w) = unat w div 2 ^ k"
    by (simp only: unsigned_drop_bit_eq) (use unsigned_less[of w, where ?'a = nat] in \<open>simp add: drop_bit_eq_div take_bit_eq_mod\<close>)
qed

lemma byte_or:
  fixes x :: u8
  assumes "unat x = n" "n < 2 ^ k" "of_nat c AND mask k = (0 :: u8)"
  shows "of_nat c OR x = of_nat (c + n)"
proof -
  have "of_nat c OR x = of_nat c + x"
    using assms by (intro or_eq_plus) simp_all
  moreover have "x = of_nat n" using assms(1) by auto
  ultimately show ?thesis by simp
qed

lemma cont_byte: "0x80 OR ucast (w AND 0x3F) = (of_nat (0x80 + unat w mod 64) :: u8)" for w :: u32
  using byte_or[of "ucast (w AND 0x3F)" "unat w mod 64" 6 "0x80"]
  by (simp add: unat_low_bits mask_eq_exp_minus_1)

lemma lead_byte:
  fixes w :: u32
  assumes "unat w div 2 ^ j < 2 ^ k" "k \<le> 7" "of_nat c AND mask k = (0 :: u8)"
  shows "of_nat c OR ucast (drop_bit j w) = (of_nat (c + unat w div 2 ^ j) :: u8)"
proof (rule byte_or)
  have "(2::nat) ^ k \<le> 2 ^ 7" using assms(2) by (intro power_increasing) simp_all
  with assms(1) show "unat (ucast (drop_bit j w) :: u8) = unat w div 2 ^ j"
    by (simp add: unat_low_bits)
qed (use assms in simp_all)

lemma encode_utf8_eq:
  assumes "unat w < 0x110000"
  shows "encode_utf8 w = utf8 (unat w)"
proof -
  consider "unat w < 0x80" | "0x80 \<le> unat w" "unat w < 0x800" | "0x800 \<le> unat w" "unat w < 0x10000"
    | "0x10000 \<le> unat w" by linarith
  then show ?thesis
  proof cases
    case 1
    then have "ucast w = (of_nat (unat w) :: u8)"
      by (simp add: unat_low_bits word_unat_eq_iff unat_of_nat8)
    with 1 show ?thesis by (simp add: encode_utf8_def utf8_def word_less_nat_alt)
  next
    case 2
    have "0xC0 OR ucast (drop_bit 6 w) = (of_nat (0xC0 + unat w div 64) :: u8)"
      using lead_byte[of w 6 5 "0xC0"] 2 by (simp add: less_mult_imp_div_less mask_eq_exp_minus_1)
    with 2 cont_byte[of w] show ?thesis
      by (simp add: encode_utf8_def utf8_def word_less_nat_alt del: of_nat_add)
  next
    case 3
    have "0xE0 OR ucast (drop_bit 12 w) = (of_nat (0xE0 + unat w div 4096) :: u8)"
      using lead_byte[of w 12 4 "0xE0"] 3 by (simp add: less_mult_imp_div_less mask_eq_exp_minus_1)
    with 3 cont_byte[of w] cont_byte[of "drop_bit 6 w"] show ?thesis
      by (simp add: encode_utf8_def utf8_def word_less_nat_alt unat_low_bits del: of_nat_add)
  next
    case 4
    have "0xF0 OR ucast (drop_bit 18 w) = (of_nat (0xF0 + unat w div 262144) :: u8)"
      using lead_byte[of w 18 3 "0xF0"] 4 assms by (simp add: less_mult_imp_div_less mask_eq_exp_minus_1)
    with 4 cont_byte[of w] cont_byte[of "drop_bit 6 w"] cont_byte[of "drop_bit 12 w"] show ?thesis
      by (simp add: encode_utf8_def utf8_def word_less_nat_alt unat_low_bits del: of_nat_add)
  qed
qed

lemma utf8_high:
  assumes "0x80 \<le> cp" "is_scalar_value cp" "b \<in> set (utf8 cp)"
  shows "0x80 \<le> b"
proof -
  have cont: "0x80 \<le> (of_nat (0x80 + n mod 64) :: u8)" for n
    using cont_less[of n] by (simp add: word_le_nat_alt unat_of_nat8 del: of_nat_add)
  have "b \<in> set (tl (utf8 cp)) \<Longrightarrow> 0x80 \<le> b"
    using cont by (auto simp: utf8_def simp del: of_nat_add split: if_splits)
  with utf8_hd[OF assms(1,2)] assms(3) show ?thesis
    by (cases "utf8 cp") auto
qed

section \<open>Decoding a valid interior\<close>

lemma decode_loop_plain:
  "drop i sl = p @ s \<Longrightarrow> 92 \<notin> set p \<Longrightarrow>
     decode_loop sl i scratch = decode_loop sl (i + length p) (scratch @ p)"
proof (induction p arbitrary: i scratch)
  case (Cons b p)
  from drop_eq_ConsD[of i sl b "p @ s"] Cons.prems have "i < length sl" "sl ! i = b" "drop (i + 1) sl = p @ s"
    by auto
  with Cons show ?case
    by (auto simp: decode_loop.simps[of sl i])
qed simp

lemma decode_hex4_eq:
  assumes "length h = 4" "hex_value 0 h = Some u"
  shows "decode_hex4 h = Ok (of_nat u)" "u < 65536" "unat (of_nat u :: u32) = u"
proof -
  show "u < 65536" using hex_value4_less[OF assms] .
  then show "unat (of_nat u :: u32) = u" by (simp add: unat_of_nat32)
  show "decode_hex4 h = Ok (of_nat u)"
    using hex4_loop_value[of "0 :: u32" h QJSON_DECODE_FAILED] assms by (simp add: decode_hex4_def)
qed

lemma hex_slice:
  assumes "drop i sl = a # b # h @ s" "length h = 4"
  shows "slice (i + 2) (i + 6) sl = h" "slice i (i + 2) sl = [a, b]" "i + 6 \<le> length sl"
    "drop (i + 6) sl = s"
  using slice_of_drop[of i sl "[a, b]" h s] slice_of_drop[of i sl "[]" "[a, b]" "h @ s"]
    length_drop_eq[OF assms(1)] drop_add[of i sl "a # b # h" s] assms
  by (simp_all add: add.commute)

lemma unicode_escape_single:
  assumes "drop i sl = 92 # 117 # h @ s" "length h = 4" "hex_value 0 h = Some u" "\<not> is_surrogate u"
  shows "unicode_escape sl i = Ok (of_nat u, i + 6)"
  using hex_slice[OF assms(1,2)] decode_hex4_eq[OF assms(2,3)] assms(4)
  by (auto simp: unicode_escape_def Let_def is_surrogate_def word_le_nat_alt)

lemma unicode_escape_pair:
  assumes "drop i sl = 92 # 117 # h @ 92 # 117 # l @ s" "length h = 4" "hex_value 0 h = Some hi"
    "0xD800 \<le> hi" "hi \<le> 0xDBFF" "length l = 4" "hex_value 0 l = Some lo" "0xDC00 \<le> lo" "lo \<le> 0xDFFF"
  shows "unicode_escape sl i = Ok (of_nat (surrogate_pair hi lo), i + 12)"
proof -
  note h = hex_slice[OF assms(1,2)] and dh = decode_hex4_eq[OF assms(2,3)]
  note l = hex_slice[OF h(4) assms(6)] and dl = decode_hex4_eq[OF assms(6,7)]
  have "0x10000 + push_bit 10 (of_nat hi - 0xD800) + (of_nat lo - 0xDC00) = (of_nat (surrogate_pair hi lo) :: u32)"
    using assms(4,8)
    by (simp add: surrogate_pair_def push_bit_eq_mult of_nat_diff mult.commute)
  moreover have "i + 6 + 2 = i + 8" "i + 6 + 6 = i + 12" by simp_all
  ultimately show ?thesis
    using h l dh dl assms
    by (simp add: unicode_escape_def Let_def word_le_nat_alt)
qed

lemma decode_loop_denotes:
  "string_denotes r cps \<Longrightarrow> drop i sl = r \<Longrightarrow>
     decode_loop sl i scratch = (scratch @ utf8_text cps, Ok ())"
proof (induction arbitrary: i scratch rule: string_denotes.induct)
  case den_nil
  then show ?case by (simp add: decode_loop.simps[of sl i])
next
  case (den_plain b s cps)
  have "utf8 (unat b) = [b]"
    using den_plain.hyps by (simp add: utf8_def word_less_nat_alt)
  moreover have "drop (i + 1) sl = s"
    using drop_eq_ConsD[OF den_plain.prems] by simp
  ultimately show ?case
    using decode_loop_plain[of i sl "[b]" s scratch] den_plain by simp
next
  case (den_escape c v s cps)
  from drop_eq_ConsD[OF den_escape.prems] have d: "i < length sl" "sl ! i = 92" "drop (i + 1) sl = c # s"
    by auto
  from drop_eq_ConsD[OF d(3)] have e: "i + 1 < length sl" "sl ! (i + 1) = c" "drop (i + 2) sl = s"
    by auto
  have "simple_escape_byte c = Some (of_nat v)" "utf8 v = [of_nat v]"
    using den_escape.hyps(1)
    by (auto simp: simple_escape_byte_def simple_escape_value_def utf8_def split: if_splits)
  with d e den_escape.IH[OF e(3)] show ?case
    by (simp add: decode_loop.simps[of sl i])
next
  case (den_unicode h u s cps)
  note h = hex_slice[OF den_unicode.prems den_unicode.hyps(1)]
    and u = unicode_escape_single[OF den_unicode.prems den_unicode.hyps(1-3)]
    and v = decode_hex4_eq[OF den_unicode.hyps(1,2)]
  have "sl ! i = 92" "sl ! (i + 1) = 117"
    using drop_eq_nth[of i sl "[92, 117]" "h @ s" 0] drop_eq_nth[of i sl "[92, 117]" "h @ s" 1]
      den_unicode.prems by simp_all
  moreover have "encode_utf8 (of_nat u) = utf8 u"
    using encode_utf8_eq[of "of_nat u"] v by simp
  ultimately show ?case
    using h u den_unicode.IH[OF h(4)]
    by (simp add: decode_loop.simps[of sl i] simple_escape_byte_def)
next
  case (den_pair h hi l lo s cps)
  note h = hex_slice[OF den_pair.prems den_pair.hyps(1)]
  note l = hex_slice[OF h(4) den_pair.hyps(5)]
  note u = unicode_escape_pair[OF den_pair.prems den_pair.hyps(1-8)]
  have "sl ! i = 92" "sl ! (i + 1) = 117"
    using drop_eq_nth[of i sl "[92, 117]" "h @ 92 # 117 # l @ s" 0]
      drop_eq_nth[of i sl "[92, 117]" "h @ 92 # 117 # l @ s" 1] den_pair.prems by simp_all
  moreover have "surrogate_pair hi lo < 0x110000"
    using den_pair.hyps by (simp add: surrogate_pair_def)
  then have "encode_utf8 (of_nat (surrogate_pair hi lo)) = utf8 (surrogate_pair hi lo)"
    using encode_utf8_eq[of "of_nat (surrogate_pair hi lo)"] by (simp add: unat_of_nat32)
  moreover have "drop (i + 12) sl = s" using l(4) by (simp add: add.commute)
  ultimately show ?case
    using h u den_pair.IH[of "i + 12"]
    by (simp add: decode_loop.simps[of sl i] simple_escape_byte_def)
next
  case (den_utf8 cp s cps)
  have "92 \<notin> set (utf8 cp)"
    using utf8_high[of cp 92] den_utf8.hyps by auto
  then show ?case
    using decode_loop_plain[OF den_utf8.prems] den_utf8.IH[OF drop_add[OF den_utf8.prems]] by simp
qed

text \<open>Without a backslash the interior is its own denotation.\<close>

lemma string_denotes_plain: "string_denotes s cps \<Longrightarrow> 92 \<notin> set s \<Longrightarrow> utf8_text cps = s"
proof (induction rule: string_denotes.induct)
  case (den_plain b s cps)
  then show ?case by (simp add: utf8_def word_less_nat_alt)
qed auto

lemma decode_string_denotes:
  assumes "start \<le> end_pos" "end_pos \<le> length buf" "string_denotes (slice start end_pos buf) cps"
  shows "\<exists>scratch' r. decode_string tgt buf start end_pos scratch skip = (scratch', Ok r) \<and>
    ref_bytes buf scratch' r = utf8_text cps"
proof -
  define sl where "sl = slice start end_pos buf"
  have sl: "slice_at buf start end_pos = (Ok sl :: (bytes, qjson_err) outcome)"
    using assms by (simp add: slice_at_def sl_def)
  have v: "validate_string_span tgt sl = Ok ()"
    using assms(3) by (auto simp: validate_string_span_eq validate_span_scalar_iff sl_def)
  show ?thesis
  proof (cases "92 \<in> set sl")
    case True
    with v sl decode_loop_denotes[OF assms(3), of 0 sl "[]"] show ?thesis
      by (auto simp: decode_string_def sl_def)
  next
    case False
    moreover have "slice start (start + length sl) buf = sl"
      using assms(1,2) by (simp add: sl_def)
    ultimately show ?thesis
      using v sl string_denotes_plain[OF assms(3)] by (auto simp: decode_string_def sl_def)
  qed
qed

lemma decode_string_invalid:
  assumes "start \<le> end_pos" "end_pos \<le> length buf" "\<nexists>cps. string_denotes (slice start end_pos buf) cps"
  shows "\<exists>e \<in> {QJSON_INVALID_STRING, QJSON_INVALID_UTF8}.
    decode_string tgt buf start end_pos scratch False = (scratch, Err e)"
proof -
  have "validate_span_scalar (slice start end_pos buf) \<in> {Err QJSON_INVALID_STRING, Err QJSON_INVALID_UTF8}"
    using assms(3) validate_span_scalar_total[of "slice start end_pos buf"]
    by (auto simp: validate_span_scalar_iff)
  with assms(1,2) show ?thesis
    by (auto simp: decode_string_def slice_at_def validate_string_span_eq)
qed

section \<open>Properties\<close>

text \<open>C10: Decoding an interior that denotes code points succeeds and yields exactly their UTF-8 encoding, whether validation is skipped or not and whether the result refers to the input or to the scratch buffer.\<close>

theorem decode_string_correct:
  assumes "start \<le> end_pos" "end_pos \<le> length buf" "string_denotes (slice start end_pos buf) cps"
  shows "\<exists>scratch' r. decode_string tgt buf start end_pos scratch skip = (scratch', Ok r) \<and>
    ref_bytes buf scratch' r = utf8_text cps"
  using assms by (rule decode_string_denotes)

theorem decode_string_correct_witness:
  "\<exists>scratch' r. decode_string scalar_target (js ''`a~n`'') 1 4 [] False = (scratch', Ok r) \<and>
    ref_bytes (js ''`a~n`'') scratch' r = utf8_text [97, 10]"
proof (rule decode_string_correct)
  have "string_denotes [97, 92, 110] [97, 10]"
    using den_plain[of 97 "[92, 110]" "[10]"] den_escape[of 110 10 "[]" "[]"] den_nil
    by (simp add: simple_escape_value_def)
  then show "string_denotes (slice 1 4 (js ''`a~n`'')) [97, 10]"
    by (simp add: slice_def)
qed simp_all

text \<open>C11: With validation, decoding an interior that denotes nothing fails with QJSON_INVALID_STRING or QJSON_INVALID_UTF8, never with QJSON_DECODE_FAILED or a panic, and leaves the scratch buffer as it was.\<close>

theorem decode_string_rejects:
  assumes "start \<le> end_pos" "end_pos \<le> length buf" "\<nexists>cps. string_denotes (slice start end_pos buf) cps"
  shows "\<exists>e \<in> {QJSON_INVALID_STRING, QJSON_INVALID_UTF8}.
    decode_string tgt buf start end_pos scratch False = (scratch, Err e)"
  using assms by (rule decode_string_invalid)

theorem decode_string_rejects_witness:
  "\<exists>e \<in> {QJSON_INVALID_STRING, QJSON_INVALID_UTF8}.
    decode_string neon_target [34, 9, 34] 1 2 [7] False = ([7], Err e)"
proof (rule decode_string_rejects)
  have "validate_span_scalar [9] = Err QJSON_INVALID_STRING"
    by (simp add: validate_span_scalar_def validate_span_loop.simps[of "[9]" 0])
  then have "\<nexists>cps. string_denotes [9] cps"
    using validate_span_scalar_iff[of "[9]"] by simp
  then show "\<nexists>cps. string_denotes (slice 1 2 [34, 9, 34]) cps"
    by (simp add: slice_def)
qed simp_all

end
