(* ===== verification/Numbers.thy ===== *)
theory Numbers
  imports Errors
begin

text \<open>
  \<open>src/validate/number.rs\<close>: the RFC 8259 number validator; \<open>src/decode/number.rs\<close>: decoding a
  number token to \<open>i64\<close>, \<open>u64\<close> and \<open>f64\<close>. The \<open>f64\<close> values and the conversion of the standard
  library (\<open>str::parse::<f64>\<close>, correctly rounded) are modelled as far as the crate uses them.
\<close>

section \<open>The grammar\<close>

definition is_digit :: "u8 \<Rightarrow> bool" where
  "is_digit c \<longleftrightarrow> 48 \<le> c \<and> c \<le> 57"

definition is_digit19 :: "u8 \<Rightarrow> bool" where
  "is_digit19 c \<longleftrightarrow> 49 \<le> c \<and> c \<le> 57"

definition int_part :: "bytes \<Rightarrow> bool" where
  "int_part ds \<longleftrightarrow> ds = [48] \<or> (\<exists>d ds'. ds = d # ds' \<and> is_digit19 d \<and> list_all is_digit ds')"

definition frac_part :: "bytes \<Rightarrow> bool" where
  "frac_part fs \<longleftrightarrow> fs = [] \<or> (\<exists>ds. fs = 46 # ds \<and> ds \<noteq> [] \<and> list_all is_digit ds)"

definition exp_part :: "bytes \<Rightarrow> bool" where
  "exp_part es \<longleftrightarrow> es = [] \<or>
     (\<exists>e s ds. es = e # s @ ds \<and> e \<in> {101, 69} \<and> s \<in> {[], [43], [45]} \<and> ds \<noteq> [] \<and> list_all is_digit ds)"

text \<open>RFC 8259, section 6: \<open>number = [ minus ] int [ frac ] [ exp ]\<close>.\<close>

definition json_number :: "bytes \<Rightarrow> bool" where
  "json_number bytes \<longleftrightarrow> (\<exists>m ds fs es. bytes = m @ ds @ fs @ es \<and> m \<in> {[], [45]} \<and>
     int_part ds \<and> frac_part fs \<and> exp_part es)"

section \<open>The validator\<close>

function skip_digits :: "bytes \<Rightarrow> nat \<Rightarrow> nat" where
  "skip_digits bytes i =
     (case slice_get bytes i of
        Some c \<Rightarrow> if is_digit c then skip_digits bytes (i + 1) else i
      | None \<Rightarrow> i)"
  by pat_completeness auto
termination
  by (relation "measure (\<lambda>(bytes, i). length bytes - i)") (auto simp: slice_get_def split: if_splits)

declare skip_digits.simps [simp del]

definition validate_number :: "bytes \<Rightarrow> (unit, qjson_err) outcome" where
  "validate_number bytes =
     (let i = (if slice_get bytes 0 = Some 45 then 1 else 0) in
      and_then
        (case slice_get bytes i of
           Some c \<Rightarrow>
             if c = 48 then Ok (i + 1)
             else if is_digit19 c then Ok (skip_digits bytes (i + 1))
             else Err QJSON_INVALID_NUMBER
         | None \<Rightarrow> Err QJSON_INVALID_NUMBER) (\<lambda>i.
      and_then
        (if slice_get bytes i = Some 46 then
           (let frac_start = i + 1; j = skip_digits bytes frac_start in
            if j = frac_start then Err QJSON_INVALID_NUMBER else Ok j)
         else Ok i) (\<lambda>i.
      and_then
        (if slice_get bytes i = Some 101 \<or> slice_get bytes i = Some 69 then
           (let exp_start =
                (if slice_get bytes (i + 1) = Some 43 \<or> slice_get bytes (i + 1) = Some 45
                 then i + 2 else i + 1);
              j = skip_digits bytes exp_start in
            if j = exp_start then Err QJSON_INVALID_NUMBER else Ok j)
         else Ok i) (\<lambda>i.
      if i \<noteq> length bytes then Err QJSON_INVALID_NUMBER else Ok ()))))"

section \<open>Integers\<close>

text \<open>\<open>i64\<close> arithmetic on mathematical integers, with the range check of \<open>checked_*\<close>.\<close>

definition checked_i64 :: "int \<Rightarrow> int option" where
  "checked_i64 x = (if - (2 ^ 63) \<le> x \<and> x < 2 ^ 63 then Some x else None)"

definition checked_u64 :: "nat \<Rightarrow> nat option" where
  "checked_u64 x = (if x < 2 ^ 64 then Some x else None)"

definition has_frac_or_exp :: "bytes \<Rightarrow> bool" where
  "has_frac_or_exp bytes \<longleftrightarrow> list_ex (\<lambda>c. c = 46 \<or> c = 101 \<or> c = 69) bytes"

fun i64_digits :: "bool \<Rightarrow> int \<Rightarrow> bytes \<Rightarrow> (int, qjson_err) outcome" where
  "i64_digits neg v [] = Ok v"
| "i64_digits neg v (c # rest) =
     (let d = uint (c - 48) in
      case Option.bind (checked_i64 (v * 10)) (\<lambda>x. checked_i64 (if neg then x - d else x + d)) of
        Some n \<Rightarrow> i64_digits neg n rest
      | None \<Rightarrow> Err QJSON_OUT_OF_RANGE)"

definition starts_number :: "u8 \<Rightarrow> bool" where
  "starts_number c \<longleftrightarrow> c = 45 \<or> is_digit c"

definition parse_i64 :: "bytes \<Rightarrow> bool \<Rightarrow> (int, qjson_err) outcome" where
  "parse_i64 bytes skip_validation =
     and_then (if skip_validation then Ok () else validate_number bytes) (\<lambda>_.
       if bytes = [] then Err QJSON_INVALID_NUMBER
       else if skip_validation \<and> \<not> starts_number (bytes ! 0) then Err QJSON_INVALID_NUMBER
       else if has_frac_or_exp bytes then Err QJSON_TYPE_MISMATCH
       else
         (let (neg, rest) = (if bytes ! 0 = 45 then (True, drop 1 bytes) else (False, bytes)) in
          i64_digits neg 0 rest))"

fun u64_digits :: "nat \<Rightarrow> bytes \<Rightarrow> (nat, qjson_err) outcome" where
  "u64_digits v [] = Ok v"
| "u64_digits v (c # rest) =
     (let d = unat (c - 48) in
      case Option.bind (checked_u64 (v * 10)) (\<lambda>x. checked_u64 (x + d)) of
        Some n \<Rightarrow> u64_digits n rest
      | None \<Rightarrow> Err QJSON_OUT_OF_RANGE)"

definition parse_u64 :: "bytes \<Rightarrow> bool \<Rightarrow> (nat, qjson_err) outcome" where
  "parse_u64 bytes skip_validation =
     and_then (if skip_validation then Ok () else validate_number bytes) (\<lambda>_.
       if bytes = [] then Err QJSON_INVALID_NUMBER
       else if skip_validation \<and> \<not> starts_number (bytes ! 0) then Err QJSON_INVALID_NUMBER
       else if has_frac_or_exp bytes then Err QJSON_TYPE_MISMATCH
       else if bytes ! 0 = 45 then Err QJSON_OUT_OF_RANGE
       else u64_digits 0 bytes)"

section \<open>Floating point\<close>

text \<open>An \<open>f64\<close>: \<open>F64_finite neg m e\<close> is \<open>\<plusminus> m * 2 ^ e\<close> with \<open>m \<le> 2 ^ 53\<close> and \<open>- 1074 \<le> e\<close>.\<close>

datatype f64 = F64_finite bool nat int | F64_inf bool | F64_nan

fun f64_is_finite :: "f64 \<Rightarrow> bool" where
  "f64_is_finite (F64_finite _ _ _) = True"
| "f64_is_finite _ = False"

fun digits_value :: "nat \<Rightarrow> bytes \<Rightarrow> nat" where
  "digits_value v [] = v"
| "digits_value v (c # ds) = digits_value (10 * v + (unat c - 48)) ds"

fun bitlen :: "nat \<Rightarrow> nat" where
  "bitlen n = (if n = 0 then 0 else Suc (bitlen (n div 2)))"

declare bitlen.simps [simp del]

text \<open>The quotient rounded to the nearest natural number, ties to even.\<close>

definition round_half_even :: "nat \<Rightarrow> nat \<Rightarrow> nat" where
  "round_half_even num den =
     (let q = num div den; r = num mod den in
      if 2 * r < den \<or> (2 * r = den \<and> even q) then q else q + 1)"

text \<open>The \<open>f64\<close> nearest to \<open>num / den\<close>; the exponent leaves 53 significant bits, if it can.\<close>

definition f64_exponent :: "nat \<Rightarrow> nat \<Rightarrow> int" where
  "f64_exponent num den =
     (let k = int (bitlen num) - int (bitlen den);
          k = (if den * 2 ^ nat k \<le> num * 2 ^ nat (- k) then k else k - 1) in
      max (- 1074) (k - 52))"

definition f64_nearest :: "bool \<Rightarrow> nat \<Rightarrow> nat \<Rightarrow> f64" where
  "f64_nearest neg num den =
     (let e = f64_exponent num den;
          m = round_half_even (num * 2 ^ nat (- e)) (den * 2 ^ nat e) in
      if 2 ^ 53 \<le> m * 2 ^ nat (e - 971) \<and> 971 \<le> e then F64_inf neg else F64_finite neg m e)"

definition decimal_f64 :: "bool \<Rightarrow> nat \<Rightarrow> int \<Rightarrow> f64" where
  "decimal_f64 neg n e10 = f64_nearest neg (n * 10 ^ nat e10) (10 ^ nat (- e10))"

text \<open>
  \<open>str::parse::<f64>\<close>: an optional sign, digits with an optional point (at least one digit), an
  optional exponent; or \<open>inf\<close>, \<open>infinity\<close>, \<open>nan\<close> in any case. The value is correctly rounded.
\<close>

definition std_exponent :: "bytes \<Rightarrow> int option" where
  "std_exponent t =
     (let (neg, ds) = (case t of c # t' \<Rightarrow> if c = 45 then (True, t') else if c = 43 then (False, t')
                          else (False, t) | [] \<Rightarrow> (False, [])) in
      if ds = [] \<or> \<not> list_all is_digit ds then None
      else Some (if neg then - int (digits_value 0 ds) else int (digits_value 0 ds)))"

definition std_decimal :: "bytes \<Rightarrow> (nat \<times> int) option" where
  "std_decimal r =
     (let a = takeWhile is_digit r; r1 = dropWhile is_digit r;
          (f, r2) = (case r1 of
              c # t \<Rightarrow> if c = 46 then (takeWhile is_digit t, dropWhile is_digit t) else ([], r1)
            | [] \<Rightarrow> ([], r1)) in
      if a @ f = [] then None
      else case r2 of
          [] \<Rightarrow> Some (digits_value 0 (a @ f), - int (length f))
        | c # t \<Rightarrow>
            if c = 101 \<or> c = 69
            then map_option (\<lambda>e. (digits_value 0 (a @ f), e - int (length f))) (std_exponent t)
            else None)"

definition ascii_lower :: "u8 \<Rightarrow> u8" where
  "ascii_lower c = (if 65 \<le> c \<and> c \<le> 90 then c + 32 else c)"

definition std_parse_f64 :: "bytes \<Rightarrow> f64 option" where
  "std_parse_f64 s =
     (let (neg, r) = (case s of c # s' \<Rightarrow> if c = 45 then (True, s') else if c = 43 then (False, s')
                          else (False, s) | [] \<Rightarrow> (False, [])) in
      case std_decimal r of
        Some (n, e10) \<Rightarrow> Some (decimal_f64 neg n e10)
      | None \<Rightarrow>
          (let w = map ascii_lower r in
           if w = bs ''inf'' \<or> w = bs ''infinity'' then Some (F64_inf neg)
           else if w = bs ''nan'' then Some F64_nan else None))"

text \<open>\<open>str::from_utf8(..).is_ok()\<close>, the table of RFC 3629.\<close>

fun std_utf8 :: "bytes \<Rightarrow> bool" where
  "std_utf8 [] = True"
| "std_utf8 (a # r) =
     (if a < 0x80 then std_utf8 r
      else if 0xC2 \<le> a \<and> a \<le> 0xDF then
        (case r of b # r' \<Rightarrow> 0x80 \<le> b \<and> b \<le> 0xBF \<and> std_utf8 r' | _ \<Rightarrow> False)
      else if 0xE0 \<le> a \<and> a \<le> 0xEF then
        (case r of
           b # c # r' \<Rightarrow> (if a = 0xE0 then 0xA0 else 0x80) \<le> b \<and> b \<le> (if a = 0xED then 0x9F else 0xBF) \<and>
             0x80 \<le> c \<and> c \<le> 0xBF \<and> std_utf8 r'
         | _ \<Rightarrow> False)
      else if 0xF0 \<le> a \<and> a \<le> 0xF4 then
        (case r of
           b # c # d # r' \<Rightarrow> (if a = 0xF0 then 0x90 else 0x80) \<le> b \<and> b \<le> (if a = 0xF4 then 0x8F else 0xBF) \<and>
             0x80 \<le> c \<and> c \<le> 0xBF \<and> 0x80 \<le> d \<and> d \<le> 0xBF \<and> std_utf8 r'
         | _ \<Rightarrow> False)
      else False)"

definition parse_f64 :: "bytes \<Rightarrow> bool \<Rightarrow> (f64, qjson_err) outcome" where
  "parse_f64 bytes skip_validation =
     and_then (if skip_validation then Ok () else validate_number bytes) (\<lambda>_.
       if skip_validation \<and> (bytes = [] \<or> \<not> (bytes ! 0 = 45 \<or> bytes ! 0 = 46 \<or> is_digit (bytes ! 0)))
       then Err QJSON_INVALID_NUMBER
       else if \<not> std_utf8 bytes then Err QJSON_DECODE_FAILED
       else case std_parse_f64 bytes of
           Some v \<Rightarrow> if f64_is_finite v then Ok v else Err QJSON_NUMBER_OUT_OF_RANGE
         | None \<Rightarrow> Err QJSON_DECODE_FAILED)"

section \<open>Digits consumed\<close>

lemma slice_get_drop: "slice_get xs i = (case drop i xs of [] \<Rightarrow> None | c # _ \<Rightarrow> Some c)"
proof (cases "i < length xs")
  case True
  then have "drop i xs = xs ! i # drop (Suc i) xs" by (simp add: Cons_nth_drop_Suc)
  with True show ?thesis by (simp add: slice_get_def)
qed (simp add: slice_get_def)

lemma skip_digits_drop: "skip_digits bytes i = i + length (takeWhile is_digit (drop i bytes))"
proof (induction bytes i rule: skip_digits.induct)
  case (1 bytes i)
  show ?case
  proof (cases "drop i bytes")
    case Nil
    then show ?thesis by (simp add: skip_digits.simps[of bytes i] slice_get_drop)
  next
    case (Cons c r)
    then have "slice_get bytes i = Some c" "drop (i + 1) bytes = r"
      using drop_eq_ConsD[OF Cons] by (auto simp: slice_get_drop)
    with Cons "1.IH" show ?thesis
      by (simp add: skip_digits.simps[of bytes i])
  qed
qed

lemma skip_digits_exact:
  assumes "drop i bytes = ds @ r" "list_all is_digit ds" "r = [] \<or> \<not> is_digit (hd r)"
  shows "skip_digits bytes i = i + length ds"
proof -
  have "takeWhile is_digit (ds @ r) = ds"
    using assms(2,3) by (cases r) (auto simp: list_all_iff takeWhile_append)
  with assms(1) show ?thesis by (simp add: skip_digits_drop)
qed

lemma skip_digits_split:
  obtains ds where "drop i bytes = ds @ drop (skip_digits bytes i) bytes" "list_all is_digit ds"
    "skip_digits bytes i = i + length ds"
proof
  show "drop i bytes = takeWhile is_digit (drop i bytes) @ drop (skip_digits bytes i) bytes"
    by (metis add.commute drop_drop skip_digits_drop takeWhile_dropWhile_id dropWhile_eq_drop)
  show "list_all is_digit (takeWhile is_digit (drop i bytes))"
    by (auto simp: list_all_iff dest: set_takeWhileD)
qed (simp add: skip_digits_drop)


section \<open>The validator accepts exactly the grammar\<close>

lemma slice_get_append:
  "drop i bytes = xs @ r \<Longrightarrow> xs \<noteq> [] \<Longrightarrow> slice_get bytes i = Some (hd xs)"
  by (cases xs) (auto simp: slice_get_drop)

lemma slice_get_Some_drop: "slice_get bytes i = Some c \<Longrightarrow> drop i bytes = c # drop (i + 1) bytes"
  by (auto simp: slice_get_def Cons_nth_drop_Suc split: if_splits)

lemma skip_digits_neq:
  assumes "skip_digits bytes i \<noteq> i"
  obtains ds where "drop i bytes = ds @ drop (skip_digits bytes i) bytes" "list_all is_digit ds" "ds \<noteq> []"
  using skip_digits_split[of i bytes thesis] assms by (metis add.right_neutral list.size(3))

lemma validate_number_sound:
  assumes "validate_number bytes = Ok ()"
  shows "json_number bytes"
proof -
  define i0 where "i0 = (if slice_get bytes 0 = Some 45 then 1 else 0 :: nat)"
  from assms obtain i1 i2 i3 where
    s1: "(case slice_get bytes i0 of
           Some c \<Rightarrow>
             if c = 48 then Ok (i0 + 1)
             else if is_digit19 c then Ok (skip_digits bytes (i0 + 1))
             else Err QJSON_INVALID_NUMBER
         | None \<Rightarrow> Err QJSON_INVALID_NUMBER) = Ok i1"
    and s2: "(if slice_get bytes i1 = Some 46 then
           (let frac_start = i1 + 1; j = skip_digits bytes frac_start in
            if j = frac_start then Err QJSON_INVALID_NUMBER else Ok j)
         else Ok i1) = Ok i2"
    and s3: "(if slice_get bytes i2 = Some 101 \<or> slice_get bytes i2 = Some 69 then
           (let exp_start =
                (if slice_get bytes (i2 + 1) = Some 43 \<or> slice_get bytes (i2 + 1) = Some 45
                 then i2 + 2 else i2 + 1);
              j = skip_digits bytes exp_start in
            if j = exp_start then Err QJSON_INVALID_NUMBER else Ok j)
         else Ok i2) = Ok i3"
    and "(if i3 \<noteq> length bytes then Err QJSON_INVALID_NUMBER else Ok ()) = Ok ()"
    unfolding validate_number_def Let_def i0_def[symmetric] and_then_eq_Ok by blast
  then have s4: "i3 = length bytes" by (simp split: if_splits)
  have m: "\<exists>m. bytes = m @ drop i0 bytes \<and> m \<in> {[], [45]}"
    using slice_get_Some_drop[of bytes 0 45]
    by (cases bytes) (auto simp: i0_def)
  have ds: "\<exists>ds. drop i0 bytes = ds @ drop i1 bytes \<and> int_part ds"
  proof -
    from s1 obtain c where c: "slice_get bytes i0 = Some c" by (auto split: option.splits)
    note d = slice_get_Some_drop[OF c]
    show ?thesis
    proof (cases "c = 48")
      case True
      with s1 c d show ?thesis by (intro exI[of _ "[48]"]) (auto simp: int_part_def)
    next
      case False
      with s1 c have "is_digit19 c" "i1 = skip_digits bytes (i0 + 1)"
        by (auto split: if_splits)
      with d show ?thesis
        using skip_digits_split[of "i0 + 1" bytes] by (metis append_Cons int_part_def)
    qed
  qed
  have fs: "\<exists>fs. drop i1 bytes = fs @ drop i2 bytes \<and> frac_part fs"
  proof (cases "slice_get bytes i1 = Some 46")
    case True
    note d = slice_get_Some_drop[OF True]
    from True s2 have "skip_digits bytes (i1 + 1) \<noteq> i1 + 1" "i2 = skip_digits bytes (i1 + 1)"
      by (auto simp: Let_def split: if_splits)
    with d show ?thesis
      using skip_digits_neq[of bytes "i1 + 1"] by (metis append_Cons frac_part_def)
  qed (use s2 in \<open>auto simp: frac_part_def\<close>)
  have es: "\<exists>es. drop i2 bytes = es @ drop i3 bytes \<and> exp_part es"
  proof (cases "slice_get bytes i2 = Some 101 \<or> slice_get bytes i2 = Some 69")
    case True
    then obtain e where e: "slice_get bytes i2 = Some e" "e \<in> {101, 69}" by auto
    note d = slice_get_Some_drop[OF e(1)]
    define st where "st = (if slice_get bytes (i2 + 1) = Some 43 \<or> slice_get bytes (i2 + 1) = Some 45
      then i2 + 2 else i2 + 1)"
    have "skip_digits bytes st \<noteq> st" and i3: "i3 = skip_digits bytes st"
      using True s3[unfolded Let_def, folded st_def] by (auto simp del: One_nat_def split: if_splits)
    then obtain ds where ds: "drop st bytes = ds @ drop i3 bytes" "list_all is_digit ds" "ds \<noteq> []"
      using skip_digits_neq by metis
    have "\<exists>s. drop (i2 + 1) bytes = s @ drop st bytes \<and> s \<in> {[], [43], [45]}"
      using slice_get_Some_drop[of bytes "i2 + 1"] by (auto simp: st_def)
    then obtain s where s: "drop (i2 + 1) bytes = s @ drop st bytes" "s \<in> {[], [43], [45]}" by blast
    have "drop i2 bytes = (e # s @ ds) @ drop i3 bytes"
      using d s(1) ds(1) by simp
    with e(2) s(2) ds(2,3) show ?thesis
      unfolding exp_part_def by blast
  qed (use s3 in \<open>auto simp: exp_part_def\<close>)
  from m ds fs es s4 show ?thesis
    unfolding json_number_def by (metis append_Nil2 drop_all order_refl)
qed

lemma int_part_hd: "int_part ds \<Longrightarrow> ds \<noteq> [] \<and> is_digit (hd ds)"
  by (auto simp: int_part_def is_digit_def is_digit19_def intro: order_trans[rotated])

lemma tail_not_digit:
  assumes "frac_part fs" "exp_part es"
  shows "fs @ es = [] \<or> \<not> is_digit (hd (fs @ es))" "fs = [] \<Longrightarrow> slice_get (fs @ es) 0 \<noteq> Some 46"
    "es = [] \<or> \<not> is_digit (hd es)"
  using assms by (auto simp: frac_part_def exp_part_def is_digit_def slice_get_def)

lemma validate_number_complete:
  assumes "json_number bytes"
  shows "validate_number bytes = Ok ()"
proof -
  from assms obtain m ds fs es where b: "bytes = m @ ds @ fs @ es" and m: "m \<in> {[], [45]}"
    and ds: "int_part ds" and fs: "frac_part fs" and es: "exp_part es"
    unfolding json_number_def by blast
  note nd = tail_not_digit[OF fs es]
  define i1 i2 where "i1 = length m + length ds" and "i2 = length m + length ds + length fs"
  have d0: "drop (length m) bytes = ds @ fs @ es" and d1: "drop i1 bytes = fs @ es"
    and d2: "drop i2 bytes = es"
    by (simp_all add: b i1_def i2_def)
  have i0: "(if slice_get bytes 0 = Some 45 then 1 else 0) = length m"
    using m int_part_hd[OF ds] by (cases ds) (auto simp: b slice_get_def is_digit_def)
  have s1: "(case slice_get bytes (length m) of
           Some c \<Rightarrow>
             if c = 48 then Ok (length m + 1)
             else if is_digit19 c then Ok (skip_digits bytes (length m + 1))
             else Err QJSON_INVALID_NUMBER
         | None \<Rightarrow> Err QJSON_INVALID_NUMBER) = Ok i1"
  proof -
    have g: "slice_get bytes (length m) = Some (hd ds)"
      using d0 int_part_hd[OF ds] by (auto intro: slice_get_append)
    from ds consider "ds = [48]" | d ds' where "ds = d # ds'" "is_digit19 d" "list_all is_digit ds'"
      by (auto simp: int_part_def)
    then show ?thesis
    proof cases
      case 1
      then show ?thesis using g by (simp add: i1_def)
    next
      case 2
      then have "skip_digits bytes (length m + 1) = length m + 1 + length ds'"
        using nd d0 drop_add[of "length m" bytes "[d]" "ds' @ fs @ es"]
        by (intro skip_digits_exact[where r = "fs @ es"]) auto
      with 2 g show ?thesis by (auto simp: i1_def is_digit19_def)
    qed
  qed
  have s2: "(if slice_get bytes i1 = Some 46 then
           (let frac_start = i1 + 1; j = skip_digits bytes frac_start in
            if j = frac_start then Err QJSON_INVALID_NUMBER else Ok j)
         else Ok i1) = Ok i2"
  proof (cases "fs = []")
    case True
    then have "slice_get bytes i1 \<noteq> Some 46"
      using nd(2) d1 by (simp add: slice_get_drop)
    with True show ?thesis by (simp add: i1_def i2_def)
  next
    case False
    with fs obtain ds' where f: "fs = 46 # ds'" "ds' \<noteq> []" "list_all is_digit ds'"
      by (auto simp: frac_part_def)
    then have "skip_digits bytes (i1 + 1) = i1 + 1 + length ds'"
      using nd d1 drop_add[of i1 bytes "[46]" "ds' @ es"] by (intro skip_digits_exact[where r = es]) auto
    moreover have "slice_get bytes i1 = Some 46"
      using d1 f by (simp add: slice_get_drop)
    ultimately show ?thesis using f by (simp add: i1_def i2_def)
  qed
  have s3: "(if slice_get bytes i2 = Some 101 \<or> slice_get bytes i2 = Some 69 then
           (let exp_start =
                (if slice_get bytes (i2 + 1) = Some 43 \<or> slice_get bytes (i2 + 1) = Some 45
                 then i2 + 2 else i2 + 1);
              j = skip_digits bytes exp_start in
            if j = exp_start then Err QJSON_INVALID_NUMBER else Ok j)
         else Ok i2) = Ok (length bytes)"
  proof (cases "es = []")
    case True
    with d2 show ?thesis by (simp add: slice_get_drop b i2_def)
  next
    case False
    with es obtain e s ds' where e: "es = e # s @ ds'" "e \<in> {101, 69}" "s \<in> {[], [43], [45]}"
      "ds' \<noteq> []" "list_all is_digit ds'"
      by (auto simp: exp_part_def)
    have g: "slice_get bytes i2 = Some e"
      using d2 e by (simp add: slice_get_drop)
    have d3: "drop (i2 + 1) bytes = s @ ds'"
      using drop_add[of i2 bytes "[e]" "s @ ds'"] d2 e by simp
    have "is_digit (hd ds')" using e by (cases ds') auto
    then have st: "(if slice_get bytes (i2 + 1) = Some 43 \<or> slice_get bytes (i2 + 1) = Some 45
       then i2 + 2 else i2 + 1) = i2 + 1 + length s"
      using d3 e by (cases ds') (auto simp: slice_get_drop is_digit_def)
    have "drop (i2 + 1 + length s) bytes = ds'"
      using drop_add[OF d3] by simp
    then have "skip_digits bytes (i2 + 1 + length s) = i2 + 1 + length s + length ds'"
      using e by (intro skip_digits_exact[where r = "[]"]) auto
    moreover have "length bytes = i2 + 1 + length s + length ds'"
      by (simp add: b e i2_def)
    ultimately show ?thesis
      using g e unfolding st by (auto simp: Let_def)
  qed
  show ?thesis
    unfolding validate_number_def i0 Let_def
    using s1 s2[unfolded Let_def] s3[unfolded Let_def] by simp
qed

lemma validate_number_total: "validate_number bytes \<in> {Ok (), Err QJSON_INVALID_NUMBER}"
proof (rule ccontr)
  assume "\<not> ?thesis"
  then have "(\<exists>e. validate_number bytes = Err e \<and> e \<noteq> QJSON_INVALID_NUMBER) \<or> validate_number bytes = Panic"
    by (cases "validate_number bytes") auto
  then show False
    unfolding validate_number_def Let_def and_then_eq_Err and_then_eq_Panic
    by (auto split: option.splits if_splits)
qed

lemma validate_number_iff: "validate_number bytes = Ok () \<longleftrightarrow> json_number bytes"
  using validate_number_sound validate_number_complete by blast

lemma validate_number_not: "\<not> json_number bytes \<Longrightarrow> validate_number bytes = Err QJSON_INVALID_NUMBER"
  using validate_number_total[of bytes] validate_number_iff[of bytes] by auto


section \<open>Integers are decoded exactly or reported out of range\<close>

definition int_value :: "bytes \<Rightarrow> int" where
  "int_value bytes =
     (if hd bytes = 45 then - int (digits_value 0 (tl bytes)) else int (digits_value 0 bytes))"

lemma digits_value_mono: "v \<le> digits_value v ds"
proof (induction ds arbitrary: v)
  case (Cons c ds)
  show ?case using Cons[of "10 * v + (unat c - 48)"]
    by (simp only: digits_value.simps)
qed simp

lemma digit_value:
  assumes "is_digit c"
  shows "unat (c - 48) = unat c - 48" "uint (c - 48) = int (unat c - 48)"
proof -
  show *: "unat (c - 48) = unat c - 48"
    using assms by (auto simp: is_digit_def unat_sub word_le_nat_alt)
  show "uint (c - 48) = int (unat c - 48)"
    unfolding uint_nat * ..
qed

lemma i64_digits_eq:
  assumes "list_all is_digit ds" "n \<le> (if neg then 2 ^ 63 else 2 ^ 63 - 1)"
  shows "i64_digits neg (if neg then - int n else int n) ds =
    (if digits_value n ds \<le> (if neg then 2 ^ 63 else 2 ^ 63 - 1)
     then Ok (if neg then - int (digits_value n ds) else int (digits_value n ds))
     else Err QJSON_OUT_OF_RANGE)"
  using assms
proof (induction ds arbitrary: n)
  case (Cons c ds)
  define x where "x = unat c - 48"
  define m where "m = 10 * n + x"
  have d: "uint (c - 48) = int x"
    unfolding x_def using Cons.prems by (intro digit_value) simp
  have bind: "Option.bind (checked_i64 ((if neg then - int n else int n) * 10))
      (\<lambda>y. checked_i64 (if neg then y - int x else y + int x)) =
    (if m \<le> (if neg then 2 ^ 63 else 2 ^ 63 - 1) then Some (if neg then - int m else int m) else None)"
    by (auto simp: checked_i64_def m_def)
  show ?case
  proof (cases "m \<le> (if neg then 2 ^ 63 else 2 ^ 63 - 1)")
    case True
    then show ?thesis
      using Cons.IH[of m] Cons.prems by (simp add: Let_def d bind m_def[symmetric] x_def[symmetric])
  next
    case False
    then have "\<not> digits_value m ds \<le> (if neg then 2 ^ 63 else 2 ^ 63 - 1)"
      using digits_value_mono[of m ds] by simp
    with False show ?thesis
      by (simp add: Let_def d bind m_def[symmetric] x_def[symmetric])
  qed
qed simp

lemma u64_digits_eq:
  assumes "list_all is_digit ds" "n < 2 ^ 64"
  shows "u64_digits n ds =
    (if digits_value n ds < 2 ^ 64 then Ok (digits_value n ds) else Err QJSON_OUT_OF_RANGE)"
  using assms
proof (induction ds arbitrary: n)
  case (Cons c ds)
  define m where "m = 10 * n + (unat c - 48)"
  have d: "unat (c - 48) = unat c - 48"
    using Cons.prems by (intro digit_value) simp
  have bind: "Option.bind (checked_u64 (n * 10)) (\<lambda>x. checked_u64 (x + (unat c - 48))) =
    (if m < 2 ^ 64 then Some m else None)"
    by (auto simp: checked_u64_def m_def)
  show ?case
  proof (cases "m < 2 ^ 64")
    case True
    then show ?thesis
      using Cons.IH[of m] Cons.prems by (simp add: Let_def d bind m_def[symmetric])
  next
    case False
    then have "\<not> digits_value m ds < 2 ^ 64"
      using digits_value_mono[of m ds] by simp
    with False show ?thesis
      by (simp add: Let_def d bind m_def[symmetric])
  qed
qed simp

lemma is_digit19_imp: "is_digit19 d \<Longrightarrow> is_digit d"
  by (auto simp: is_digit_def is_digit19_def intro: order_trans[rotated])

lemma json_number_integer:
  assumes "json_number bytes" "\<not> has_frac_or_exp bytes"
  obtains ds where "ds \<noteq> []" "list_all is_digit ds" "bytes = ds \<or> bytes = 45 # ds"
proof -
  from assms(1) obtain m ds fs es where b: "bytes = m @ ds @ fs @ es" "m \<in> {[], [45]}"
    "int_part ds" "frac_part fs" "exp_part es"
    unfolding json_number_def by blast
  with assms(2) have "fs = []" "es = []"
    by (auto simp: has_frac_or_exp_def frac_part_def exp_part_def)
  moreover have "list_all is_digit ds" "ds \<noteq> []"
    using b(3) by (auto simp: int_part_def is_digit_def[of 48] intro: is_digit19_imp)
  ultimately show ?thesis
    using b that by auto
qed

lemma json_number_starts: "json_number bytes \<Longrightarrow> bytes \<noteq> [] \<and> starts_number (bytes ! 0)"
  unfolding json_number_def starts_number_def
  using int_part_hd by (fastforce simp: hd_conv_nth nth_append)

lemma parse_i64_validated:
  assumes "json_number bytes"
  shows "parse_i64 bytes skip =
     (if has_frac_or_exp bytes then Err QJSON_TYPE_MISMATCH
      else if - (2 ^ 63) \<le> int_value bytes \<and> int_value bytes < 2 ^ 63 then Ok (int_value bytes)
      else Err QJSON_OUT_OF_RANGE)"
proof (cases "has_frac_or_exp bytes")
  case True
  with assms json_number_starts[OF assms] show ?thesis
    by (simp add: parse_i64_def validate_number_complete)
next
  case False
  from json_number_integer[OF assms False] obtain ds where
    ds: "ds \<noteq> []" "list_all is_digit ds" "bytes = ds \<or> bytes = 45 # ds" .
  then have "is_digit (hd ds)" by (cases ds) auto
  then have hd: "ds ! 0 \<noteq> 45" using ds(1) by (auto simp: hd_conv_nth is_digit_def)
  from ds(3) show ?thesis
  proof
    assume b: "bytes = ds"
    with hd ds(1) have "hd bytes \<noteq> 45" "bytes ! 0 \<noteq> 45" by (simp_all add: hd_conv_nth)
    with b show ?thesis
      using assms False json_number_starts[OF assms] i64_digits_eq[OF ds(2), of 0 False]
      by (auto simp: parse_i64_def validate_number_complete int_value_def)
  next
    assume b: "bytes = 45 # ds"
    then show ?thesis
      using assms False json_number_starts[OF assms] i64_digits_eq[OF ds(2), of 0 True]
      by (auto simp: parse_i64_def validate_number_complete int_value_def)
  qed
qed

lemma parse_i64_spec:
  "parse_i64 bytes False =
     (if \<not> json_number bytes then Err QJSON_INVALID_NUMBER
      else if has_frac_or_exp bytes then Err QJSON_TYPE_MISMATCH
      else if - (2 ^ 63) \<le> int_value bytes \<and> int_value bytes < 2 ^ 63 then Ok (int_value bytes)
      else Err QJSON_OUT_OF_RANGE)"
  using parse_i64_validated[of bytes False] validate_number_not[of bytes]
  by (auto simp: parse_i64_def)

lemma parse_u64_validated:
  assumes "json_number bytes"
  shows "parse_u64 bytes skip =
     (if has_frac_or_exp bytes then Err QJSON_TYPE_MISMATCH
      else if hd bytes = 45 \<or> 2 ^ 64 \<le> int_value bytes then Err QJSON_OUT_OF_RANGE
      else Ok (nat (int_value bytes)))"
proof (cases "has_frac_or_exp bytes \<or> hd bytes = 45")
  case True
  with assms json_number_starts[OF assms] show ?thesis
    by (auto simp: parse_u64_def validate_number_complete hd_conv_nth)
next
  case False
  with json_number_integer[OF assms] obtain ds where
    ds: "ds \<noteq> []" "list_all is_digit ds" "bytes = ds" by fastforce
  have "nat (int_value bytes) = digits_value 0 ds" "int_value bytes = int (digits_value 0 ds)"
    using False ds by (simp_all add: int_value_def)
  then show ?thesis
    using assms False json_number_starts[OF assms] u64_digits_eq[OF ds(2), of 0] ds
    by (auto simp: parse_u64_def validate_number_complete hd_conv_nth)
qed

lemma parse_u64_spec:
  "parse_u64 bytes False =
     (if \<not> json_number bytes then Err QJSON_INVALID_NUMBER
      else if has_frac_or_exp bytes then Err QJSON_TYPE_MISMATCH
      else if hd bytes = 45 \<or> 2 ^ 64 \<le> int_value bytes then Err QJSON_OUT_OF_RANGE
      else Ok (nat (int_value bytes)))"
  using parse_u64_validated[of bytes False] validate_number_not[of bytes]
  by (auto simp: parse_u64_def)


section \<open>Validated numbers always decode to the correctly rounded value\<close>

definition exp_value :: "bytes \<Rightarrow> int" where
  "exp_value es =
     (if es = [] then 0
      else if es ! 1 = 45 then - int (digits_value 0 (drop 2 es))
      else if es ! 1 = 43 then int (digits_value 0 (drop 2 es))
      else int (digits_value 0 (drop 1 es)))"

lemma std_utf8_ascii: "list_all (\<lambda>b. b < 0x80) s \<Longrightarrow> std_utf8 s"
  by (induction s) auto

lemma digit_ascii: "is_digit c \<Longrightarrow> c < 0x80"
  by (auto simp: is_digit_def intro: le_less_trans[of _ 57])

lemma digits_ascii: "list_all is_digit ds \<Longrightarrow> list_all (\<lambda>b. b < 0x80) ds"
  by (auto simp: list_all_iff digit_ascii)

lemma json_number_ascii:
  assumes "json_number bytes"
  shows "list_all (\<lambda>b. b < 0x80) bytes"
proof -
  from assms obtain m ds fs es where b: "bytes = m @ ds @ fs @ es" "m \<in> {[], [45]}"
    "int_part ds" "frac_part fs" "exp_part es"
    unfolding json_number_def by blast
  then have "list_all (\<lambda>b. b < 0x80) m" "list_all (\<lambda>b. b < 0x80) ds" "list_all (\<lambda>b. b < 0x80) fs"
    "list_all (\<lambda>b. b < 0x80) es"
    by (auto simp: int_part_def frac_part_def exp_part_def dest: digits_ascii digit_ascii[OF is_digit19_imp])
  with b show ?thesis by simp
qed

lemma std_exponent_exp_part:
  assumes "exp_part es" "es = e # t"
  shows "std_exponent t = Some (exp_value es)" "e = 101 \<or> e = 69"
proof -
  from assms obtain s ds where t: "t = s @ ds" "s \<in> {[], [43], [45]}" "ds \<noteq> []" "list_all is_digit ds" "e \<in> {101, 69}"
    by (auto simp: exp_part_def)
  then show "e = 101 \<or> e = 69" by auto
  obtain d ds' where d: "ds = d # ds'" using t by (cases ds) auto
  with t have "d \<noteq> 45" "d \<noteq> 43" by (auto simp: is_digit_def)
  with t d assms(2) show "std_exponent t = Some (exp_value es)"
    by (auto simp: std_exponent_def exp_value_def)
qed

lemma takeWhile_digits:
  assumes "list_all is_digit ds" "r = [] \<or> \<not> is_digit (hd r)"
  shows "takeWhile is_digit (ds @ r) = ds" "dropWhile is_digit (ds @ r) = r"
  using assms by (cases r; auto simp: list_all_iff takeWhile_append dropWhile_append)+

lemma std_decimal_parts:
  assumes "int_part ds" "frac_part fs" "exp_part es"
  shows "std_decimal (ds @ fs @ es) =
    Some (digits_value 0 (ds @ tl fs), exp_value es - int (length (tl fs)))"
proof -
  note nd = tail_not_digit[OF assms(2,3)]
  have d: "list_all is_digit ds" "ds \<noteq> []"
    using assms(1) by (auto simp: int_part_def is_digit_def[of 48] intro: is_digit19_imp)
  note tw = takeWhile_digits[OF d(1) nd(1)]
  have e: "(case es of
          [] \<Rightarrow> Some (v, - int k)
        | c # t \<Rightarrow>
            if c = 101 \<or> c = 69
            then map_option (\<lambda>e. (v, e - int k)) (std_exponent t)
            else None) = Some (v, exp_value es - int k)" for v k
  proof (cases es)
    case Nil
    then show ?thesis by (simp add: exp_value_def)
  next
    case (Cons c t)
    with std_exponent_exp_part[OF assms(3) Cons] show ?thesis by auto
  qed
  show ?thesis
  proof (cases "fs = []")
    case True
    show ?thesis
    proof (cases es)
      case Nil
      then show ?thesis
        using True tw d by (simp add: std_decimal_def Let_def exp_value_def
            del: takeWhile_eq_all_conv dropWhile_eq_Nil_conv)
    next
      case (Cons c t)
      with True tw d std_exponent_exp_part[OF assms(3) Cons] show ?thesis
        by (auto simp: std_decimal_def Let_def)
    qed
  next
    case False
    with assms(2) obtain f where f: "fs = 46 # f" "f \<noteq> []" "list_all is_digit f"
      by (auto simp: frac_part_def)
    note tw2 = takeWhile_digits[OF f(3) nd(3)]
    from f tw tw2 d e show ?thesis by (simp add: std_decimal_def Let_def)
  qed
qed

lemma parse_f64_validated:
  assumes "bytes = m @ ds @ fs @ es" "m \<in> {[], [45]}" "int_part ds" "frac_part fs" "exp_part es"
  shows "parse_f64 bytes skip =
    (let v = decimal_f64 (m \<noteq> []) (digits_value 0 (ds @ tl fs)) (exp_value es - int (length (tl fs))) in
     if f64_is_finite v then Ok v else Err QJSON_NUMBER_OUT_OF_RANGE)"
proof -
  have j: "json_number bytes"
    using assms unfolding json_number_def by blast
  obtain d ds' where d: "ds = d # ds'" "is_digit d"
    using int_part_hd[OF assms(3)] by (cases ds) auto
  then have "d \<noteq> 45" "d \<noteq> 43" by (auto simp: is_digit_def)
  note d = this d
  have "std_parse_f64 bytes =
      Some (decimal_f64 (m \<noteq> []) (digits_value 0 (ds @ tl fs)) (exp_value es - int (length (tl fs))))"
    using assms(1,2) d std_decimal_parts[OF assms(3-5)] by (auto simp: std_parse_f64_def Let_def)
  with j json_number_starts[OF j] std_utf8_ascii[OF json_number_ascii[OF j]] show ?thesis
    by (auto simp: parse_f64_def validate_number_complete starts_number_def Let_def)
qed

text \<open>The nearest value is within half a unit of the last place.\<close>

lemma round_half_even_error:
  assumes "0 < den"
  shows "2 * \<bar>int (round_half_even num den * den) - int num\<bar> \<le> int den"
proof -
  define q r where "q = num div den" and "r = num mod den"
  have n: "num = q * den + r" and r: "r < den"
    using assms by (simp_all add: q_def r_def)
  have "int ((q + 1) * den) - int num = int den - int r" "int (q * den) - int num = - int r"
    by (simp_all add: n algebra_simps)
  with r show ?thesis
    unfolding round_half_even_def Let_def q_def[symmetric] r_def[symmetric]
    by (simp del: of_nat_mult of_nat_add mult_Suc add: of_nat_less_iff)
qed

section \<open>Properties\<close>

text \<open>C35: The number validator accepts exactly the strings of the RFC 8259 number grammar; every other string is QJSON_INVALID_NUMBER.\<close>

theorem number_validation_correct:
  "validate_number bytes = (if json_number bytes then Ok () else Err QJSON_INVALID_NUMBER)"
  by (simp add: validate_number_complete validate_number_not)

text \<open>C36: Decoding to i64 returns the exact decimal value when it is in the 64-bit signed range (the minimum included), QJSON_OUT_OF_RANGE when it is not, QJSON_TYPE_MISMATCH for a fraction or exponent and QJSON_INVALID_NUMBER for anything that is not a JSON number; the checked arithmetic never misjudges the range on the way.\<close>

theorem parse_i64_exact:
  "parse_i64 bytes False =
     (if \<not> json_number bytes then Err QJSON_INVALID_NUMBER
      else if has_frac_or_exp bytes then Err QJSON_TYPE_MISMATCH
      else if - (2 ^ 63) \<le> int_value bytes \<and> int_value bytes < 2 ^ 63 then Ok (int_value bytes)
      else Err QJSON_OUT_OF_RANGE)"
  by (rule parse_i64_spec)

text \<open>C37: Decoding to u64 returns the exact decimal value when it is below 2^64 and QJSON_OUT_OF_RANGE otherwise; a minus sign is out of range even for minus zero; the other errors are as for i64.\<close>

theorem parse_u64_exact:
  "parse_u64 bytes False =
     (if \<not> json_number bytes then Err QJSON_INVALID_NUMBER
      else if has_frac_or_exp bytes then Err QJSON_TYPE_MISMATCH
      else if hd bytes = 45 \<or> 2 ^ 64 \<le> int_value bytes then Err QJSON_OUT_OF_RANGE
      else Ok (nat (int_value bytes)))"
  by (rule parse_u64_spec)

text \<open>C38: Decoding a JSON number to f64, with or without skipping validation, never fails to decode: the result is the rounded value of the decimal it spells, or QJSON_NUMBER_OUT_OF_RANGE when that rounds to an infinity.\<close>

theorem parse_f64_total_on_numbers:
  assumes "bytes = m @ ds @ fs @ es" "m \<in> {[], [45]}" "int_part ds" "frac_part fs" "exp_part es"
  shows "parse_f64 bytes skip =
    (let v = decimal_f64 (m \<noteq> []) (digits_value 0 (ds @ tl fs)) (exp_value es - int (length (tl fs))) in
     if f64_is_finite v then Ok v else Err QJSON_NUMBER_OUT_OF_RANGE)"
  using assms by (rule parse_f64_validated)

theorem parse_f64_total_on_numbers_witness:
  "parse_f64 (bs ''-0'') True =
    (let v = decimal_f64 True 0 0 in if f64_is_finite v then Ok v else Err QJSON_NUMBER_OUT_OF_RANGE)"
  using parse_f64_total_on_numbers[of "bs ''-0''" "[45]" "[48]" "[]" "[]" True]
  by (simp add: int_part_def frac_part_def exp_part_def exp_value_def)

end
