(* ===== verification/Eager.thy ===== *)
theory Eager
  imports Strings_Simd Numbers Options Lexer
begin

text \<open>
  \<open>src/validate/mod.rs\<close>: the passes over the structural index. The depth check, the trailing
  content check and the grammar walk of eager mode, with its two-tier context stack (a fixed
  array of 64 frames, copied to a heap vector when it is full).
\<close>

section \<open>Whitespace loops\<close>

text \<open>\<open>while p < limit && is_ws(buf[p]) { p += 1; }\<close>, with the panic of the index.\<close>

function skip_ws_to :: "bytes \<Rightarrow> nat \<Rightarrow> nat \<Rightarrow> (nat, 'e) outcome" where
  "skip_ws_to buf p limit =
     (if p < limit then
        and_then (at buf p) (\<lambda>b. if is_ws b then skip_ws_to buf (p + 1) limit else Ok p)
      else Ok p)"
  by pat_completeness auto
termination
  by (relation "measure (\<lambda>(buf, p, limit). limit - p)") auto

declare skip_ws_to.simps [simp del]

text \<open>\<open>while e > s && is_ws(buf[e - 1]) { e -= 1; }\<close>.\<close>

fun skip_ws_back :: "bytes \<Rightarrow> nat \<Rightarrow> nat \<Rightarrow> (nat, 'e) outcome" where
  "skip_ws_back buf s e =
     (if e > s then
        and_then (at buf (e - 1)) (\<lambda>b. if is_ws b then skip_ws_back buf s (e - 1) else Ok e)
      else Ok e)"

declare skip_ws_back.simps [simp del]

section \<open>Depth\<close>

text \<open>\<open>+\<close> and \<open>-\<close> on \<open>u32\<close>: an overflow panics in a debug build and wraps in a release build.\<close>

definition add_u32 :: "target \<Rightarrow> u32 \<Rightarrow> u32 \<Rightarrow> (u32, 'e) outcome" where
  "add_u32 tgt a b = (if debug_build tgt \<and> 2 ^ 32 \<le> unat a + unat b then Panic else Ok (a + b))"

definition sub_u32 :: "target \<Rightarrow> u32 \<Rightarrow> u32 \<Rightarrow> (u32, 'e) outcome" where
  "sub_u32 tgt a b = (if debug_build tgt \<and> unat a < unat b then Panic else Ok (a - b))"

fun validate_depth_loop ::
  "target \<Rightarrow> bytes \<Rightarrow> u32 \<Rightarrow> u32 list \<Rightarrow> u32 \<Rightarrow> (unit, parse_error) outcome" where
  "validate_depth_loop tgt buf max_depth [] depth = Ok ()"
| "validate_depth_loop tgt buf max_depth (idx # indices) depth =
     (if idx = U32_MAX then Ok ()
      else and_then (at buf (unat idx)) (\<lambda>b.
        if b = 123 \<or> b = 91 then
          and_then (add_u32 tgt depth 1) (\<lambda>depth.
            if depth > max_depth then Err (parse_error_new QJSON_NESTING_TOO_DEEP (unat idx))
            else validate_depth_loop tgt buf max_depth indices depth)
        else if b = 125 \<or> b = 93 then
          and_then (sub_u32 tgt depth 1) (\<lambda>depth. validate_depth_loop tgt buf max_depth indices depth)
        else validate_depth_loop tgt buf max_depth indices depth))"

definition validate_depth_with_offset ::
  "target \<Rightarrow> bytes \<Rightarrow> u32 list \<Rightarrow> u32 \<Rightarrow> (unit, parse_error) outcome" where
  "validate_depth_with_offset tgt buf indices max_depth = validate_depth_loop tgt buf max_depth indices 0"

section \<open>Trailing content\<close>

text \<open>The walk to the closer of a root container: \<open>closer\<close>, the last depth-0 offset found.\<close>

fun root_closer :: "bytes \<Rightarrow> u32 list \<Rightarrow> int \<Rightarrow> nat \<Rightarrow> bool \<Rightarrow> (nat, parse_error) outcome" where
  "root_closer buf [] depth closer in_str = Ok closer"
| "root_closer buf (idx # indices) depth closer in_str =
     (if idx = U32_MAX then Ok closer
      else and_then (at buf (unat idx)) (\<lambda>b.
        if b = 34 then root_closer buf indices depth closer (\<not> in_str)
        else if in_str then root_closer buf indices depth closer in_str
        else if b = 123 \<or> b = 91 then root_closer buf indices (depth + 1) closer in_str
        else if b = 125 \<or> b = 93 then
          (if depth - 1 = 0 then Ok (unat idx) else root_closer buf indices (depth - 1) closer in_str)
        else root_closer buf indices depth closer in_str))"

function skip_non_ws_to :: "bytes \<Rightarrow> nat \<Rightarrow> nat \<Rightarrow> (nat, 'e) outcome" where
  "skip_non_ws_to buf p limit =
     (if p < limit then
        and_then (at buf p) (\<lambda>b. if \<not> is_ws b then skip_non_ws_to buf (p + 1) limit else Ok p)
      else Ok p)"
  by pat_completeness auto
termination
  by (relation "measure (\<lambda>(buf, p, limit). limit - p)") auto

declare skip_non_ws_to.simps [simp del]

definition root_end :: "bytes \<Rightarrow> u32 list \<Rightarrow> (nat, parse_error) outcome" where
  "root_end buf indices =
     (case List.find (\<lambda>i. i \<noteq> U32_MAX) indices of
        None \<Rightarrow>
          and_then (skip_ws_to buf 0 (length buf)) (\<lambda>start.
          and_then (skip_non_ws_to buf start (length buf)) (\<lambda>p.
          if start = p then Ok (length buf)
          else skip_ws_to buf p (length buf)))
      | Some first_idx \<Rightarrow>
          and_then (at buf (unat first_idx)) (\<lambda>b.
            if b = 123 \<or> b = 91 then
              and_then (root_closer buf indices 0 (unat first_idx) False) (\<lambda>closer.
              skip_ws_to buf (closer + 1) (length buf))
            else if b = 34 then
              (let close = (case List.find (\<lambda>i. i \<noteq> U32_MAX) (drop 1 indices) of
                              Some i \<Rightarrow> i | None \<Rightarrow> first_idx) in
               skip_ws_to buf (unat close + 1) (length buf))
            else
              (let last_idx = (case List.find (\<lambda>i. i \<noteq> U32_MAX) (rev indices) of
                              Some i \<Rightarrow> i | None \<Rightarrow> first_idx) in
               skip_ws_to buf (unat last_idx + 1) (length buf))))"

text \<open>
  The early \<open>return Ok(())\<close> of a buffer without any token is \<open>root_end = buf.len()\<close> above.
\<close>

definition validate_trailing_with_offset :: "bytes \<Rightarrow> u32 list \<Rightarrow> (unit, parse_error) outcome" where
  "validate_trailing_with_offset buf indices =
     and_then (root_end buf indices) (\<lambda>root_end.
       if root_end < length buf then Err (parse_error_new QJSON_TRAILING_CONTENT root_end)
       else Ok ())"

section \<open>Contexts and their stack\<close>

datatype ctx_kind = Top | TopDone | ArrAfterOpen | ArrAfterValue | ArrAfterComma
  | ObjAfterOpen | ObjAfterKey | ObjAfterColon | ObjAfterValue | ObjAfterComma

fun parent_after_value :: "ctx_kind \<Rightarrow> ctx_kind" where
  "parent_after_value Top = TopDone"
| "parent_after_value ArrAfterOpen = ArrAfterValue"
| "parent_after_value ArrAfterComma = ArrAfterValue"
| "parent_after_value ObjAfterColon = ObjAfterValue"
| "parent_after_value other = other"

definition expects_value :: "ctx_kind \<Rightarrow> bool" where
  "expects_value k \<longleftrightarrow> k = Top \<or> k = ArrAfterOpen \<or> k = ArrAfterComma \<or> k = ObjAfterColon"

definition STACK_CAP :: nat where
  "STACK_CAP = 64"

record ctx_stack =
  stack_buf :: "ctx_kind list"
  sp :: nat
  fallback :: "ctx_kind list option"

definition stack_init :: ctx_stack where
  "stack_init = \<lparr>stack_buf = replicate STACK_CAP Top, sp = 1, fallback = None\<rparr>"

text \<open>The macros \<open>push!\<close>, \<open>pop!\<close>, \<open>last_mut!\<close> (read, and write through it) and \<open>stack_len!\<close>.\<close>

definition stack_push :: "ctx_kind \<Rightarrow> ctx_stack \<Rightarrow> ctx_stack" where
  "stack_push kind s =
     (if sp s < STACK_CAP then s\<lparr>stack_buf := (stack_buf s)[sp s := kind], sp := sp s + 1\<rparr>
      else
        (let fb = (case fallback s of None \<Rightarrow> take (sp s) (stack_buf s) | Some v \<Rightarrow> v) in
         s\<lparr>sp := STACK_CAP + (length fb + 1), fallback := Some (fb @ [kind])\<rparr>))"

definition stack_pop :: "ctx_stack \<Rightarrow> (ctx_kind option \<times> ctx_stack, 'e) outcome" where
  "stack_pop s =
     (if sp s \<le> STACK_CAP then
        (if sp s = 0 then Ok (None, s)
         else Ok (Some (stack_buf s ! (sp s - 1)), s\<lparr>sp := sp s - 1\<rparr>))
      else case fallback s of
          None \<Rightarrow> Panic
        | Some fb \<Rightarrow>
            (let val = (if fb = [] then None else Some (last fb)); fb = butlast fb in
             Ok (val, s\<lparr>fallback := Some fb, sp := (if fb = [] then STACK_CAP else sp s)\<rparr>)))"

definition stack_last :: "ctx_stack \<Rightarrow> (ctx_kind option, 'e) outcome" where
  "stack_last s =
     (if sp s \<le> STACK_CAP then Ok (if sp s = 0 then None else Some (stack_buf s ! (sp s - 1)))
      else case fallback s of
          None \<Rightarrow> Panic
        | Some fb \<Rightarrow> Ok (if fb = [] then None else Some (last fb)))"

definition stack_set_last :: "ctx_kind \<Rightarrow> ctx_stack \<Rightarrow> ctx_stack" where
  "stack_set_last kind s =
     (if sp s \<le> STACK_CAP then s\<lparr>stack_buf := (stack_buf s)[sp s - 1 := kind]\<rparr>
      else case fallback s of
          None \<Rightarrow> s
        | Some fb \<Rightarrow> s\<lparr>fallback := Some (fb[length fb - 1 := kind])\<rparr>)"

definition stack_len :: "ctx_stack \<Rightarrow> nat" where
  "stack_len s =
     (if sp s \<le> STACK_CAP then sp s else (case fallback s of None \<Rightarrow> 0 | Some v \<Rightarrow> length v))"

section \<open>Scalars\<close>

definition validate_scalar :: "bytes \<Rightarrow> (unit, qjson_err) outcome" where
  "validate_scalar scalar =
     and_then (at scalar 0) (\<lambda>c.
       if c = 116 then (if scalar = bs ''true'' then Ok () else Err QJSON_PARSE_ERROR)
       else if c = 102 then (if scalar = bs ''false'' then Ok () else Err QJSON_PARSE_ERROR)
       else if c = 110 then (if scalar = bs ''null'' then Ok () else Err QJSON_PARSE_ERROR)
       else if c = 45 \<or> is_digit c \<or> c = 43 \<or> c = 46 then validate_number scalar
       else if scalar = bs ''NaN'' \<or> scalar = bs ''Infinity'' then validate_number scalar
       else Err QJSON_PARSE_ERROR)"

definition consume_scalar_gap :: "bytes \<Rightarrow> nat \<Rightarrow> nat \<Rightarrow> ctx_kind \<Rightarrow> (ctx_kind, parse_error) outcome" where
  "consume_scalar_gap buf start end_pos state =
     and_then (skip_ws_to buf start end_pos) (\<lambda>s.
     and_then (skip_ws_back buf s end_pos) (\<lambda>e.
       if s = e then Ok state
       else if \<not> expects_value state then Err (parse_error_new QJSON_PARSE_ERROR s)
       else and_then (slice_at buf s e) (\<lambda>scalar.
         and_then (map_err (\<lambda>code. parse_error_new code s) (validate_scalar scalar)) (\<lambda>_.
           Ok (parent_after_value state)))))"

section \<open>The grammar walk\<close>

text \<open>\<open>last_mut!().unwrap()\<close>.\<close>

definition unwrap :: "('a option, 'e) outcome \<Rightarrow> ('a, 'e) outcome" where
  "unwrap r = and_then r (\<lambda>x. case x of None \<Rightarrow> Panic | Some y \<Rightarrow> Ok y)"

definition close_container ::
  "ctx_kind \<Rightarrow> ctx_kind \<Rightarrow> nat \<Rightarrow> ctx_stack \<Rightarrow> (ctx_stack, parse_error) outcome" where
  "close_container after_open after_value pos s =
     and_then (stack_pop s) (\<lambda>(popped, s).
       case popped of
         None \<Rightarrow> Err (parse_error_new QJSON_PARSE_ERROR pos)
       | Some frame \<Rightarrow>
           if \<not> (frame = after_open \<or> frame = after_value) then Err (parse_error_new QJSON_PARSE_ERROR pos)
           else if stack_len s = 0 then Err (parse_error_new QJSON_PARSE_ERROR pos)
           else Ok s)"

text \<open>The \<open>match b\<close> on the structural byte \<open>b\<close> at \<open>pos\<close>, with \<open>cur\<close> the innermost frame.\<close>

definition eager_dispatch ::
  "target \<Rightarrow> bytes \<Rightarrow> u32 list \<Rightarrow> u32 \<Rightarrow> ctx_stack \<Rightarrow> ctx_kind \<Rightarrow> nat \<Rightarrow> u8 \<Rightarrow> nat \<Rightarrow>
     (ctx_stack \<times> nat \<times> nat, parse_error) outcome" where
  "eager_dispatch tgt buf indices max_depth s cur pos b i =
     (let parse_err = Err (parse_error_new QJSON_PARSE_ERROR pos) in
      if b = 123 \<or> b = 91 then
        (if expects_value cur then
           (let s = stack_set_last (parent_after_value cur) s in
            if stack_len s > unat max_depth
            then Err (parse_error_new QJSON_NESTING_TOO_DEEP pos)
            else Ok (stack_push (if b = 123 then ObjAfterOpen else ArrAfterOpen) s, pos + 1, i + 1))
         else parse_err)
      else if b = 125 then
        and_then (close_container ObjAfterOpen ObjAfterValue pos s) (\<lambda>s. Ok (s, pos + 1, i + 1))
      else if b = 93 then
        and_then (close_container ArrAfterOpen ArrAfterValue pos s) (\<lambda>s. Ok (s, pos + 1, i + 1))
      else if b = 44 then
        (if cur = ArrAfterValue then Ok (stack_set_last ArrAfterComma s, pos + 1, i + 1)
         else if cur = ObjAfterValue then Ok (stack_set_last ObjAfterComma s, pos + 1, i + 1)
         else parse_err)
      else if b = 58 then
        (if cur = ObjAfterKey then Ok (stack_set_last ObjAfterColon s, pos + 1, i + 1)
         else parse_err)
      else if b = 34 then
        (if i + 1 \<ge> length indices then parse_err
         else
           (let close = unat (indices ! (i + 1)) in
            if close \<le> pos \<or> close \<ge> length buf \<or> buf ! close \<noteq> 34 then parse_err
            else and_then
              (map_err (\<lambda>code. parse_error_new code pos)
                (validate_string_span tgt (slice (pos + 1) close buf))) (\<lambda>_.
              if cur = ObjAfterOpen \<or> cur = ObjAfterComma
              then Ok (stack_set_last ObjAfterKey s, close + 1, i + 2)
              else if expects_value cur
              then Ok (stack_set_last (parent_after_value cur) s, close + 1, i + 2)
              else parse_err)))
      else parse_err)"

definition eager_step ::
  "target \<Rightarrow> bytes \<Rightarrow> u32 list \<Rightarrow> u32 \<Rightarrow> ctx_stack \<Rightarrow> nat \<Rightarrow> nat \<Rightarrow>
     (ctx_stack \<times> nat \<times> nat, parse_error) outcome" where
  "eager_step tgt buf indices max_depth s prev_end i =
     (let pos = unat (indices ! i) in
      and_then (at buf pos) (\<lambda>b.
      and_then (unwrap (stack_last s)) (\<lambda>cur.
      and_then (consume_scalar_gap buf prev_end pos cur) (\<lambda>cur.
        eager_dispatch tgt buf indices max_depth (stack_set_last cur s) cur pos b i))))"

lemma eager_step_progress:
  "eager_step tgt buf indices max_depth s prev_end i = Ok (s', prev_end', i') \<Longrightarrow> i < i'"
  unfolding eager_step_def eager_dispatch_def Let_def and_then_eq_Ok
  by (auto split: if_splits)

text \<open>The tail after the last structural byte, and the final check.\<close>

definition eager_finish :: "bytes \<Rightarrow> ctx_stack \<Rightarrow> nat \<Rightarrow> (unit, parse_error) outcome" where
  "eager_finish buf s prev_end =
     and_then (unwrap (stack_last s)) (\<lambda>cur.
     and_then (consume_scalar_gap buf prev_end (length buf) cur) (\<lambda>cur.
     let s = stack_set_last cur s in
     if stack_len s \<noteq> 1 \<or> stack_buf s ! 0 \<noteq> TopDone
     then Err (parse_error_new QJSON_PARSE_ERROR (length buf)) else Ok ()))"

function eager_loop ::
  "target \<Rightarrow> bytes \<Rightarrow> u32 list \<Rightarrow> u32 \<Rightarrow> ctx_stack \<Rightarrow> nat \<Rightarrow> nat \<Rightarrow> (unit, parse_error) outcome" where
  "eager_loop tgt buf indices max_depth s prev_end i =
     (if i < length indices \<and> indices ! i \<noteq> U32_MAX then
        (case eager_step tgt buf indices max_depth s prev_end i of
           Ok (s', prev_end', i') \<Rightarrow> eager_loop tgt buf indices max_depth s' prev_end' i'
         | Err e \<Rightarrow> Err e
         | Panic \<Rightarrow> Panic)
      else eager_finish buf s prev_end)"
  by pat_completeness auto
termination
  by (relation "measure (\<lambda>(tgt, buf, indices, max_depth, s, prev_end, i). length indices - i)")
     (auto dest: eager_step_progress[OF sym] eager_step_progress)

declare eager_loop.simps [simp del]

definition validate_eager_values_with_offset ::
  "target \<Rightarrow> bytes \<Rightarrow> u32 list \<Rightarrow> u32 \<Rightarrow> (unit, parse_error) outcome" where
  "validate_eager_values_with_offset tgt buf indices max_depth =
     eager_loop tgt buf indices max_depth stack_init 0 0"

end
