(* ===== verification/Eager_Refine.thy ===== *)
theory Eager_Refine
  imports Eager Scan_Scalar
begin

text \<open>
  The eager validator refined to a walk over the bytes with a plain list of contexts: the
  two-tier stack is a list, the walk over the structural index is a walk over the buffer, and
  both agree on every result, error offsets included.
\<close>

section \<open>The walk over bytes\<close>

definition strip_right :: "bytes \<Rightarrow> bytes" where
  "strip_right g = rev (dropWhile is_ws (rev g))"

definition walk_gap :: "nat \<Rightarrow> bytes \<Rightarrow> ctx_kind \<Rightarrow> (ctx_kind, parse_error) outcome" where
  "walk_gap n gap c =
     (let g = dropWhile is_ws gap; off = n + (length gap - length g); scalar = strip_right g in
      if scalar = [] then Ok c
      else if \<not> expects_value c then Err (parse_error_new QJSON_PARSE_ERROR off)
      else and_then (map_err (\<lambda>code. parse_error_new code off) (validate_scalar scalar))
             (\<lambda>_. Ok (parent_after_value c)))"

fun split_string :: "bytes \<Rightarrow> (bytes \<times> bytes) option" where
  "split_string [] = None"
| "split_string [b] = (if b = 34 then Some ([], []) else None)"
| "split_string (b # c # t) =
     (if b = 34 then Some ([], c # t)
      else if b = 92 then map_option (\<lambda>(body, t'). (b # c # body, t')) (split_string t)
      else map_option (\<lambda>(body, t'). (b # body, t')) (split_string (c # t)))"

definition walk_string :: "nat \<Rightarrow> ctx_kind \<Rightarrow> (ctx_kind, parse_error) outcome" where
  "walk_string pos c =
     (if c = ObjAfterOpen \<or> c = ObjAfterComma then Ok ObjAfterKey
      else if expects_value c then Ok (parent_after_value c)
      else Err (parse_error_new QJSON_PARSE_ERROR pos))"

fun walk_token :: "nat \<Rightarrow> nat \<Rightarrow> u8 \<Rightarrow> ctx_kind list \<Rightarrow> (ctx_kind list, parse_error) outcome" where
  "walk_token m pos b [] = Panic"
| "walk_token m pos b (c # st) =
     (let parse_err = Err (parse_error_new QJSON_PARSE_ERROR pos) in
      if b = 123 \<or> b = 91 then
        (if expects_value c then
           (if length (c # st) > m then Err (parse_error_new QJSON_NESTING_TOO_DEEP pos)
            else Ok ((if b = 123 then ObjAfterOpen else ArrAfterOpen) # parent_after_value c # st))
         else parse_err)
      else if b = 125 then
        (if (c = ObjAfterOpen \<or> c = ObjAfterValue) \<and> st \<noteq> [] then Ok st else parse_err)
      else if b = 93 then
        (if (c = ArrAfterOpen \<or> c = ArrAfterValue) \<and> st \<noteq> [] then Ok st else parse_err)
      else if b = 44 then
        (if c = ArrAfterValue then Ok (ArrAfterComma # st)
         else if c = ObjAfterValue then Ok (ObjAfterComma # st) else parse_err)
      else if b = 58 then (if c = ObjAfterKey then Ok (ObjAfterColon # st) else parse_err)
      else parse_err)"

lemma split_string_length: "split_string t = Some (body, t') \<Longrightarrow> length t' < length t"
  by (induction t arbitrary: body t' rule: split_string.induct) (fastforce split: if_splits)+

function walk :: "nat \<Rightarrow> ctx_kind list \<Rightarrow> nat \<Rightarrow> bytes \<Rightarrow> (unit, parse_error) outcome" where
  "walk m [] n s = Panic"
| "walk m (c # st) n s =
     (let gap = takeWhile (\<lambda>b. \<not> is_structural b) s; p = n + length gap in
      and_then (walk_gap n gap c) (\<lambda>c'.
        case dropWhile (\<lambda>b. \<not> is_structural b) s of
          [] \<Rightarrow> if st = [] \<and> c' = TopDone then Ok () else Err (parse_error_new QJSON_PARSE_ERROR p)
        | b # t \<Rightarrow>
            if b = 34 then
              (case split_string t of
                 None \<Rightarrow> Err (parse_error_new QJSON_PARSE_ERROR p)
               | Some (body, t') \<Rightarrow>
                   and_then (map_err (\<lambda>code. parse_error_new code p) (validate_span_scalar body)) (\<lambda>_.
                   and_then (walk_string p c') (\<lambda>c''.
                     walk m (c'' # st) (p + length body + 2) t')))
            else and_then (walk_token m p b (c' # st)) (\<lambda>st'. walk m st' (p + 1) t)))"
  by pat_completeness auto
termination
proof (relation "measure (\<lambda>(m, st, n, s). length s)", goal_cases)
  case (2 m c st n s gap p c' b t sp body t' u c'')
  then have "length (b # t) \<le> length s" "length t' < length t"
    by (metis length_dropWhile_le, auto dest: split_string_length)
  then show ?case by simp
next
  case (3 m c st n s gap p c' b t st')
  then have "length (b # t) \<le> length s"
    by (metis length_dropWhile_le)
  then show ?case by simp
qed simp

declare walk.simps(2) [simp del]


section \<open>The two-tier stack is a list\<close>

text \<open>
  \<open>frames s\<close>: the contexts, innermost first. Once the heap vector exists it holds all frames, and
  the root frame is \<open>TopDone\<close> in it and in the array alike: the final check reads the array.
\<close>

definition frames :: "ctx_stack \<Rightarrow> ctx_kind list" where
  "frames s = rev (if sp s \<le> STACK_CAP then take (sp s) (stack_buf s) else the (fallback s))"

definition stack_inv :: "ctx_stack \<Rightarrow> bool" where
  "stack_inv s \<longleftrightarrow> length (stack_buf s) = STACK_CAP \<and>
     (if sp s \<le> STACK_CAP then fallback s = None
      else \<exists>v. fallback s = Some v \<and> v \<noteq> [] \<and> v ! 0 = TopDone \<and> stack_buf s ! 0 = TopDone)"

text \<open>The root frame is the only one that is \<open>Top\<close> or \<open>TopDone\<close>, and \<open>TopDone\<close> under others.\<close>

definition is_root :: "ctx_kind \<Rightarrow> bool" where
  "is_root c \<longleftrightarrow> c = Top \<or> c = TopDone"

definition frames_ok :: "ctx_kind list \<Rightarrow> bool" where
  "frames_ok st \<longleftrightarrow> st \<noteq> [] \<and> (\<forall>c \<in> set (butlast st). \<not> is_root c) \<and>
     (if tl st = [] then is_root (last st) else last st = TopDone)"

lemma stack_init_frames: "stack_inv stack_init" "frames stack_init = [Top]"
  by (simp_all add: stack_init_def stack_inv_def frames_def STACK_CAP_def)

lemma frames_small: "sp s \<le> STACK_CAP \<Longrightarrow> frames s = rev (take (sp s) (stack_buf s))"
  by (simp add: frames_def)

lemma frames_large:
  "\<not> sp s \<le> STACK_CAP \<Longrightarrow> fallback s = Some v \<Longrightarrow> frames s = rev v"
  by (simp add: frames_def)

text \<open>The two shapes of a stack with a given innermost frame.\<close>

lemma stack_cases:
  assumes "stack_inv s" "frames s = c # st"
  obtains (array) r where "sp s \<le> STACK_CAP" "sp s = Suc (length st)" "stack_buf s = rev st @ c # r"
    | (vector) "\<not> sp s \<le> STACK_CAP" "fallback s = Some (rev st @ [c])"
proof (cases "sp s \<le> STACK_CAP")
  case True
  have t: "take (sp s) (stack_buf s) = rev st @ [c]"
    using assms(2) True by (simp add: frames_small rev_swap)
  have "length (take (sp s) (stack_buf s)) = sp s"
    using assms(1) True by (simp add: stack_inv_def)
  with t have "sp s = Suc (length st)" by simp
  moreover have "stack_buf s = rev st @ c # drop (sp s) (stack_buf s)"
    using t append_take_drop_id[of "sp s" "stack_buf s"] by simp
  ultimately show ?thesis using True array by blast
next
  case False
  with assms(1) obtain v where v: "fallback s = Some v" by (auto simp: stack_inv_def)
  with False assms(2) have "v = rev st @ [c]" by (simp add: frames_large rev_swap)
  with False v vector show ?thesis by simp
qed

lemma stack_last_frames:
  assumes "stack_inv s" "frames s = c # st"
  shows "stack_last s = Ok (Some c)"
  using assms by (cases rule: stack_cases) (simp_all add: stack_last_def nth_append)

lemma stack_len_frames: "stack_inv s \<Longrightarrow> stack_len s = length (frames s)"
  by (auto simp: stack_len_def frames_def stack_inv_def)

lemma stack_set_last_frames:
  assumes inv: "stack_inv s" and fr: "frames s = c # st" and root: "st = [] \<Longrightarrow> c = TopDone \<Longrightarrow> c' = TopDone"
  shows "stack_inv (stack_set_last c' s)" "frames (stack_set_last c' s) = c' # st"
proof -
  have "stack_inv (stack_set_last c' s) \<and> frames (stack_set_last c' s) = c' # st"
    using inv fr
  proof (cases rule: stack_cases)
    case (array r)
    with inv show ?thesis
      by (simp add: stack_set_last_def frames_def stack_inv_def list_update_append)
  next
    case vector
    with inv root show ?thesis
      by (cases "rev st") (auto simp: stack_set_last_def frames_def stack_inv_def)
  qed
  then show "stack_inv (stack_set_last c' s)" "frames (stack_set_last c' s) = c' # st" by blast+
qed

lemma stack_push_frames:
  assumes inv: "stack_inv s" and root: "frames s \<noteq> []" "last (frames s) = TopDone"
  shows "stack_inv (stack_push k s)" "frames (stack_push k s) = k # frames s"
proof -
  have "stack_inv (stack_push k s) \<and> frames (stack_push k s) = k # frames s"
  proof (cases "sp s < STACK_CAP")
    case True
    with inv show ?thesis
      by (simp add: stack_push_def frames_def stack_inv_def take_Suc_conv_app_nth)
  next
    case no: False
    show ?thesis
    proof (cases "sp s \<le> STACK_CAP")
      case True
      with no have sp: "sp s = STACK_CAP" by simp
      with inv have f: "fallback s = None" "length (stack_buf s) = STACK_CAP" by (auto simp: stack_inv_def)
      with sp root have "stack_buf s ! 0 = TopDone"
        by (simp add: frames_def last_rev hd_conv_nth)
      with sp f no show ?thesis
        by (simp add: stack_push_def frames_def stack_inv_def nth_append STACK_CAP_def)
    next
      case False
      with inv obtain v where v: "fallback s = Some v" "v \<noteq> []" "v ! 0 = TopDone" "stack_buf s ! 0 = TopDone"
        by (auto simp: stack_inv_def)
      with False inv show ?thesis
        by (simp add: stack_push_def frames_def stack_inv_def nth_append)
    qed
  qed
  then show "stack_inv (stack_push k s)" "frames (stack_push k s) = k # frames s" by blast+
qed

lemma stack_pop_frames:
  assumes inv: "stack_inv s" and fr: "frames s = c # st"
  shows "\<exists>s'. stack_pop s = Ok (Some c, s') \<and> (st \<noteq> [] \<longrightarrow> stack_inv s' \<and> frames s' = st)"
  using inv fr
proof (cases rule: stack_cases)
  case (array r)
  with inv show ?thesis
    by (simp add: stack_pop_def frames_def stack_inv_def nth_append)
next
  case vector
  with inv show ?thesis
    by (cases "rev st") (auto simp: stack_pop_def frames_def stack_inv_def Let_def rev_swap)
qed


section \<open>Gaps\<close>

lemma skip_ws_to_drop:
  "drop n buf = g @ r \<Longrightarrow> skip_ws_to buf n (n + length g) = Ok (n + length (takeWhile is_ws g))"
proof (induction g arbitrary: n)
  case Nil
  then show ?case by (simp add: skip_ws_to.simps[of buf n])
next
  case (Cons b g)
  from drop_eq_ConsD[of n buf b "g @ r"] Cons.prems
  have "n < length buf" "buf ! n = b" "drop (Suc n) buf = g @ r" by auto
  with Cons.IH[of "Suc n"] show ?case
    by (simp add: skip_ws_to.simps[of buf n] at_def)
qed

lemma skip_ws_back_drop:
  "drop n buf = g @ r \<Longrightarrow> skip_ws_back buf n (n + length g) = Ok (n + length (strip_right g))"
proof (induction g arbitrary: r rule: rev_induct)
  case Nil
  then show ?case by (simp add: skip_ws_back.simps[of buf n n] strip_right_def)
next
  case (snoc b g)
  have "drop (n + length g) buf = b # r"
    using drop_add[of n buf g "b # r"] snoc.prems by simp
  from drop_eq_ConsD[OF this] have "n + length g < length buf" "buf ! (n + length g) = b" by auto
  with snoc.IH[of "b # r"] snoc.prems show ?case
    by (subst skip_ws_back.simps) (simp add: strip_right_def at_def)
qed

lemma strip_right_append: "\<exists>w. g = strip_right g @ w \<and> list_all is_ws w"
proof (intro exI conjI)
  show "g = strip_right g @ rev (takeWhile is_ws (rev g))"
    unfolding strip_right_def by (metis rev_append rev_rev_ident takeWhile_dropWhile_id)
  show "list_all is_ws (rev (takeWhile is_ws (rev g)))"
    by (auto simp: list_all_iff dest: set_takeWhileD)
qed

lemma consume_scalar_gap_walk:
  assumes "drop n buf = gap @ r" "n \<le> length buf"
  shows "consume_scalar_gap buf n (n + length gap) c = walk_gap n gap c"
proof -
  define w where "w = takeWhile is_ws gap"
  define g where "g = dropWhile is_ws gap"
  have gap: "gap = w @ g" by (simp add: w_def g_def)
  have d: "drop (n + length w) buf = g @ r"
    using drop_add[of n buf w "g @ r"] assms(1) gap by simp
  have len: "n + length gap \<le> length buf"
    using arg_cong[OF assms(1), of length] assms(2) by simp
  have bk: "skip_ws_back buf (n + length w) (n + length gap) = Ok (n + length w + length (strip_right g))"
    using skip_ws_back_drop[OF d] by (simp add: gap add.assoc)
  obtain w' where w': "g = strip_right g @ w'" using strip_right_append by blast
  have "slice (n + length w) (n + length w + length (strip_right g)) buf = strip_right g"
    using slice_of_drop[of "n + length w" buf "[]" "strip_right g" "w' @ r"] d w' by simp
  moreover have "length g = length (strip_right g) + length w'"
    using arg_cong[OF w', of length] by simp
  then have "n + length w + length (strip_right g) \<le> length buf"
    using len gap by simp
  ultimately have sl: "slice_at buf (n + length w) (n + length w + length (strip_right g)) = Ok (strip_right g)"
    by (simp add: slice_at_def)
  have "n + (length gap - length g) = n + length w" by (simp add: gap)
  then show ?thesis
    unfolding consume_scalar_gap_def walk_gap_def Let_def g_def[symmetric]
    by (simp add: skip_ws_to_drop[OF assms(1), folded w_def] bk sl)
qed

section \<open>Strings\<close>

lemma split_string_eq: "split_string t = Some (body, t') \<Longrightarrow> t = body @ 34 # t'"
  by (induction t arbitrary: body t' rule: split_string.induct) (fastforce split: if_splits)+

lemma split_string_lex:
  "split_string t = Some (body, t') \<Longrightarrow>
     lex_tokens Inside n t = (n + length body, 34) # lex_tokens Outside (n + length body + 1) t' \<and>
     lex_run Inside t = lex_run Outside t'"
  by (induction t arbitrary: body t' n rule: split_string.induct) (fastforce split: if_splits)+

lemma split_string_None: "split_string t = None \<Longrightarrow> lex_run Inside t \<noteq> Outside"
  by (induction t rule: split_string.induct) (auto split: if_splits)

section \<open>Tokens of a suffix\<close>

lemma lex_gap:
  assumes "list_all (\<lambda>b. \<not> is_structural b) gap"
  shows "lex_tokens Outside n (gap @ r) = lex_tokens Outside (n + length gap) r"
    "lex_run Outside (gap @ r) = lex_run Outside r"
proof -
  have "b \<noteq> 34" if "\<not> is_structural b" for b using that by auto
  with assms have "lex_tokens Outside n gap = [] \<and> lex_run Outside gap = Outside"
    by (induction gap arbitrary: n) auto
  then show "lex_tokens Outside n (gap @ r) = lex_tokens Outside (n + length gap) r"
    "lex_run Outside (gap @ r) = lex_run Outside r"
    by (simp_all add: lex_tokens_append)
qed

lemma lex_structural:
  "is_structural b \<Longrightarrow> b \<noteq> 34 \<Longrightarrow>
     lex_tokens Outside n (b # t) = (n, b) # lex_tokens Outside (Suc n) t \<and>
     lex_run Outside (b # t) = lex_run Outside t"
  "lex_tokens Outside n (34 # t) = (n, 34) # lex_tokens Inside (Suc n) t"
  "lex_run Outside (34 # t) = lex_run Inside t"
  by simp_all


section \<open>One step\<close>

lemma frames_ok_rest: "frames_ok (c # st) \<Longrightarrow> st \<noteq> [] \<Longrightarrow> frames_ok st \<and> last st = TopDone \<and> \<not> is_root c"
  by (auto simp: frames_ok_def is_root_def dest: in_set_butlastD intro: in_set_butlast_appendI split: if_splits)

lemma frames_ok_update: "frames_ok (c # st) \<Longrightarrow> is_root c' = is_root c \<Longrightarrow> frames_ok (c' # st)"
  by (auto simp: frames_ok_def)

lemma is_root_parent_after_value [simp]: "is_root (parent_after_value c) = is_root c"
  by (cases c) (simp_all add: is_root_def)

lemma expects_value_cases:
  "expects_value c \<Longrightarrow> c = Top \<or> c = ArrAfterOpen \<or> c = ArrAfterComma \<or> c = ObjAfterColon"
  by (simp add: expects_value_def)

text \<open>A stack \<open>s\<close> that represents the frames \<open>st\<close> of a running walk.\<close>

definition represents :: "ctx_stack \<Rightarrow> ctx_kind list \<Rightarrow> bool" where
  "represents s st \<longleftrightarrow> stack_inv s \<and> frames s = st \<and> frames_ok st"

lemma represents_set_last:
  assumes "represents s (c # st)" "is_root c' = is_root c" "c = TopDone \<Longrightarrow> c' = TopDone"
  shows "represents (stack_set_last c' s) (c' # st)"
  using assms stack_set_last_frames[of s c st c'] frames_ok_update[of c st c']
  by (simp add: represents_def)

lemma represents_gap:
  assumes "represents s (c # st)" "c' = c \<or> c' = parent_after_value c"
  shows "represents (stack_set_last c' s) (c' # st)"
  using assms(1) by (rule represents_set_last) (use assms(2) in auto)

lemma represents_push:
  assumes "represents s (c # st)" "st = [] \<Longrightarrow> c = TopDone" "\<not> is_root k"
  shows "represents (stack_push k s) (k # c # st)"
proof -
  have "last (c # st) = TopDone"
    using assms frames_ok_rest[of c st] by (cases "st = []") (auto simp: represents_def)
  moreover from this assms have "frames_ok (k # c # st)"
    by (auto simp: frames_ok_def represents_def)
  ultimately show ?thesis
    using assms stack_push_frames[of s k] by (simp add: represents_def)
qed

lemma represents_pop:
  assumes "represents s (c # st)" "st \<noteq> []"
  shows "\<exists>s'. stack_pop s = Ok (Some c, s') \<and> represents s' st"
  using assms stack_pop_frames[of s c st] frames_ok_rest[of c st] by (auto simp: represents_def)

lemma represents_len: "represents s st \<Longrightarrow> stack_len s = length st"
  by (simp add: represents_def stack_len_frames)

lemma close_container_walk:
  assumes "represents s (c # st)" "\<not> is_root a" "\<not> is_root v"
  shows "(c \<noteq> a \<and> c \<noteq> v \<or> st = []) \<and> close_container a v pos s = Err (parse_error_new QJSON_PARSE_ERROR pos) \<or>
    (c = a \<or> c = v) \<and> st \<noteq> [] \<and> (\<exists>s'. close_container a v pos s = Ok s' \<and> represents s' st)"
proof (cases "st = []")
  case True
  with assms have "is_root c" by (simp add: represents_def frames_ok_def)
  with assms have "c \<noteq> a" "c \<noteq> v" by auto
  moreover obtain s' where "(stack_pop s :: (_, parse_error) outcome) = Ok (Some c, s')"
    using assms stack_pop_frames[of s c st] by (auto simp: represents_def)
  ultimately show ?thesis
    using True by (simp add: close_container_def)
next
  case False
  obtain s' where s': "(stack_pop s :: (_, parse_error) outcome) = Ok (Some c, s')" "represents s' st"
    using represents_pop[OF assms(1) False] by blast
  then show ?thesis
    using False represents_len[OF s'(2)] by (auto simp: close_container_def)
qed

lemma eager_dispatch_walk:
  assumes r: "represents s (c # st)" and b: "b \<noteq> 34"
  shows "case walk_token (unat max_depth) pos b (c # st) of
      Ok st' \<Rightarrow> \<exists>s'. eager_dispatch tgt buf indices max_depth s c pos b i = Ok (s', pos + 1, i + 1) \<and> represents s' st'
    | Err e \<Rightarrow> eager_dispatch tgt buf indices max_depth s c pos b i = Err e
    | Panic \<Rightarrow> False"
proof -
  consider (opener) "b = 123 \<or> b = 91" | (close_obj) "b = 125" | (close_arr) "b = 93" | (comma) "b = 44" | (colon) "b = 58"
    | (other) "b \<noteq> 123" "b \<noteq> 91" "b \<noteq> 125" "b \<noteq> 93" "b \<noteq> 44" "b \<noteq> 58"
    by blast
  then show ?thesis
  proof cases
    case opener
    show ?thesis
    proof (cases "expects_value c")
      case True
      define s1 where "s1 = stack_set_last (parent_after_value c) s"
      have s1: "represents s1 (parent_after_value c # st)"
        unfolding s1_def using r by (rule represents_set_last) auto
      have "st = [] \<Longrightarrow> parent_after_value c = TopDone"
        using r True by (auto simp: represents_def frames_ok_def is_root_def expects_value_def)
      from represents_push[OF s1 this, of "if b = 123 then ObjAfterOpen else ArrAfterOpen"]
      have "represents (stack_push (if b = 123 then ObjAfterOpen else ArrAfterOpen) s1)
          ((if b = 123 then ObjAfterOpen else ArrAfterOpen) # parent_after_value c # st)"
        by (auto simp: is_root_def)
      with opener True represents_len[OF s1] show ?thesis
        by (auto simp: eager_dispatch_def Let_def s1_def[symmetric])
    next
      case False
      with opener show ?thesis by (auto simp: eager_dispatch_def Let_def)
    qed
  next
    case close_obj
    with close_container_walk[OF r, of ObjAfterOpen ObjAfterValue pos] show ?thesis
      by (auto simp: eager_dispatch_def Let_def is_root_def)
  next
    case close_arr
    with close_container_walk[OF r, of ArrAfterOpen ArrAfterValue pos] show ?thesis
      by (auto simp: eager_dispatch_def Let_def is_root_def)
  next
    case comma
    with represents_set_last[OF r, of ArrAfterComma] represents_set_last[OF r, of ObjAfterComma] show ?thesis
      by (auto simp: eager_dispatch_def Let_def is_root_def)
  next
    case colon
    with represents_set_last[OF r, of ObjAfterColon] show ?thesis
      by (auto simp: eager_dispatch_def Let_def is_root_def)
  next
    case other
    with b show ?thesis by (auto simp: eager_dispatch_def Let_def)
  qed
qed


lemma eager_dispatch_string:
  assumes r: "represents s (c # st)" and i: "i + 1 < length indices"
    and close: "unat (indices ! (i + 1)) = pos + length body + 1"
    and d: "drop pos buf = 34 # body @ 34 # t"
  shows "case and_then (map_err (\<lambda>code. parse_error_new code pos) (validate_span_scalar body)) (\<lambda>_. walk_string pos c) of
      Ok c' \<Rightarrow> \<exists>s'. eager_dispatch tgt buf indices max_depth s c pos 34 i = Ok (s', pos + length body + 2, i + 2) \<and>
        represents s' (c' # st)
    | Err e \<Rightarrow> eager_dispatch tgt buf indices max_depth s c pos 34 i = Err e
    | Panic \<Rightarrow> False"
proof -
  have len: "length buf = pos + length body + 2 + length t"
    using length_drop_eq[OF d] by simp
  have nth: "buf ! (pos + length body + 1) = 34"
    using drop_eq_nth[of pos buf "34 # body @ [34]" t "length body + 1"] d by (simp add: nth_append)
  have sl: "slice (pos + 1) (pos + length body + 1) buf = body"
    using slice_of_drop[of pos buf "[34]" body "34 # t"] d by (simp add: add.commute add.left_commute)
  have dis: "eager_dispatch tgt buf indices max_depth s c pos 34 i =
    and_then (map_err (\<lambda>code. parse_error_new code pos) (validate_span_scalar body)) (\<lambda>_.
              if c = ObjAfterOpen \<or> c = ObjAfterComma
              then Ok (stack_set_last ObjAfterKey s, pos + length body + 1 + 1, i + 2)
              else if expects_value c
              then Ok (stack_set_last (parent_after_value c) s, pos + length body + 1 + 1, i + 2)
              else Err (parse_error_new QJSON_PARSE_ERROR pos))"
    using i nth len unfolding eager_dispatch_def Let_def close sl validate_string_span_eq by simp
  have key: "represents (stack_set_last ObjAfterKey s) (ObjAfterKey # st)" if "c = ObjAfterOpen \<or> c = ObjAfterComma"
    using r that by (intro represents_set_last) (auto simp: is_root_def)
  have val: "represents (stack_set_last (parent_after_value c) s) (parent_after_value c # st)"
    using r by (rule represents_set_last) auto
  consider (ok) "validate_span_scalar body = Ok ()" | (err) e where "validate_span_scalar body = Err e"
    using validate_span_scalar_total[of body] by auto
  then show ?thesis
  proof cases
    case ok
    then show ?thesis
      unfolding dis walk_string_def using key val by simp
  next
    case err
    then show ?thesis unfolding dis by simp
  qed
qed

lemma eager_finish_walk:
  assumes r: "represents s (c # st)" and d: "drop n buf = gap" and n: "n \<le> length buf"
  shows "eager_finish buf s n = and_then (walk_gap n gap c) (\<lambda>c'.
    if st = [] \<and> c' = TopDone then Ok () else Err (parse_error_new QJSON_PARSE_ERROR (n + length gap)))"
proof -
  have len: "length buf = n + length gap"
    using d n by auto
  have gap: "consume_scalar_gap buf n (length buf) c = walk_gap n gap c"
    using consume_scalar_gap_walk[of n buf gap "[]" c] d n by (simp add: len)
  have fin: "(stack_len (stack_set_last c' s) \<noteq> 1 \<or> stack_buf (stack_set_last c' s) ! 0 \<noteq> TopDone) =
      (\<not> (st = [] \<and> c' = TopDone))" if "walk_gap n gap c = Ok c'" for c'
  proof -
    have "c' = c \<or> c' = parent_after_value c"
      using that by (auto simp: walk_gap_def Let_def split: if_splits)
    then have r': "represents (stack_set_last c' s) (c' # st)"
      using r by (intro represents_gap)
    have "stack_buf (stack_set_last c' s) ! 0 = c'" if "st = []"
    proof -
      from r' have "stack_inv (stack_set_last c' s)" "frames (stack_set_last c' s) = c' # st"
        by (simp_all add: represents_def)
      then show ?thesis
      proof (cases rule: stack_cases)
        case (array r)
        with that show ?thesis by simp
      next
        case vector
        with \<open>stack_inv (stack_set_last c' s)\<close> that show ?thesis by (auto simp: stack_inv_def)
      qed
    qed
    with represents_len[OF r'] show ?thesis by auto
  qed
  have last: "unwrap (stack_last s) = Ok c"
    using r by (simp add: represents_def unwrap_def stack_last_frames)
  show ?thesis
    unfolding eager_finish_def Let_def last and_then.simps gap
    by (rule and_then_cong) (auto simp only: fin len split: if_split)
qed

section \<open>The whole walk\<close>

lemma walk_gap_cases: "walk_gap n gap c = Ok c' \<Longrightarrow> c' = c \<or> c' = parent_after_value c"
  by (auto simp: walk_gap_def Let_def split: if_splits)

lemma eager_loop_walk:
  assumes "length buf < 2 ^ 32" "represents s st" "n \<le> length buf" "drop n buf = xs"
    "lex_run Outside xs = Outside" "drop i indices = offsets (lex_tokens Outside n xs) @ [U32_MAX]"
  shows "eager_loop tgt buf indices max_depth s n i = walk (unat max_depth) st n xs"
  using assms(2-)
proof (induction "length xs" arbitrary: s st n xs i rule: less_induct)
  case less
  obtain c st' where st: "st = c # st'"
    using less.prems(1) by (cases st) (auto simp: represents_def frames_ok_def)
  define gap where "gap = takeWhile (\<lambda>b. \<not> is_structural b) xs"
  define r where "r = dropWhile (\<lambda>b. \<not> is_structural b) xs"
  have xs: "xs = gap @ r" by (simp add: gap_def r_def)
  have gap_ns: "list_all (\<lambda>b. \<not> is_structural b) gap"
    by (auto simp: gap_def list_all_iff dest: set_takeWhileD)
  note lg = lex_gap[OF gap_ns]
  have w: "walk (unat max_depth) st n xs = and_then (walk_gap n gap c) (\<lambda>c'.
        case r of
          [] \<Rightarrow> if st' = [] \<and> c' = TopDone then Ok () else Err (parse_error_new QJSON_PARSE_ERROR (n + length gap))
        | b # t \<Rightarrow>
            if b = 34 then
              (case split_string t of
                 None \<Rightarrow> Err (parse_error_new QJSON_PARSE_ERROR (n + length gap))
               | Some (body, t') \<Rightarrow>
                   and_then (map_err (\<lambda>code. parse_error_new code (n + length gap)) (validate_span_scalar body)) (\<lambda>_.
                   and_then (walk_string (n + length gap) c') (\<lambda>c''.
                     walk (unat max_depth) (c'' # st') (n + length gap + length body + 2) t')))
            else and_then (walk_token (unat max_depth) (n + length gap) b (c' # st')) (\<lambda>st''. walk (unat max_depth) st'' (n + length gap + 1) t))"
    unfolding st walk.simps(2)[of _ c st' n xs] Let_def gap_def[symmetric] r_def[symmetric] ..
  show ?case
  proof (cases r)
    case Nil
    have toks: "lex_tokens Outside n xs = []"
      unfolding xs lg by (simp add: Nil)
    then have "drop i indices = U32_MAX # []" using less.prems(5) by simp
    from drop_eq_ConsD[OF this] have "eager_loop tgt buf indices max_depth s n i = eager_finish buf s n"
      by (simp add: eager_loop.simps[of tgt buf indices max_depth s n i])
    also have "\<dots> = walk (unat max_depth) st n xs"
      using eager_finish_walk[of s c st' n buf gap] less.prems xs Nil st w by simp
    finally show ?thesis .
  next
    case (Cons b t)
    define p where "p = n + length gap"
    have b: "is_structural b"
      using Cons unfolding r_def by (metis hd_dropWhile list.distinct(1) list.sel(1))
    have dp: "drop p buf = b # t"
      using drop_add[of n buf gap "b # t"] less.prems(3) xs Cons by (simp add: p_def)
    from drop_eq_ConsD[OF dp] have p: "p < length buf" "buf ! p = b" "drop (p + 1) buf = t" by auto
    have up: "unat (of_nat p :: u32) = p" "of_nat p \<noteq> U32_MAX"
    proof -
      show u: "unat (of_nat p :: u32) = p"
        using p(1) assms(1) by (intro unat_of_nat32) simp
      show "of_nat p \<noteq> U32_MAX"
      proof
        assume "of_nat p = U32_MAX"
        then have "p = 2 ^ 32 - 1" using u by simp
        with p(1) assms(1) show False by simp
      qed
    qed
    have gapw: "consume_scalar_gap buf n p c' = walk_gap n gap c'" for c'
      using consume_scalar_gap_walk[of n buf gap r c'] less.prems(2,3) xs by (simp add: p_def)
    obtain toks where toks: "lex_tokens Outside n xs = (p, b) # toks"
      "toks = lex_tokens (lex_step Outside b) (p + 1) t"
      unfolding xs lg Cons by (simp add: b p_def)
    with less.prems(5) have ind: "drop i indices = of_nat p # offsets toks @ [U32_MAX]" by simp
    from drop_eq_ConsD[OF this] have i: "i < length indices" "indices ! i = of_nat p"
      and ind': "drop (i + 1) indices = offsets toks @ [U32_MAX]" by auto
    have last: "unwrap (stack_last s) = Ok c"
      using less.prems(1) st by (simp add: represents_def unwrap_def stack_last_frames)
    have run: "lex_run (lex_step Outside b) t = Outside"
      using less.prems(4) unfolding xs lg Cons by simp
    have step: "eager_step tgt buf indices max_depth s n i = and_then (walk_gap n gap c) (\<lambda>c'.
        eager_dispatch tgt buf indices max_depth (stack_set_last c' s) c' p b i)"
      unfolding eager_step_def Let_def i(2) up(1) last gapw using p by (simp add: at_def)
    have loop: "eager_loop tgt buf indices max_depth s n i =
      and_then (eager_step tgt buf indices max_depth s n i) (\<lambda>(s', n', i'). eager_loop tgt buf indices max_depth s' n' i')"
      using i up(2) by (cases "eager_step tgt buf indices max_depth s n i")
        (auto simp: eager_loop.simps[of tgt buf indices max_depth s n i])
    show ?thesis
    proof (cases "walk_gap n gap c")
      case (Ok c')
      have rep: "represents (stack_set_last c' s) (c' # st')"
        using less.prems(1) walk_gap_cases[OF Ok] unfolding st by (intro represents_gap)
      show ?thesis
      proof (cases "b = 34")
        case False
        note dis = eager_dispatch_walk[OF rep False, where max_depth = max_depth and pos = p and tgt = tgt and buf = buf and indices = indices and i = i]
        have ls: "lex_step Outside b = Outside" using False by simp
        show ?thesis
        proof (cases "walk_token (unat max_depth) p b (c' # st')")
          case tok: (Ok st'')
          with dis obtain s' where s': "eager_dispatch tgt buf indices max_depth (stack_set_last c' s) c' p b i = Ok (s', p + 1, i + 1)"
            "represents s' st''" by auto
          have "eager_loop tgt buf indices max_depth s' (p + 1) (i + 1) = walk (unat max_depth) st'' (p + 1) t"
            using xs Cons s' p run ls ind' toks(2) by (intro less.hyps) auto
          with False Ok tok s'(1) Cons show ?thesis
            unfolding loop step w by (simp add: p_def)
        next
          case (Err e)
          with dis False Ok Cons show ?thesis
            unfolding loop step w by (simp add: p_def)
        next
          case Panic
          with dis show ?thesis by simp
        qed
      next
        case True
        then have ls: "lex_step Outside b = Inside" by simp
        then obtain body t' where sp: "split_string t = Some (body, t')"
          using run split_string_None[of t] by (cases "split_string t") auto
        note t = split_string_eq[OF sp] and lx = split_string_lex[OF sp]
        from toks(2) ls lx[of "p + 1"] have toks2: "toks = (p + length body + 1, 34) # lex_tokens Outside (p + length body + 2) t'"
          by (simp add: add.commute add.left_commute)
        have "p + length body + 1 < length buf"
          using length_drop_eq[OF dp] t by simp
        then have uc: "unat (of_nat (p + length body + 1) :: u32) = p + length body + 1"
          using assms(1) by (intro unat_of_nat32) simp
        have "drop (i + 1) indices = of_nat (p + length body + 1) # offsets (lex_tokens Outside (p + length body + 2) t') @ [U32_MAX]"
          using ind' toks2 by simp
        from drop_eq_ConsD[OF this] have i1: "i + 1 < length indices" "indices ! (i + 1) = of_nat (p + length body + 1)"
          and ind2: "drop (i + 2) indices = offsets (lex_tokens Outside (p + length body + 2) t') @ [U32_MAX]" by auto
        have "unat (indices ! (i + 1)) = p + length body + 1"
          unfolding i1(2) by (rule uc)
        moreover have "drop p buf = 34 # body @ 34 # t'"
          using dp True t by simp
        ultimately have dis: "case and_then (map_err (\<lambda>code. parse_error_new code p) (validate_span_scalar body)) (\<lambda>_. walk_string p c') of
            Ok c'' \<Rightarrow> \<exists>s'. eager_dispatch tgt buf indices max_depth (stack_set_last c' s) c' p 34 i = Ok (s', p + length body + 2, i + 2) \<and>
              represents s' (c'' # st')
          | Err e \<Rightarrow> eager_dispatch tgt buf indices max_depth (stack_set_last c' s) c' p 34 i = Err e
          | Panic \<Rightarrow> False"
          using rep i1(1) by (intro eager_dispatch_string)
        have w': "walk (unat max_depth) st n xs =
            and_then (and_then (map_err (\<lambda>code. parse_error_new code p) (validate_span_scalar body)) (\<lambda>_. walk_string p c'))
              (\<lambda>c''. walk (unat max_depth) (c'' # st') (p + length body + 2) t')"
          unfolding w using Ok Cons True sp
          by (cases "validate_span_scalar body") (simp_all add: p_def)
        show ?thesis
        proof (cases "and_then (map_err (\<lambda>code. parse_error_new code p) (validate_span_scalar body)) (\<lambda>_. walk_string p c')")
          case str: (Ok c'')
          with dis obtain s' where s': "eager_dispatch tgt buf indices max_depth (stack_set_last c' s) c' p 34 i = Ok (s', p + length body + 2, i + 2)"
            "represents s' (c'' # st')" by auto
          have "length t' < length xs"
            using xs Cons t by simp
          moreover have "drop (p + length body + 2) buf = t'"
            using drop_add[of p buf "34 # body @ [34]" t'] dp True t by simp
          ultimately have "eager_loop tgt buf indices max_depth s' (p + length body + 2) (i + 2) =
              walk (unat max_depth) (c'' # st') (p + length body + 2) t'"
            using s' ind2 run ls lx \<open>p + length body + 1 < length buf\<close> by (intro less.hyps) auto
          with True Ok str s'(1) show ?thesis
            unfolding loop step w' by simp
        next
          case (Err e)
          with dis True Ok show ?thesis
            unfolding loop step w' by simp
        next
          case Panic
          with dis show ?thesis by simp
        qed
      qed
    next
      case (Err e)
      then show ?thesis
        unfolding loop step w by simp
    next
      case Panic
      then show ?thesis
        unfolding loop step w by simp
    qed
  qed
qed

lemma validate_eager_values_walk:
  assumes "length buf < 2 ^ 32" "lex_run Outside buf = Outside"
  shows "validate_eager_values_with_offset tgt buf (offsets (tokens buf) @ [U32_MAX]) max_depth =
    walk (unat max_depth) [Top] 0 buf"
  unfolding validate_eager_values_with_offset_def
  using assms stack_init_frames
  by (intro eager_loop_walk) (simp_all add: tokens_def represents_def frames_ok_def is_root_def)

section \<open>Properties\<close>

text \<open>C7: The eager validator, which walks the index with a 64-frame array and a heap fallback as context stack, returns exactly what the abstract walk over the bytes with one list of contexts returns: the same acceptance, error code and error offset, and it never panics where the walk does not.\<close>

theorem eager_validation_refines_walk:
  assumes "length buf < 2 ^ 32" "lex_run Outside buf = Outside"
  shows "validate_eager_values_with_offset tgt buf (offsets (tokens buf) @ [U32_MAX]) max_depth =
    walk (unat max_depth) [Top] 0 buf"
  using assms by (rule validate_eager_values_walk)

theorem eager_validation_refines_walk_witness:
  "validate_eager_values_with_offset neon_target (js ''{`a`}'') (offsets (tokens (js ''{`a`}'')) @ [U32_MAX]) 2 =
    walk 2 [Top] 0 (js ''{`a`}'')"
  using eager_validation_refines_walk[of "js ''{`a`}''" neon_target 2] by simp

end
