(* ===== verification/Json_Grammar.thy ===== *)
theory Json_Grammar
  imports Unicode Numbers Lexer
begin

text \<open>
  The JSON grammar of RFC 8259 over bytes, with the nesting depth of containers as a bound: the
  specification of eager mode.
\<close>

definition ws :: "bytes \<Rightarrow> bool" where
  "ws w \<longleftrightarrow> list_all is_ws w"

text \<open>The interior of a string literal contains no unescaped quote and denotes code points.\<close>

definition unquoted :: "bytes \<Rightarrow> bool" where
  "unquoted body \<longleftrightarrow> lex_run Inside body = Inside \<and> lex_tokens Inside 0 body = []"

definition json_string :: "bytes \<Rightarrow> bool" where
  "json_string s \<longleftrightarrow> (\<exists>body cps. s = 34 # body @ [34] \<and> unquoted body \<and> string_denotes body cps)"

definition json_literal :: "bytes \<Rightarrow> bool" where
  "json_literal s \<longleftrightarrow> s = bs ''true'' \<or> s = bs ''false'' \<or> s = bs ''null''"

text \<open>
  \<open>json_value d s\<close>: \<open>s\<close> is a value with at most \<open>d\<close> levels of containers. \<open>json_elements\<close> and
  \<open>json_members\<close> are the non-empty contents of an array and an object, whitespace included.
\<close>

inductive json_value :: "nat \<Rightarrow> bytes \<Rightarrow> bool"
  and json_elements :: "nat \<Rightarrow> bytes \<Rightarrow> bool"
  and json_members :: "nat \<Rightarrow> bytes \<Rightarrow> bool" where
  jv_literal: "json_literal s \<Longrightarrow> json_value d s"
| jv_number: "json_number s \<Longrightarrow> json_value d s"
| jv_string: "json_string s \<Longrightarrow> json_value d s"
| jv_empty_array: "ws w \<Longrightarrow> json_value (Suc d) (91 # w @ [93])"
| jv_array: "json_elements d es \<Longrightarrow> json_value (Suc d) (91 # es @ [93])"
| jv_empty_object: "ws w \<Longrightarrow> json_value (Suc d) (123 # w @ [125])"
| jv_object: "json_members d ms \<Longrightarrow> json_value (Suc d) (123 # ms @ [125])"
| je_one: "ws w \<Longrightarrow> json_value d v \<Longrightarrow> ws w' \<Longrightarrow> json_elements d (w @ v @ w')"
| je_more: "ws w \<Longrightarrow> json_value d v \<Longrightarrow> ws w' \<Longrightarrow> json_elements d es \<Longrightarrow>
     json_elements d (w @ v @ w' @ 44 # es)"
| jm_one: "ws w \<Longrightarrow> json_string k \<Longrightarrow> ws w' \<Longrightarrow> ws w'' \<Longrightarrow> json_value d v \<Longrightarrow> ws w''' \<Longrightarrow>
     json_members d (w @ k @ w' @ 58 # w'' @ v @ w''')"
| jm_more: "ws w \<Longrightarrow> json_string k \<Longrightarrow> ws w' \<Longrightarrow> ws w'' \<Longrightarrow> json_value d v \<Longrightarrow> ws w''' \<Longrightarrow>
     json_members d ms \<Longrightarrow> json_members d (w @ k @ w' @ 58 # w'' @ v @ w''' @ 44 # ms)"

text \<open>A JSON text.\<close>

definition json_text :: "nat \<Rightarrow> bytes \<Rightarrow> bool" where
  "json_text d s \<longleftrightarrow> (\<exists>w v w'. s = w @ v @ w' \<and> ws w \<and> json_value d v \<and> ws w')"

section \<open>Whitespace\<close>

lemma ws_Nil [simp]: "ws []"
  and ws_Cons [simp]: "ws (b # w) \<longleftrightarrow> is_ws b \<and> ws w"
  and ws_append [simp]: "ws (w @ w') \<longleftrightarrow> ws w \<and> ws w'"
  by (simp_all add: ws_def)

lemma ws_no_structural: "ws w \<Longrightarrow> list_all (\<lambda>b. \<not> is_structural b) w"
  by (auto simp: ws_def list_all_iff dest: ws_not_structural)

section \<open>Scalars\<close>

text \<open>A literal or a number has no structural byte and neither starts nor ends with whitespace.\<close>

definition json_scalar :: "bytes \<Rightarrow> bool" where
  "json_scalar s \<longleftrightarrow> json_literal s \<or> json_number s"

lemma digit_not_structural: "is_digit c \<Longrightarrow> \<not> is_structural c \<and> \<not> is_ws c"
  by (auto simp: is_digit_def is_structural_def is_ws_def)

lemma json_number_bytes:
  assumes "json_number s" "c \<in> set s"
  shows "is_digit c \<or> c = 45 \<or> c = 46 \<or> c = 101 \<or> c = 69 \<or> c = 43"
  using assms unfolding json_number_def int_part_def frac_part_def exp_part_def
  by (auto simp: list_all_iff is_digit_def[of 48] dest: is_digit19_imp)

lemma json_scalar_no_structural:
  assumes "json_scalar s"
  shows "list_all (\<lambda>b. \<not> is_structural b) s" "\<forall>b \<in> set s. \<not> is_ws b"
proof -
  have "\<not> is_structural b \<and> \<not> is_ws b" if "b \<in> set s" for b
  proof (cases "json_number s")
    case True
    from json_number_bytes[OF this that] show ?thesis
      using digit_not_structural by (auto simp: is_structural_def is_ws_def)
  next
    case False
    with assms that show ?thesis
      by (auto simp: json_scalar_def json_literal_def is_structural_def is_ws_def)
  qed
  then show "list_all (\<lambda>b. \<not> is_structural b) s" "\<forall>b \<in> set s. \<not> is_ws b"
    by (auto simp: list_all_iff)
qed

lemma json_scalar_nonempty: "json_scalar s \<Longrightarrow> s \<noteq> []"
  using json_number_starts by (auto simp: json_scalar_def json_literal_def)

section \<open>Values seen by the lexer\<close>

text \<open>
  Reading a value leaves the lexer outside strings and the brackets paired, whatever is open
  around it.
\<close>

definition balanced :: "bytes \<Rightarrow> bool" where
  "balanced s \<longleftrightarrow> lex_run Outside s = Outside \<and>
     (\<forall>st n. pair_brackets st (lex_tokens Outside n s) = Inr st)"

lemma balanced_append: "balanced s \<Longrightarrow> balanced t \<Longrightarrow> balanced (s @ t)"
  by (simp add: balanced_def lex_tokens_append pair_brackets_append)

lemma balanced_plain: "list_all (\<lambda>b. \<not> is_structural b) s \<Longrightarrow> balanced s"
proof (induction s)
  case (Cons b s)
  then have "b \<noteq> 34" by auto
  with Cons show ?case
    by (simp add: balanced_def)
qed (simp add: balanced_def)

lemma balanced_ws: "ws w \<Longrightarrow> balanced w"
  by (intro balanced_plain ws_no_structural)

lemma balanced_sep: "balanced s \<Longrightarrow> balanced (44 # s)" "balanced s \<Longrightarrow> balanced (58 # s)"
  by (simp_all add: balanced_def)

lemma lex_tokens_Nil: "lex_tokens s m xs = [] \<Longrightarrow> lex_tokens s n xs = []"
proof -
  assume "lex_tokens s m xs = []"
  then have "lex_tokens s 0 xs = []"
    using lex_tokens_shift[of s 0 m xs] by simp
  then show ?thesis
    using lex_tokens_shift[of s 0 n xs] by simp
qed

lemma unquoted_tokens: "unquoted body \<Longrightarrow> lex_tokens Inside n body = []"
  by (auto simp: unquoted_def intro: lex_tokens_Nil)

lemma balanced_string: "json_string s \<Longrightarrow> balanced s"
  by (auto simp: json_string_def balanced_def unquoted_tokens lex_tokens_append)
    (simp_all add: unquoted_def)

lemma balanced_container:
  "balanced s \<Longrightarrow> balanced (91 # s @ [93])" "balanced s \<Longrightarrow> balanced (123 # s @ [125])"
  by (simp_all add: balanced_def lex_tokens_append pair_brackets_append)

lemma balanced_scalar: "json_literal s \<Longrightarrow> balanced s" "json_number s \<Longrightarrow> balanced s"
  by (rule balanced_plain, rule json_scalar_no_structural(1), simp add: json_scalar_def)+

lemmas balanced_intros = balanced_append balanced_sep balanced_ws balanced_string balanced_container
  balanced_scalar

lemma json_balanced:
  "json_value d s \<Longrightarrow> balanced s"
  "json_elements d es \<Longrightarrow> balanced es"
  "json_members d ms \<Longrightarrow> balanced ms"
  by (induction rule: json_value_json_elements_json_members.inducts)
    (simp_all add: balanced_intros)

lemma json_text_well_bracketed: "json_text d buf \<Longrightarrow> well_bracketed buf"
proof -
  assume "json_text d buf"
  then have "balanced buf"
    unfolding json_text_def by (blast intro: balanced_intros json_balanced(1))
  then show ?thesis
    by (simp add: balanced_def well_bracketed_def tokens_def)
qed

section \<open>Depth is monotone\<close>

lemma json_value_mono:
  "json_value d s \<Longrightarrow> d \<le> d' \<Longrightarrow> json_value d' s"
  "json_elements d es \<Longrightarrow> d \<le> d' \<Longrightarrow> json_elements d' es"
  "json_members d ms \<Longrightarrow> d \<le> d' \<Longrightarrow> json_members d' ms"
proof (induction arbitrary: d' and d' and d' rule: json_value_json_elements_json_members.inducts)
  fix w d d' assume "ws w" "Suc d \<le> d'"
  then show "json_value d' (91 # w @ [93])" "json_value d' (123 # w @ [125])"
    by (cases d'; blast intro: jv_empty_array jv_empty_object)+
next
  fix d es d' assume IH: "\<And>d'. d \<le> d' \<Longrightarrow> json_elements d' es" and d: "Suc d \<le> d'"
  from d obtain e where e: "d' = Suc e" "d \<le> e" by (cases d') auto
  from jv_array[OF IH[OF e(2)]] show "json_value d' (91 # es @ [93])"
    by (simp add: e(1))
next
  fix d ms d' assume IH: "\<And>d'. d \<le> d' \<Longrightarrow> json_members d' ms" and d: "Suc d \<le> d'"
  from d obtain e where e: "d' = Suc e" "d \<le> e" by (cases d') auto
  from jv_object[OF IH[OF e(2)]] show "json_value d' (123 # ms @ [125])"
    by (simp add: e(1))
qed (simp_all add: json_value_json_elements_json_members.intros)

end
