(* ===== verification/Eager_Correct.thy ===== *)
theory Eager_Correct
  imports Eager_Refine Json_Grammar
begin

text \<open>The walk accepts exactly the JSON texts of the grammar within the depth limit.\<close>

section \<open>Scalars and gaps\<close>

lemma validate_scalar_iff:
  assumes "s \<noteq> []"
  shows "validate_scalar s = Ok () \<longleftrightarrow> json_scalar s"
proof
  assume "validate_scalar s = Ok ()"
  then show "json_scalar s"
    by (auto simp: validate_scalar_def json_scalar_def json_literal_def validate_number_iff split: if_splits)
next
  assume s: "json_scalar s"
  show "validate_scalar s = Ok ()"
  proof (cases "json_literal s")
    case True
    then show ?thesis by (auto simp: json_literal_def validate_scalar_def at_def)
  next
    case False
    with s have n: "json_number s" by (simp add: json_scalar_def)
    then have "starts_number (s ! 0)" using json_number_starts by blast
    then have "s ! 0 = 45 \<or> is_digit (s ! 0)" "s ! 0 \<noteq> 116" "s ! 0 \<noteq> 102" "s ! 0 \<noteq> 110"
      by (auto simp: starts_number_def is_digit_def)
    with n assms show ?thesis
      by (auto simp: validate_scalar_def at_def validate_number_complete)
  qed
qed

lemma strip_right_empty: "strip_right g = [] \<longleftrightarrow> ws g"
  by (auto simp: strip_right_def ws_def list_all_iff)

lemma walk_gap_ws: "ws w \<Longrightarrow> walk_gap n w c = Ok c"
proof -
  assume "ws w"
  then have "dropWhile is_ws w = []" by (auto simp: ws_def list_all_iff)
  then show ?thesis unfolding walk_gap_def by (simp only: Let_def strip_right_def) simp
qed

lemma walk_gap_scalar:
  assumes "ws w" "json_scalar v" "ws w'" "expects_value c"
  shows "walk_gap n (w @ v @ w') c = Ok (parent_after_value c)"
proof -
  have v: "v \<noteq> []" "\<forall>b \<in> set v. \<not> is_ws b"
    using assms(2) json_scalar_nonempty json_scalar_no_structural(2) by auto
  have "dropWhile is_ws (w @ v @ w') = v @ w'"
    using assms(1) v by (cases v) (auto simp: ws_def list_all_iff dropWhile_append)
  moreover have "strip_right (v @ w') = v"
  proof -
    have "dropWhile is_ws (rev w' @ rev v) = rev v"
      using assms(3) v by (cases v rule: rev_cases) (auto simp: ws_def list_all_iff dropWhile_append)
    then show ?thesis by (simp add: strip_right_def)
  qed
  ultimately show ?thesis
    using assms(2,4) v by (simp add: walk_gap_def validate_scalar_iff)
qed

lemma walk_gap_Ok:
  assumes "walk_gap n gap c = Ok c'"
  shows "ws gap \<and> c' = c \<or>
    (\<exists>w v w'. gap = w @ v @ w' \<and> ws w \<and> json_scalar v \<and> ws w' \<and> expects_value c \<and> c' = parent_after_value c)"
proof -
  define w where "w = takeWhile is_ws gap"
  define g where "g = dropWhile is_ws gap"
  have gap: "gap = w @ g" by (simp add: w_def g_def)
  have w: "ws w" by (auto simp: w_def ws_def list_all_iff dest: set_takeWhileD)
  obtain w' where w': "g = strip_right g @ w'" "ws w'"
    using strip_right_append unfolding ws_def by blast
  show ?thesis
  proof (cases "strip_right g = []")
    case True
    then have "ws g" by (simp add: strip_right_empty)
    then have "ws gap" using w by (simp add: gap)
    with assms True show ?thesis by (simp add: walk_gap_def Let_def flip: g_def)
  next
    case False
    with assms have "expects_value c" "validate_scalar (strip_right g) = Ok ()" "c' = parent_after_value c"
      by (auto simp: walk_gap_def g_def[symmetric] Let_def split: if_splits)
    moreover have "gap = w @ strip_right g @ w'" by (simp add: gap flip: w'(1))
    moreover from calculation have "json_scalar (strip_right g)"
      using False validate_scalar_iff by simp
    ultimately show ?thesis
      using w w'(2) by (intro disjI2 exI[of _ w] exI[of _ "strip_right g"] exI[of _ w']) simp
  qed
qed

section \<open>Steps of the walk\<close>

lemma split_gap:
  assumes "list_all (\<lambda>b. \<not> is_structural b) gap" "t = [] \<or> is_structural (hd t)"
  shows "takeWhile (\<lambda>b. \<not> is_structural b) (gap @ t) = gap" "dropWhile (\<lambda>b. \<not> is_structural b) (gap @ t) = t"
  using assms by (cases t; auto simp: list_all_iff takeWhile_append dropWhile_append)+

lemma walk_split:
  assumes "list_all (\<lambda>b. \<not> is_structural b) gap" "t = [] \<or> is_structural (hd t)"
  shows "walk m (c # st) n (gap @ t) = and_then (walk_gap n gap c) (\<lambda>c'. walk m (c' # st) (n + length gap) t)"
proof (cases "walk_gap n gap c")
  case (Ok c')
  have "walk_gap (n + length gap) [] c' = Ok c'"
    by (rule walk_gap_ws) simp
  moreover have "takeWhile (\<lambda>b. \<not> is_structural b) t = []" "dropWhile (\<lambda>b. \<not> is_structural b) t = t"
    using split_gap[of "[]" t] assms(2) by simp_all
  ultimately show ?thesis
    unfolding walk.simps(2)[of m c st n "gap @ t"] walk.simps(2)[of m c' st "n + length gap" t]
      split_gap[OF assms] Let_def Ok and_then.simps
    by (simp only: list.size(3) add_0_right and_then.simps)
qed (simp_all add: walk.simps(2)[of m c st n "gap @ t"] split_gap[OF assms] Let_def)

lemma walk_structural:
  assumes "is_structural b" "b \<noteq> 34"
  shows "walk m (c # st) n (b # t) = and_then (walk_token m n b (c # st)) (\<lambda>st'. walk m st' (n + 1) t)"
  using assms walk_gap_ws[of "[]" n c] by (simp add: walk.simps(2)[of m c st n "b # t"] Let_def)

lemma walk_quote:
  assumes "split_string t = Some (body, t')"
  shows "walk m (c # st) n (34 # t) =
    and_then (map_err (\<lambda>code. parse_error_new code n) (validate_span_scalar body)) (\<lambda>_.
    and_then (walk_string n c) (\<lambda>c'. walk m (c' # st) (n + length body + 2) t'))"
  using assms walk_gap_ws[of "[]" n c] by (simp add: walk.simps(2)[of m c st n "34 # t"] Let_def)

lemma walk_end: "walk m [TopDone] n [] = Ok ()"
  using walk_gap_ws[of "[]" n TopDone] by (simp add: walk.simps(2)[of m TopDone "[]" n "[]"] Let_def)

lemma split_string_unquoted: "unquoted body \<Longrightarrow> split_string (body @ 34 # t) = Some (body, t)"
proof (induction body rule: split_string.induct)
  case 1
  then show ?case by (cases t) simp_all
next
  case (2 b)
  then show ?case by (cases t) (auto simp: unquoted_def split: if_splits)
next
  case (3 b c body)
  show ?case
  proof (cases "b = 92")
    case True
    with "3.prems" have "lex_tokens Inside 2 body = []" "lex_run Inside body = Inside"
      by (auto simp: unquoted_def numeral_2_eq_2)
    then have "unquoted body" by (auto simp: unquoted_def intro: lex_tokens_Nil)
    with True "3.IH"(1) "3.prems" show ?thesis by (auto simp: unquoted_def)
  next
    case False
    with "3.prems" have b: "b \<noteq> 34" by (auto simp: unquoted_def)
    with False "3.prems" have "lex_tokens Inside 1 (c # body) = []" "lex_run Inside (c # body) = Inside"
      by (auto simp: unquoted_def)
    then have "unquoted (c # body)" unfolding unquoted_def by (blast intro: lex_tokens_Nil)
    with False b "3.IH"(2) show ?thesis by simp
  qed
qed

lemma split_string_is_unquoted: "split_string t = Some (body, t') \<Longrightarrow> unquoted body"
proof (induction t arbitrary: body rule: split_string.induct)
  case (2 b)
  then show ?case by (auto simp: unquoted_def split: if_splits)
next
  case (3 b c t)
  consider "b = 34" "body = []" | body' where "b = 92" "split_string t = Some (body', t')" "body = b # c # body'"
    | body' where "b \<noteq> 34" "b \<noteq> 92" "split_string (c # t) = Some (body', t')" "body = b # body'"
    using "3.prems" by (auto split: if_splits)
  then show ?case
  proof cases
    case 1
    then show ?thesis by (simp add: unquoted_def)
  next
    case 2
    with "3.IH"(1) have "unquoted body'" by simp
    with 2 show ?thesis by (auto simp: unquoted_def intro: lex_tokens_Nil)
  next
    case 3
    with "3.IH"(2) have "unquoted body'" by simp
    with 3 show ?thesis by (auto simp: unquoted_def intro: lex_tokens_Nil)
  qed
qed simp

lemma walk_json_string:
  assumes "json_string k"
  shows "walk m (c # st) n (k @ t) = and_then (walk_string n c) (\<lambda>c'. walk m (c' # st) (n + length k) t)"
proof -
  obtain body cps where k: "k = 34 # body @ [34]" "unquoted body" "string_denotes body cps"
    using assms by (auto simp: json_string_def)
  then have "validate_span_scalar body = Ok ()"
    by (auto simp: validate_span_scalar_iff)
  with walk_quote[OF split_string_unquoted[OF k(2), of t], of m c st n] show ?thesis
    by (simp add: k(1))
qed

section \<open>Completeness\<close>

lemma walk_ws: "ws w \<Longrightarrow> t = [] \<or> is_structural (hd t) \<Longrightarrow>
    walk m (c # st) n (w @ t) = walk m (c # st) (n + length w) t"
  by (simp add: walk_split ws_no_structural walk_gap_ws)

lemma walk_scalar:
  assumes "ws w" "json_scalar v" "ws w'" "expects_value c" "t = [] \<or> is_structural (hd t)"
  shows "walk m (c # st) n (w @ v @ w' @ t) = walk m (parent_after_value c # st) (n + length (w @ v @ w')) t"
proof -
  have "list_all (\<lambda>b. \<not> is_structural b) (w @ v @ w')"
    using assms by (simp add: ws_no_structural json_scalar_no_structural)
  from walk_split[OF this assms(5), of m c st n] walk_gap_scalar[OF assms(1-4), of n] show ?thesis by simp
qed

text \<open>Acceptance does not depend on the offset, which only errors report.\<close>

definition accepts :: "nat \<Rightarrow> ctx_kind list \<Rightarrow> bytes \<Rightarrow> bool" where
  "accepts m st s \<longleftrightarrow> (\<forall>n. walk m st n s = Ok ())"

abbreviation starts_structural :: "bytes \<Rightarrow> bool" where
  "starts_structural t \<equiv> t = [] \<or> is_structural (hd t)"

lemma accepts_ws: "ws w \<Longrightarrow> starts_structural t \<Longrightarrow> accepts m (c # st) t \<Longrightarrow> accepts m (c # st) (w @ t)"
  by (simp add: accepts_def walk_ws)

lemma accepts_scalar:
  "ws w \<Longrightarrow> json_scalar v \<Longrightarrow> ws w' \<Longrightarrow> expects_value c \<Longrightarrow> starts_structural t \<Longrightarrow>
     accepts m (parent_after_value c # st) t \<Longrightarrow> accepts m (c # st) (w @ v @ w' @ t)"
  by (simp add: accepts_def walk_scalar)

lemma accepts_string_value:
  assumes "ws w" "json_string v" "ws w'" "expects_value c" "starts_structural t"
    "accepts m (parent_after_value c # st) t"
  shows "accepts m (c # st) (w @ v @ w' @ t)"
proof -
  have "accepts m (c # st) (v @ w' @ t)"
    using assms accepts_ws[of w' t m "parent_after_value c" st]
    by (auto simp: accepts_def walk_json_string walk_string_def expects_value_def)
  moreover have "starts_structural (v @ w' @ t)"
    using assms(2) by (auto simp: json_string_def)
  ultimately show ?thesis using assms(1) by (simp add: accepts_ws)
qed

lemma accepts_key:
  assumes "ws w" "json_string k" "ws w'" "c = ObjAfterOpen \<or> c = ObjAfterComma" "starts_structural t"
    "accepts m (ObjAfterKey # st) t"
  shows "accepts m (c # st) (w @ k @ w' @ t)"
proof -
  have "accepts m (c # st) (k @ w' @ t)"
    using assms accepts_ws[of w' t m "ObjAfterKey" st]
    by (auto simp: accepts_def walk_json_string walk_string_def)
  moreover have "starts_structural (k @ w' @ t)"
    using assms(2) by (auto simp: json_string_def)
  ultimately show ?thesis using assms(1) by (simp add: accepts_ws)
qed

lemma accepts_token:
  assumes "is_structural b" "b \<noteq> 34" "\<And>n. walk_token m n b (c # st) = Ok st'" "accepts m st' t"
  shows "accepts m (c # st) (b # t)"
  using assms by (simp add: accepts_def walk_structural del: walk_token.simps)

text \<open>A container: \<open>k\<close> is the context after its opener and \<open>cl\<close> its closer.\<close>

lemma accepts_container:
  assumes "ws w" "ws w'" "expects_value c" "length (c # st) \<le> m" "starts_structural t"
    and o': "op' = 91 \<and> k = ArrAfterOpen \<or> op' = 123 \<and> k = ObjAfterOpen"
    and body: "accepts m (k # parent_after_value c # st) (s @ w' @ t)"
  shows "accepts m (c # st) (w @ (op' # s) @ w' @ t)"
proof -
  have "accepts m (c # st) (op' # s @ w' @ t)"
    using assms(3,4) o' body by (intro accepts_token[where st' = "k # parent_after_value c # st"]) auto
  with assms(1) o' show ?thesis
    using accepts_ws[of w "op' # s @ w' @ t" m c st] by auto
qed

lemma accepts_close:
  assumes "cl = 93 \<and> (k = ArrAfterOpen \<or> k = ArrAfterValue) \<or> cl = 125 \<and> (k = ObjAfterOpen \<or> k = ObjAfterValue)"
    "ws w'" "starts_structural t" "accepts m (c # st) t"
  shows "accepts m (k # c # st) (cl # w' @ t)"
proof -
  have "accepts m (c # st) (w' @ t)" using assms by (intro accepts_ws)
  with assms(1) show ?thesis
    by (intro accepts_token[where st' = "c # st"]) auto
qed

lemma json_accepts:
  "json_value d v \<Longrightarrow> expects_value c \<Longrightarrow> d + length (c # st) \<le> m + 1 \<Longrightarrow> ws w \<Longrightarrow> ws w' \<Longrightarrow>
     starts_structural t \<Longrightarrow> accepts m (parent_after_value c # st) t \<Longrightarrow> accepts m (c # st) (w @ v @ w' @ t)"
  "json_elements d es \<Longrightarrow> c = ArrAfterOpen \<or> c = ArrAfterComma \<Longrightarrow> d + length (c # st) \<le> m + 1 \<Longrightarrow>
     accepts m (ArrAfterValue # st) (93 # t) \<Longrightarrow> accepts m (c # st) (es @ 93 # t)"
  "json_members d ms \<Longrightarrow> c = ObjAfterOpen \<or> c = ObjAfterComma \<Longrightarrow> d + length (c # st) \<le> m + 1 \<Longrightarrow>
     accepts m (ObjAfterValue # st) (125 # t) \<Longrightarrow> accepts m (c # st) (ms @ 125 # t)"
proof (induction arbitrary: c st w w' t and c st t and c st t
    rule: json_value_json_elements_json_members.inducts)
  case (jv_literal s d)
  then show ?case by (intro accepts_scalar) (auto simp: json_scalar_def)
next
  case (jv_number s d)
  then show ?case by (intro accepts_scalar) (auto simp: json_scalar_def)
next
  case (jv_string s d)
  then show ?case by (intro accepts_string_value)
next
  case (jv_empty_array v d)
  have "accepts m (ArrAfterOpen # parent_after_value c # st) (v @ 93 # w' @ t)"
    using jv_empty_array by (intro accepts_ws accepts_close) auto
  then show ?case
    using jv_empty_array accepts_container[of w w' c st m t 91 ArrAfterOpen "v @ [93]"] by simp
next
  case (jv_array d es)
  have "accepts m (ArrAfterOpen # parent_after_value c # st) (es @ 93 # w' @ t)"
    using jv_array by (intro jv_array.IH accepts_close) auto
  then show ?case
    using jv_array accepts_container[of w w' c st m t 91 ArrAfterOpen "es @ [93]"] by simp
next
  case (jv_empty_object v d)
  have "accepts m (ObjAfterOpen # parent_after_value c # st) (v @ 125 # w' @ t)"
    using jv_empty_object by (intro accepts_ws accepts_close) auto
  then show ?case
    using jv_empty_object accepts_container[of w w' c st m t 123 ObjAfterOpen "v @ [125]"] by simp
next
  case (jv_object d ms)
  have "accepts m (ObjAfterOpen # parent_after_value c # st) (ms @ 125 # w' @ t)"
    using jv_object by (intro jv_object.IH accepts_close) auto
  then show ?case
    using jv_object accepts_container[of w w' c st m t 123 ObjAfterOpen "ms @ [125]"] by simp
next
  case (je_one w d v w')
  have "accepts m (c # st) (w @ v @ w' @ 93 # t)"
    using je_one by (intro je_one.IH) (auto simp: expects_value_def)
  then show ?case by simp
next
  case (je_more w d v w' es)
  have "accepts m (ArrAfterComma # st) (es @ 93 # t)"
    using je_more by (intro je_more.IH(2)) auto
  then have "accepts m (ArrAfterValue # st) (44 # es @ 93 # t)"
    by (intro accepts_token[where st' = "ArrAfterComma # st"]) auto
  then have "accepts m (c # st) (w @ v @ w' @ 44 # es @ 93 # t)"
    using je_more by (intro je_more.IH(1)) (auto simp: expects_value_def)
  then show ?case by simp
next
  case (jm_one w k w' w'' d v u)
  have "accepts m (ObjAfterColon # st) (w'' @ v @ u @ 125 # t)"
    using jm_one by (intro jm_one.IH) (auto simp: expects_value_def)
  then have "accepts m (ObjAfterKey # st) (58 # w'' @ v @ u @ 125 # t)"
    by (intro accepts_token[where st' = "ObjAfterColon # st"]) auto
  then have "accepts m (c # st) (w @ k @ w' @ 58 # w'' @ v @ u @ 125 # t)"
    using jm_one by (intro accepts_key) auto
  then show ?case by simp
next
  case (jm_more w k w' w'' d v u ms)
  have "accepts m (ObjAfterComma # st) (ms @ 125 # t)"
    using jm_more by (intro jm_more.IH(2)) auto
  then have "accepts m (ObjAfterValue # st) (44 # ms @ 125 # t)"
    by (intro accepts_token[where st' = "ObjAfterComma # st"]) auto
  then have "accepts m (ObjAfterColon # st) (w'' @ v @ u @ 44 # ms @ 125 # t)"
    using jm_more by (intro jm_more.IH(1)) (auto simp: expects_value_def)
  then have "accepts m (ObjAfterKey # st) (58 # w'' @ v @ u @ 44 # ms @ 125 # t)"
    by (intro accepts_token[where st' = "ObjAfterColon # st"]) auto
  then have "accepts m (c # st) (w @ k @ w' @ 58 # w'' @ v @ u @ 44 # ms @ 125 # t)"
    using jm_more by (intro accepts_key) auto
  then show ?case by simp
qed

lemma json_text_accepted:
  assumes "json_text m buf"
  shows "accepts m [Top] buf"
proof -
  obtain w v w' where v: "buf = w @ v @ w'" "ws w" "json_value m v" "ws w'"
    using assms by (auto simp: json_text_def)
  have "accepts m [TopDone] []" by (simp add: accepts_def walk_end)
  with v have "accepts m [Top] (w @ v @ w' @ [])"
    by (intro json_accepts(1)) (auto simp: expects_value_def)
  with v show ?thesis by simp
qed

section \<open>Soundness\<close>

text \<open>
  \<open>closes d c s\<close>: \<open>s\<close> completes the container of context \<open>c\<close>, its closer included, with at most
  \<open>d\<close> levels inside; \<open>continues m st s\<close>: \<open>s\<close> completes all open containers in turn.
\<close>

definition after_value :: "nat \<Rightarrow> (nat \<Rightarrow> bytes \<Rightarrow> bool) \<Rightarrow> u8 \<Rightarrow> bytes \<Rightarrow> bool" where
  "after_value d items cl s \<longleftrightarrow> (\<exists>w. ws w \<and> (s = w @ [cl] \<or> (\<exists>es. s = w @ 44 # es @ [cl] \<and> items d es)))"

fun closes :: "nat \<Rightarrow> ctx_kind \<Rightarrow> bytes \<Rightarrow> bool" where
  "closes d Top s = json_text d s"
| "closes d TopDone s = ws s"
| "closes d ArrAfterOpen s = (\<exists>x. s = x @ [93] \<and> (ws x \<or> json_elements d x))"
| "closes d ArrAfterValue s = after_value d json_elements 93 s"
| "closes d ArrAfterComma s = (\<exists>es. s = es @ [93] \<and> json_elements d es)"
| "closes d ObjAfterOpen s = (\<exists>x. s = x @ [125] \<and> (ws x \<or> json_members d x))"
| "closes d ObjAfterValue s = after_value d json_members 125 s"
| "closes d ObjAfterComma s = (\<exists>ms. s = ms @ [125] \<and> json_members d ms)"
| "closes d ObjAfterColon s = (\<exists>w v x. s = w @ v @ x \<and> ws w \<and> json_value d v \<and> after_value d json_members 125 x)"
| "closes d ObjAfterKey s =
     (\<exists>u w v x. s = u @ 58 # w @ v @ x \<and> ws u \<and> ws w \<and> json_value d v \<and> after_value d json_members 125 x)"

fun continues :: "nat \<Rightarrow> ctx_kind list \<Rightarrow> bytes \<Rightarrow> bool" where
  "continues m [] s = False"
| "continues m [c] s = closes m c s"
| "continues m (c # st) s = (\<exists>x y. s = x @ y \<and> closes (m + 1 - length (c # st)) c x \<and> continues m st y)"

lemma continues_Cons:
  "st \<noteq> [] \<Longrightarrow> continues m (c # st) s \<longleftrightarrow>
     (\<exists>x y. s = x @ y \<and> closes (m - length st) c x \<and> continues m st y)"
  by (cases st) simp_all

lemma json_elements_ws:
  assumes "ws w" "json_elements d es"
  shows "json_elements d (w @ es)"
  using assms(2)
proof (cases rule: json_elements.cases)
  case (je_one w0 v w')
  with assms(1) json_value_json_elements_json_members.je_one[of "w @ w0" d v w'] show ?thesis by simp
next
  case (je_more w0 v w' es')
  with assms(1) json_value_json_elements_json_members.je_more[of "w @ w0" d v w' es'] show ?thesis by simp
qed

lemma json_members_ws:
  assumes "ws w" "json_members d ms"
  shows "json_members d (w @ ms)"
  using assms(2)
proof (cases rule: json_members.cases)
  case (jm_one w0 k w1 w2 v w3)
  with assms(1) json_value_json_elements_json_members.jm_one[of "w @ w0" k w1 w2 d v w3] show ?thesis by simp
next
  case (jm_more w0 k w1 w2 v w3 ms')
  with assms(1) json_value_json_elements_json_members.jm_more[of "w @ w0" k w1 w2 d v w3 ms'] show ?thesis by simp
qed

lemma after_value_ws: "ws w \<Longrightarrow> after_value d items cl s \<Longrightarrow> after_value d items cl (w @ s)"
  unfolding after_value_def by (metis append.assoc ws_append)

lemma closes_ws: "ws w \<Longrightarrow> closes d c s \<Longrightarrow> closes d c (w @ s)"
proof (cases c)
  case Top
  assume "ws w" "closes d c s"
  then show ?thesis
    using Top by (auto simp: json_text_def) (metis append.assoc ws_append)
next
  case ArrAfterOpen
  assume "ws w" "closes d c s"
  then show ?thesis
    using ArrAfterOpen by (auto intro: json_elements_ws)
next
  case ObjAfterOpen
  assume "ws w" "closes d c s"
  then show ?thesis
    using ObjAfterOpen by (auto intro: json_members_ws)
next
  case ObjAfterColon
  assume "ws w" "closes d c s"
  then show ?thesis
    using ObjAfterColon by simp (metis append.assoc ws_append)
next
  case ObjAfterKey
  assume "ws w" "closes d c s"
  then show ?thesis
    using ObjAfterKey by simp (metis append.assoc ws_append)
qed (auto intro: json_elements_ws json_members_ws after_value_ws)

lemma elements_after_value:
  assumes "json_value d v" "after_value d json_elements 93 s"
  shows "\<exists>es. v @ s = es @ [93] \<and> json_elements d es"
proof -
  from assms(2) obtain w where w: "ws w" "s = w @ [93] \<or> (\<exists>es. s = w @ 44 # es @ [93] \<and> json_elements d es)"
    by (auto simp: after_value_def)
  with assms(1) je_one[of "[]" d v w] je_more[of "[]" d v w] show ?thesis
    by (fastforce simp flip: append_assoc)
qed

lemma members_after_value:
  assumes "json_string k" "ws u" "ws w" "json_value d v" "after_value d json_members 125 s"
  shows "\<exists>ms. k @ u @ 58 # w @ v @ s = ms @ [125] \<and> json_members d ms"
proof -
  from assms(5) obtain w' where w': "ws w'" "s = w' @ [125] \<or> (\<exists>ms. s = w' @ 44 # ms @ [125] \<and> json_members d ms)"
    by (auto simp: after_value_def)
  from w'(2) show ?thesis
  proof (elim disjE exE conjE)
    assume "s = w' @ [125]"
    with assms w' jm_one[of "[]" k u w d v w'] show ?thesis
      by (intro exI[of _ "k @ u @ 58 # w @ v @ w'"]) simp
  next
    fix ms assume "s = w' @ 44 # ms @ [125]" "json_members d ms"
    with assms w' jm_more[of "[]" k u w d v w' ms] show ?thesis
      by (intro exI[of _ "k @ u @ 58 # w @ v @ w' @ 44 # ms"]) simp
  qed
qed

lemma closes_value:
  assumes "json_value d v" "expects_value c" "closes d (parent_after_value c) s"
  shows "closes d c (v @ s)"
  using expects_value_cases[OF assms(2)]
proof (elim disjE)
  assume "c = Top"
  with assms show ?thesis
    by (simp add: json_text_def) (metis append_Nil ws_Nil)
next
  assume "c = ArrAfterOpen"
  with assms elements_after_value[OF assms(1), of s] show ?thesis by auto
next
  assume "c = ArrAfterComma"
  with assms elements_after_value[OF assms(1), of s] show ?thesis by auto
next
  assume "c = ObjAfterColon"
  with assms show ?thesis
    by simp (metis append_Nil ws_Nil)
qed

lemma closes_key:
  assumes "json_string k" "c = ObjAfterOpen \<or> c = ObjAfterComma" "closes d ObjAfterKey s"
  shows "closes d c (k @ s)"
proof -
  from assms(3) obtain u w v x where "s = u @ 58 # w @ v @ x" "ws u" "ws w" "json_value d v"
    "after_value d json_members 125 x" by auto
  with members_after_value[OF assms(1), of u w d v x] assms(2) show ?thesis by auto
qed

lemma closes_token:
  "closes d ArrAfterComma s \<Longrightarrow> closes d ArrAfterValue (44 # s)"
  "closes d ObjAfterComma s \<Longrightarrow> closes d ObjAfterValue (44 # s)"
  "closes d ArrAfterOpen [93]" "closes d ArrAfterValue [93]"
  "closes d ObjAfterOpen [125]" "closes d ObjAfterValue [125]"
  by (auto simp: after_value_def intro: exI[of _ "[]"])

lemma closes_colon: "closes d ObjAfterColon s \<Longrightarrow> closes d ObjAfterKey (58 # s)"
  by simp (metis append_Nil ws_Nil)

lemma closes_opened:
  "closes d ArrAfterOpen x \<Longrightarrow> json_value (Suc d) (91 # x)"
  "closes d ObjAfterOpen x \<Longrightarrow> json_value (Suc d) (123 # x)"
  by (auto intro: jv_empty_array jv_array jv_empty_object jv_object)

lemma continues_map:
  assumes "continues m (c' # st) s"
    and "\<And>x. closes (m - length st) c' x \<Longrightarrow> closes (m - length st) c (p @ x)"
  shows "continues m (c # st) (p @ s)"
proof (cases "st = []")
  case True
  with assms show ?thesis by simp
next
  case False
  from assms(1) obtain x y where "s = x @ y" "closes (m - length st) c' x" "continues m st y"
    by (auto simp: continues_Cons[OF False])
  with assms(2)[of x] show ?thesis
    unfolding continues_Cons[OF False] by (metis append.assoc)
qed

lemma continues_ws: "ws w \<Longrightarrow> continues m (c # st) s \<Longrightarrow> continues m (c # st) (w @ s)"
  by (rule continues_map) (auto intro: closes_ws)

lemma continues_value:
  "json_value (m - length st) v \<Longrightarrow> expects_value c \<Longrightarrow> continues m (parent_after_value c # st) s \<Longrightarrow>
     continues m (c # st) (v @ s)"
  by (rule continues_map) (auto intro: closes_value)

lemma continues_close:
  assumes "\<And>d. closes d c [cl]" "st \<noteq> []" "continues m st s"
  shows "continues m (c # st) (cl # s)"
  unfolding continues_Cons[OF assms(2)] using assms(1,3) by (intro exI[of _ "[cl]"] exI[of _ s]) simp

lemma continues_open:
  assumes "op' = 91 \<and> k = ArrAfterOpen \<or> op' = 123 \<and> k = ObjAfterOpen" "expects_value c" "length (c # st) \<le> m"
    "continues m (k # parent_after_value c # st) s"
  shows "continues m (c # st) (op' # s)"
proof -
  from assms(4) obtain x y where xy: "s = x @ y" "closes (m - length (parent_after_value c # st)) k x"
    "continues m (parent_after_value c # st) y"
    by (subst (asm) continues_Cons) auto
  have "Suc (m - length (parent_after_value c # st)) = m - length st"
    using assms(3) by simp
  with xy(2) assms(1) closes_opened[of "m - length (parent_after_value c # st)" x]
  have "json_value (m - length st) (op' # x)" by auto
  from continues_value[OF this assms(2) xy(3)] xy(1) show ?thesis by simp
qed

lemma walk_token_length:
  "walk_token m p b (c # st) = Ok st' \<Longrightarrow> length (c # st) \<le> m + 1 \<Longrightarrow> length st' \<le> m + 1 \<and> st' \<noteq> []"
  by (auto simp: Let_def split: if_splits)

lemma walk_token_continues:
  assumes "walk_token m p b (c # st) = Ok st'" "continues m st' s" "length (c # st) \<le> m + 1"
  shows "continues m (c # st) (b # s)"
proof -
  consider (opener) k where "b = 91 \<and> k = ArrAfterOpen \<or> b = 123 \<and> k = ObjAfterOpen" "expects_value c"
      "length (c # st) \<le> m" "st' = k # parent_after_value c # st"
    | (closer) "\<And>d. closes d c [b]" "st \<noteq> []" "st' = st"
    | (sep) c' where "st' = c' # st" "\<And>d x. closes d c' x \<Longrightarrow> closes d c (b # x)"
    using assms(1) closes_token closes_colon by (auto simp: Let_def not_less split: if_splits simp del: closes.simps)
  then show ?thesis
  proof cases
    case opener
    with assms continues_open[of b k c st m s] show ?thesis by simp
  next
    case closer
    with assms continues_close[of c b st m s] show ?thesis by simp
  next
    case sep
    with assms continues_map[of m c' st s c "[b]"] show ?thesis by simp
  qed
qed

lemma walk_string_continues:
  assumes "walk_string p c = Ok c'" "json_string k" "continues m (c' # st) s"
  shows "continues m (c # st) (k @ s)"
proof -
  from assms(1) consider "c' = ObjAfterKey" "c = ObjAfterOpen \<or> c = ObjAfterComma"
    | "expects_value c" "c' = parent_after_value c"
    by (auto simp: walk_string_def split: if_splits)
  then show ?thesis
  proof cases
    case 1
    then show ?thesis
      using assms(3) closes_key[OF assms(2)] by (intro continues_map[of m c']) auto
  next
    case 2
    then show ?thesis
      using assms(2,3) by (intro continues_value) (auto intro: jv_string)
  qed
qed

lemma walk_gap_continues:
  assumes "walk_gap n gap c = Ok c'" "continues m (c' # st) s"
  shows "continues m (c # st) (gap @ s)"
  using walk_gap_Ok[OF assms(1)]
proof (elim disjE exE conjE)
  assume "ws gap" "c' = c"
  with assms(2) show ?thesis by (simp add: continues_ws)
next
  fix w v w' assume g: "gap = w @ v @ w'" "ws w" "json_scalar v" "ws w'" "expects_value c"
    "c' = parent_after_value c"
  have "continues m (parent_after_value c # st) (w' @ s)"
    using assms(2) g by (simp add: continues_ws)
  moreover have "json_value (m - length st) v"
    using g(3) by (auto simp: json_scalar_def intro: jv_literal jv_number)
  ultimately have "continues m (c # st) (v @ w' @ s)"
    using continues_value[of m st v c "w' @ s"] g(5) by blast
  with g show ?thesis by (simp add: continues_ws)
qed

lemma walk_sound:
  "walk m st n s = Ok () \<Longrightarrow> st \<noteq> [] \<Longrightarrow> length st \<le> m + 1 \<Longrightarrow> continues m st s"
proof (induction "length s" arbitrary: st n s rule: less_induct)
  case less
  obtain c st' where st: "st = c # st'" using less.prems(2) by (cases st) auto
  define gap where "gap = takeWhile (\<lambda>b. \<not> is_structural b) s"
  define r where "r = dropWhile (\<lambda>b. \<not> is_structural b) s"
  have s: "s = gap @ r" by (simp add: gap_def r_def)
  have ns: "list_all (\<lambda>b. \<not> is_structural b) gap" "r = [] \<or> is_structural (hd r)"
    using hd_dropWhile[of "\<lambda>b. \<not> is_structural b" s]
    by (auto simp: gap_def r_def list_all_iff dest: set_takeWhileD)
  from walk_split[OF ns, of m c st' n] less.prems(1) obtain c' where
    c': "walk_gap n gap c = Ok c'" "walk m (c' # st') (n + length gap) r = Ok ()"
    by (auto simp: st s)
  have "continues m (c' # st') r"
  proof (cases r)
    case Nil
    with c'(2) have "st' = []" "c' = TopDone"
      using walk_gap_ws[of "[]" "n + length gap" c']
      by (auto simp: walk.simps(2)[of m c' st' "n + length gap" "[]"] Let_def split: if_splits)
    with Nil show ?thesis by simp
  next
    case (Cons b t)
    with ns have b: "is_structural b" by simp
    show ?thesis
    proof (cases "b = 34")
      case False
      with c'(2) Cons b obtain st'' where st'': "walk_token m (n + length gap) b (c' # st') = Ok st''"
        "walk m st'' (n + length gap + 1) t = Ok ()"
        by (auto simp: walk_structural simp del: walk_token.simps)
      have len: "length (c' # st') \<le> m + 1" using less.prems(3) st by simp
      have "length st'' \<le> m + 1 \<and> st'' \<noteq> []"
        using walk_token_length[OF st''(1) len] .
      then have "continues m st'' t"
        using s Cons st''(2) by (intro less.hyps[of t st'' "n + length gap + 1"]) auto
      from walk_token_continues[OF st''(1) this len] Cons show ?thesis by simp
    next
      case True
      obtain body t' where sp: "split_string t = Some (body, t')"
        using c'(2) Cons True walk_gap_ws[of "[]" "n + length gap" c']
        by (cases "split_string t")
          (auto simp: walk.simps(2)[of m c' st' "n + length gap" "34 # t"] Let_def)
      from walk_quote[OF sp, of m c' st' "n + length gap"] c'(2) Cons True obtain c'' where
        c'': "validate_span_scalar body = Ok ()" "walk_string (n + length gap) c' = Ok c''"
        "walk m (c'' # st') (n + length gap + length body + 2) t' = Ok ()" by auto
      have t: "t = body @ 34 # t'" using split_string_eq[OF sp] .
      have "json_string (34 # body @ [34])"
        using c''(1) split_string_is_unquoted[OF sp] by (auto simp: json_string_def validate_span_scalar_iff)
      moreover have "continues m (c'' # st') t'"
        using s Cons t c''(3) less.prems(3) st by (intro less.hyps[of t' _ "n + length gap + length body + 2"]) auto
      ultimately have "continues m (c' # st') ((34 # body @ [34]) @ t')"
        using c''(2) by (intro walk_string_continues)
      with Cons True t show ?thesis by simp
    qed
  qed
  from walk_gap_continues[OF c'(1) this] show ?case by (simp add: st s)
qed

text \<open>The abstract walk decides the grammar.\<close>

lemma walk_iff: "walk m [Top] 0 buf = Ok () \<longleftrightarrow> json_text m buf"
  using walk_sound[of m "[Top]" 0 buf] json_text_accepted[of m buf] by (auto simp: accepts_def)

section \<open>Properties\<close>

text \<open>C6: On the structural index of a buffer whose string literals are all closed, the eager validator accepts exactly the JSON texts of RFC 8259 (grammar, escapes, surrogate pairs, UTF-8, number format) with at most the permitted nesting depth, on every target.\<close>

theorem eager_validation_iff_json:
  assumes "length buf < 2 ^ 32" "lex_run Outside buf = Outside"
  shows "validate_eager_values_with_offset tgt buf (offsets (tokens buf) @ [U32_MAX]) max_depth = Ok ()
    \<longleftrightarrow> json_text (unat max_depth) buf"
  using assms by (simp add: validate_eager_values_walk walk_iff)

theorem eager_validation_iff_json_witness:
  "validate_eager_values_with_offset avx2_target (js ''[1]'') (offsets (tokens (js ''[1]'')) @ [U32_MAX]) 1 = Ok ()
    \<longleftrightarrow> json_text 1 (js ''[1]'')"
  using eager_validation_iff_json[of "js ''[1]''" avx2_target 1] by simp

end
