(* ===== verification/Path.thy ===== *)
theory Path
  imports Numbers
begin

text \<open>
  \<open>src/path.rs\<close>: the iterator over the segments of a path such as \<open>a.b[3].c\<close>, and the printer of
  paths the fuzz targets use (\<open>append_key_segment\<close>, \<open>append_index_segment\<close>).
\<close>

section \<open>Definitions\<close>

datatype path_seg = Key bytes | Idx u32

definition checked_u32 :: "nat \<Rightarrow> u32 option" where
  "checked_u32 n = (if n < 2 ^ 32 then Some (of_nat n) else None)"

text \<open>The loop over the digits; \<open>c - b'0'\<close> on bytes panics below zero in a debug build.\<close>

fun path_index :: "u32 \<Rightarrow> bytes \<Rightarrow> (u32, qjson_err) outcome" where
  "path_index n [] = Ok n"
| "path_index n (c # digits) =
     (if c < 48 then Panic
      else
        (case Option.bind (checked_u32 (unat n * 10)) (\<lambda>x. checked_u32 (unat x + unat (c - 48))) of
           Some v \<Rightarrow> path_index v digits
         | None \<Rightarrow> Err QJSON_INVALID_PATH))"

text \<open>\<open>PathIter::next\<close>: the item and the rest of the path. A slice out of range is a panic.\<close>

fun path_next :: "bytes \<Rightarrow> (path_seg, qjson_err) outcome option \<times> bytes" where
  "path_next [] = (None, [])"
| "path_next (first # tail) =
     (let rest = first # tail in
      if first = 91 then
        (case position (\<lambda>c. c = 93) rest of
           None \<Rightarrow> (Some (Err QJSON_INVALID_PATH), rest)
         | Some close \<Rightarrow>
             (case slice_at rest 1 close of
                Ok digits \<Rightarrow>
                  (if digits = [] \<or> \<not> list_all is_digit digits
                   then (Some (Err QJSON_INVALID_PATH), rest)
                   else case path_index 0 digits of
                       Ok n \<Rightarrow>
                         (case slice_at rest (close + 1) (length rest) of
                            Ok rest' \<Rightarrow> (Some (Ok (Idx n)), rest')
                          | Err e \<Rightarrow> (Some (Err e), rest)
                          | Panic \<Rightarrow> (Some Panic, rest))
                     | Err e \<Rightarrow> (Some (Err e), rest)
                     | Panic \<Rightarrow> (Some Panic, rest))
              | Err e \<Rightarrow> (Some (Err e), rest)
              | Panic \<Rightarrow> (Some Panic, rest)))
      else if first = 46 then
        (if tail = [] then (Some (Err QJSON_INVALID_PATH), tail) else path_next tail)
      else
        (let end_pos = (case position (\<lambda>c. c = 46 \<or> c = 91) rest of Some p \<Rightarrow> p | None \<Rightarrow> length rest) in
         if end_pos = 0 then (Some (Err QJSON_INVALID_PATH), rest)
         else
           (case and_then (slice_at rest 0 end_pos) (\<lambda>key.
                 and_then (slice_at rest end_pos (length rest)) (\<lambda>rest'. Ok (key, rest'))) of
              Ok (key, rest') \<Rightarrow> (Some (Ok (Key key)), rest')
            | Err e \<Rightarrow> (Some (Err e), rest)
            | Panic \<Rightarrow> (Some Panic, rest))))"

declare path_next.simps(2) [simp del]

section \<open>One segment\<close>

definition in_key :: "u8 \<Rightarrow> bool" where
  "in_key c \<longleftrightarrow> c \<noteq> 46 \<and> c \<noteq> 91"

definition in_index :: "bytes \<Rightarrow> bool" where
  "in_index digits \<longleftrightarrow> digits \<noteq> [] \<and> list_all is_digit digits \<and> digits_value 0 digits < 2 ^ 32"

lemma path_index_eq:
  assumes "list_all is_digit ds"
  shows "path_index n ds =
    (if digits_value (unat n) ds < 2 ^ 32 then Ok (of_nat (digits_value (unat n) ds)) else Err QJSON_INVALID_PATH)"
  using assms
proof (induction ds arbitrary: n)
  case Nil
  show ?case using unsigned_less[of n, where ?'a = nat] by simp
next
  case (Cons c ds)
  define x where "x = unat c - 48"
  have d: "unat (c - 48) = x"
    unfolding x_def using Cons.prems by (intro digit_value) simp
  have c: "\<not> c < 48" using Cons.prems by (auto simp: is_digit_def)
  define m where "m = 10 * unat n + x"
  have bind: "Option.bind (checked_u32 (unat n * 10)) (\<lambda>y. checked_u32 (unat y + x)) =
    (if m < 2 ^ 32 then Some (of_nat m) else None)"
    using unat_of_nat32[of "unat n * 10"]
    by (cases "unat n * 10 < 2 ^ 32") (simp_all add: checked_u32_def m_def algebra_simps del: of_nat_mult)
  show ?case
  proof (cases "m < 2 ^ 32")
    case True
    then show ?thesis
      using Cons.IH[of "of_nat m"] Cons.prems
      by (simp add: c d bind m_def[symmetric] x_def[symmetric] unat_of_nat32)
  next
    case False
    then have "\<not> digits_value m ds < 2 ^ 32"
      using digits_value_mono[of m ds] by simp
    with False show ?thesis
      by (simp add: c d bind m_def[symmetric] x_def[symmetric])
  qed
qed

lemma position_takeWhile:
  "(case position p xs of Some n \<Rightarrow> n | None \<Rightarrow> length xs) = length (takeWhile (\<lambda>c. \<not> p c) xs)"
  by (induction xs) (auto split: option.split)

lemma position_split:
  assumes "position (\<lambda>c. c = x) xs = Some n"
  shows "n < length xs" "xs = take n xs @ x # drop (Suc n) xs"
  using position_SomeD[OF assms] id_take_nth_drop[of n xs] by auto

text \<open>The three kinds of first bytes; no slice is out of range and no digit underflows.\<close>

lemma path_next_dot:
  "path_next (46 # tail) = (if tail = [] then (Some (Err QJSON_INVALID_PATH), []) else path_next tail)"
  by (simp add: path_next.simps(2))

lemma path_next_index:
  "path_next (91 # tail) =
    (case position (\<lambda>c. c = 93) tail of
       None \<Rightarrow> (Some (Err QJSON_INVALID_PATH), 91 # tail)
     | Some n \<Rightarrow>
         (if in_index (take n tail) then (Some (Ok (Idx (of_nat (digits_value 0 (take n tail))))), drop (Suc n) tail)
          else (Some (Err QJSON_INVALID_PATH), 91 # tail)))"
proof (cases "position (\<lambda>c. c = 93) tail")
  case None
  then show ?thesis by (simp add: path_next.simps(2))
next
  case (Some n)
  have n: "n < length tail" by (rule position_split(1)[OF Some])
  then have "slice_at (91 # tail) 1 (Suc n) = (Ok (take n tail) :: (bytes, qjson_err) outcome)"
    "slice_at (91 # tail) (Suc (Suc n)) (Suc (length tail)) = (Ok (drop (Suc n) tail) :: (bytes, qjson_err) outcome)"
    by (simp_all add: slice_at_def slice_def)
  then show ?thesis
    using Some by (auto simp: path_next.simps(2) Let_def in_index_def path_index_eq)
qed

lemma path_next_word:
  assumes "in_key first"
  shows "path_next (first # tail) =
    (Some (Ok (Key (takeWhile in_key (first # tail)))), dropWhile in_key (first # tail))"
proof -
  define rest where "rest = first # tail"
  define m where "m = length (takeWhile in_key rest)"
  have m: "(case position (\<lambda>c. c = 46 \<or> c = 91) rest of Some p \<Rightarrow> p | None \<Rightarrow> length rest) = m"
    unfolding position_takeWhile m_def in_key_def by simp
  have pos: "m \<noteq> 0" using assms by (simp add: m_def rest_def)
  have "m \<le> length rest" unfolding m_def by (rule length_takeWhile_le)
  moreover have "slice 0 m rest = takeWhile in_key rest" "slice m (length rest) rest = dropWhile in_key rest"
    by (simp_all add: slice_def) (simp_all add: m_def takeWhile_eq_take[symmetric] dropWhile_eq_drop[symmetric])
  ultimately have sl: "slice_at rest 0 m = (Ok (takeWhile in_key rest) :: (bytes, qjson_err) outcome)"
    "slice_at rest m (length rest) = (Ok (dropWhile in_key rest) :: (bytes, qjson_err) outcome)"
    by (simp_all add: slice_at_def)
  have "path_next rest = (Some (Ok (Key (takeWhile in_key rest))), dropWhile in_key rest)"
    using assms pos unfolding rest_def path_next.simps(2) Let_def in_key_def[of first]
    by (simp only: m[unfolded rest_def] sl[unfolded rest_def] if_False and_then.simps outcome.case prod.case simp_thms)
  then show ?thesis by (simp add: rest_def)
qed

lemma path_next_progress: "path_next rest = (Some (Ok seg), rest') \<Longrightarrow> length rest' < length rest"
proof (induction rest)
  case (Cons first tail)
  consider "first = 46" | "first = 91" | "in_key first" by (auto simp: in_key_def)
  then show ?case
  proof cases
    case 1
    with Cons show ?thesis by (auto simp: path_next_dot split: if_splits)
  next
    case 2
    with Cons.prems show ?thesis by (auto simp: path_next_index split: if_splits option.splits)
  next
    case 3
    with Cons.prems length_dropWhile_le[of in_key tail] show ?thesis by (auto simp: path_next_word)
  qed
qed simp

lemma path_next_outcome:
  "path_next rest = (item, t) \<Longrightarrow>
    item = None \<and> rest = [] \<or> item = Some (Err QJSON_INVALID_PATH) \<or> (\<exists>seg. item = Some (Ok seg))"
proof (induction rest)
  case (Cons first tail)
  consider "first = 46" | "first = 91" | "in_key first" by (auto simp: in_key_def)
  then show ?case
  proof cases
    case 1
    with Cons show ?thesis by (auto simp: path_next_dot split: if_splits)
  next
    case 2
    with Cons.prems show ?thesis by (auto simp: path_next_index split: if_splits option.splits)
  next
    case 3
    with Cons.prems show ?thesis by (auto simp: path_next_word)
  qed
qed simp

lemma path_next_errors: "path_next rest = (Some (Err e), t) \<Longrightarrow> e = QJSON_INVALID_PATH"
  by (drule path_next_outcome) simp

lemma path_next_no_panic: "path_next rest \<noteq> (Some Panic, t)"
  using path_next_outcome[of rest "Some Panic" t] by auto

text \<open>Collecting the segments up to the first error.\<close>

function parse_path :: "bytes \<Rightarrow> (path_seg list, qjson_err) outcome" where
  "parse_path rest =
     (case path_next rest of
        (None, _) \<Rightarrow> Ok []
      | (Some (Ok seg), rest') \<Rightarrow> and_then (parse_path rest') (\<lambda>segs. Ok (seg # segs))
      | (Some (Err e), _) \<Rightarrow> Err e
      | (Some Panic, _) \<Rightarrow> Panic)"
  by pat_completeness auto
termination
  by (relation "measure length") (auto dest: path_next_progress[OF sym])

declare parse_path.simps [simp del]

section \<open>The printer\<close>

fun dec_bytes :: "nat \<Rightarrow> bytes" where
  "dec_bytes n = (if n < 10 then [of_nat (48 + n)] else dec_bytes (n div 10) @ [of_nat (48 + n mod 10)])"

declare dec_bytes.simps [simp del]

definition path_key_can_be_in_qjson_path :: "bytes \<Rightarrow> bool" where
  "path_key_can_be_in_qjson_path key \<longleftrightarrow> key \<noteq> [] \<and> \<not> list_ex (\<lambda>b. b = 46 \<or> b = 91 \<or> b = 93) key"

definition append_key_segment :: "bytes \<Rightarrow> bytes \<Rightarrow> bytes" where
  "append_key_segment path key = (if path \<noteq> [] then path @ [46] else path) @ key"

definition append_index_segment :: "bytes \<Rightarrow> nat \<Rightarrow> bytes" where
  "append_index_segment path index = path @ [91] @ dec_bytes index @ [93]"

fun append_segment :: "bytes \<Rightarrow> path_seg \<Rightarrow> bytes" where
  "append_segment path (Key k) = append_key_segment path k"
| "append_segment path (Idx n) = append_index_segment path (unat n)"

definition print_path :: "path_seg list \<Rightarrow> bytes" where
  "print_path segs = foldl append_segment [] segs"

fun printable :: "path_seg \<Rightarrow> bool" where
  "printable (Key k) = path_key_can_be_in_qjson_path k"
| "printable (Idx n) = True"

section \<open>Decimal indices\<close>

lemma digits_value_append: "digits_value v (ds @ [c]) = 10 * digits_value v ds + (unat c - 48)"
  by (induction ds arbitrary: v) auto

lemma dec_bytes_props:
  "list_all is_digit (dec_bytes n) \<and> dec_bytes n \<noteq> [] \<and> digits_value 0 (dec_bytes n) = n"
proof (induction n rule: dec_bytes.induct)
  case (1 n)
  have "unat (of_nat (48 + k) :: u8) = 48 + k" if "k < 10" for k
    using that by (intro unat_of_nat8) simp
  then have dig: "is_digit (of_nat (48 + k)) \<and> unat (of_nat (48 + k) :: u8) - 48 = k" if "k < 10" for k
    using that by (simp add: is_digit_def word_le_nat_alt del: of_nat_add)
  show ?case
  proof (cases "n < 10")
    case True
    with dig[OF True] show ?thesis by (simp add: dec_bytes.simps[of n] del: of_nat_add)
  next
    case False
    have "n mod 10 < 10" by simp
    from dig[OF this] 1 False show ?thesis
      by (simp add: dec_bytes.simps[of n] digits_value_append del: of_nat_add)
  qed
qed

section \<open>Round trip\<close>

fun print_tail :: "path_seg list \<Rightarrow> bytes" where
  "print_tail [] = []"
| "print_tail (Key k # segs) = 46 # k @ print_tail segs"
| "print_tail (Idx n # segs) = 91 # dec_bytes (unat n) @ 93 # print_tail segs"

lemma append_segments: "path \<noteq> [] \<Longrightarrow> foldl append_segment path segs = path @ print_tail segs"
proof (induction segs arbitrary: path)
  case (Cons seg segs)
  then show ?case by (cases seg) (simp_all add: append_key_segment_def append_index_segment_def)
qed simp

lemma print_tail_hd: "print_tail segs = [] \<or> hd (print_tail segs) = 46 \<or> hd (print_tail segs) = 91"
  by (cases segs rule: print_tail.cases) auto

lemma path_next_key:
  assumes "k \<noteq> []" "list_all in_key k" "t = [] \<or> hd t = 46 \<or> hd t = 91"
  shows "path_next (k @ t) = (Some (Ok (Key k)), t)"
proof -
  from assms obtain c k' where k: "k = c # k'" "in_key c" by (cases k) auto
  have t: "takeWhile in_key t = []" "dropWhile in_key t = t"
    using assms(3) by (cases t; auto simp: in_key_def)+
  with assms(2) have "takeWhile in_key (k @ t) = k" "dropWhile in_key (k @ t) = t"
    by (simp_all add: list_all_iff takeWhile_append2 dropWhile_append2)
  then show ?thesis using path_next_word[OF k(2), of "k' @ t"] by (simp add: k(1))
qed

lemma printable_key: "path_key_can_be_in_qjson_path k \<Longrightarrow> k \<noteq> [] \<and> list_all in_key k"
  by (auto simp: path_key_can_be_in_qjson_path_def list_ex_iff list_all_iff in_key_def)

lemma path_next_digits:
  assumes "in_index ds"
  shows "path_next (91 # ds @ 93 # t) = (Some (Ok (Idx (of_nat (digits_value 0 ds)))), t)"
proof -
  have "\<forall>x \<in> set ds. \<not> x = 93"
    using assms by (auto simp: in_index_def list_all_iff is_digit_def)
  from position_append[OF this, of "93 # t"] assms show ?thesis
    by (simp add: path_next_index)
qed

lemma path_next_idx: "path_next (91 # dec_bytes (unat n) @ 93 # t) = (Some (Ok (Idx n)), t)"
proof -
  have "in_index (dec_bytes (unat n))"
    using dec_bytes_props[of "unat n"] unsigned_less[of n, where ?'a = nat] by (simp add: in_index_def)
  from path_next_digits[OF this] dec_bytes_props[of "unat n"] show ?thesis by simp
qed

lemma parse_print_tail: "list_all printable segs \<Longrightarrow> parse_path (print_tail segs) = Ok segs"
proof (induction segs rule: print_tail.induct)
  case 1
  then show ?case by (simp add: parse_path.simps)
next
  case (2 k segs)
  then have k: "path_key_can_be_in_qjson_path k" by simp
  note key = printable_key[OF k]
  then have "path_next (print_tail (Key k # segs)) = path_next (k @ print_tail segs)" by (simp add: path_next_dot)
  also have "\<dots> = (Some (Ok (Key k)), print_tail segs)"
    using key print_tail_hd by (intro path_next_key) simp_all
  finally show ?case
    using 2 by (simp add: parse_path.simps[of "print_tail (Key k # segs)"] del: print_tail.simps)
next
  case (3 n segs)
  have "path_next (print_tail (Idx n # segs)) = (Some (Ok (Idx n)), print_tail segs)"
    by (simp add: path_next_idx)
  then show ?case
    using 3 by (simp add: parse_path.simps[of "print_tail (Idx n # segs)"] del: print_tail.simps)
qed

lemma parse_print_path: "list_all printable segs \<Longrightarrow> parse_path (print_path segs) = Ok segs"
proof (cases segs)
  case Nil
  then show ?thesis by (simp add: print_path_def parse_path.simps)
next
  case (Cons seg segs')
  assume p: "list_all printable segs"
  show ?thesis
  proof (cases seg)
    case (Key k)
    with p Cons have k: "path_key_can_be_in_qjson_path k" "list_all printable segs'" by simp_all
    note key = printable_key[OF k(1)]
    then have "print_path segs = k @ print_tail segs'"
      using Cons Key append_segments[of k] by (simp add: print_path_def append_key_segment_def)
    with path_next_key[OF conjunct1[OF key] conjunct2[OF key] print_tail_hd] parse_print_tail[OF k(2)] Cons Key
    show ?thesis by (simp add: parse_path.simps[of "k @ print_tail segs'"])
  next
    case (Idx n)
    have "print_path segs = print_tail segs"
      using Cons Idx append_segments[of "append_index_segment [] (unat n)"]
      by (simp add: print_path_def append_index_segment_def)
    with parse_print_tail[OF p] show ?thesis by simp
  qed
qed

section \<open>The paths the parser accepts\<close>

text \<open>
  A grammar of paths: an index in brackets, with at least one digit and a value below \<open>2 ^ 32\<close>; a
  key, which extends to the next dot or opening bracket; any number of dots before a segment.
\<close>

inductive path_text :: "bytes \<Rightarrow> path_seg list \<Rightarrow> bool" where
  path_end: "path_text [] []"
| path_idx: "digits \<noteq> [] \<Longrightarrow> list_all is_digit digits \<Longrightarrow> digits_value 0 digits < 2 ^ 32 \<Longrightarrow> path_text t segs \<Longrightarrow>
    path_text (91 # digits @ 93 # t) (Idx (of_nat (digits_value 0 digits)) # segs)"
| path_dot: "path_text t segs \<Longrightarrow> t \<noteq> [] \<Longrightarrow> path_text (46 # t) segs"
| path_key: "k \<noteq> [] \<Longrightarrow> 46 \<notin> set k \<Longrightarrow> 91 \<notin> set k \<Longrightarrow> path_text t segs \<Longrightarrow> t = [] \<or> hd t = 46 \<or> hd t = 91 \<Longrightarrow>
    path_text (k @ t) (Key k # segs)"

lemma parse_path_step: "path_next rest = (Some (Ok seg), t) \<Longrightarrow> parse_path t = Ok segs \<Longrightarrow> parse_path rest = Ok (seg # segs)"
  by (simp add: parse_path.simps[of rest])

lemma path_text_parses: "path_text rest segs \<Longrightarrow> parse_path rest = Ok segs"
proof (induction rule: path_text.induct)
  case path_end
  show ?case by (simp add: parse_path.simps)
next
  case (path_idx digits t segs)
  then have "in_index digits" by (simp add: in_index_def)
  from parse_path_step[OF path_next_digits[OF this] path_idx.IH] show ?case .
next
  case (path_dot t segs)
  then show ?case by (simp add: parse_path.simps[of "46 # t"] parse_path.simps[of t] path_next_dot)
next
  case (path_key k t segs)
  then have "list_all in_key k" by (auto simp: list_all_iff in_key_def)
  from parse_path_step[OF path_next_key[OF path_key(1) this path_key(5)] path_key.IH] show ?case .
qed

lemma path_next_text: "path_next rest = (Some (Ok seg), t) \<Longrightarrow> path_text t segs \<Longrightarrow> path_text rest (seg # segs)"
proof (induction rest)
  case (Cons first tail)
  consider "first = 46" | "first = 91" | "in_key first" by (auto simp: in_key_def)
  then show ?case
  proof cases
    case 1
    with Cons show ?thesis by (auto simp: path_next_dot split: if_splits intro: path_dot)
  next
    case 2
    with Cons.prems obtain n where n: "position (\<lambda>c. c = 93) tail = Some n" "in_index (take n tail)"
      "seg = Idx (of_nat (digits_value 0 (take n tail)))" "t = drop (Suc n) tail"
      by (auto simp: path_next_index split: if_splits option.splits)
    have "path_text (91 # take n tail @ 93 # t) (seg # segs)"
      using n(2) Cons.prems(2) unfolding n(3) by (intro path_idx) (auto simp: in_index_def)
    with 2 n(4) position_split(2)[OF n(1)] show ?thesis by simp
  next
    case 3
    with Cons.prems have eq: "seg = Key (takeWhile in_key (first # tail))" "t = dropWhile in_key (first # tail)"
      by (simp_all add: path_next_word)
    have "t = [] \<or> hd t = 46 \<or> hd t = 91"
      using hd_dropWhile[of in_key "first # tail"] unfolding eq(2) in_key_def by blast
    moreover have "46 \<notin> set (takeWhile in_key (first # tail))" "91 \<notin> set (takeWhile in_key (first # tail))"
      by (auto dest: set_takeWhileD simp: in_key_def)
    ultimately have "path_text (takeWhile in_key (first # tail) @ t) (seg # segs)"
      unfolding eq(1) using 3 Cons.prems(2) by (intro path_key) simp_all
    then show ?thesis by (simp only: eq(2) takeWhile_dropWhile_id)
  qed
qed simp

lemma parse_path_outcome:
  "(\<exists>segs. parse_path rest = Ok segs \<and> path_text rest segs) \<or> parse_path rest = Err QJSON_INVALID_PATH"
proof (induction rest rule: parse_path.induct)
  case step: (1 rest)
  obtain item t where n: "path_next rest = (item, t)" by fastforce
  from path_next_outcome[OF n] consider "item = None" "rest = []" | "item = Some (Err QJSON_INVALID_PATH)" | seg where "item = Some (Ok seg)"
    by blast
  then show ?case
  proof cases
    case 1
    then show ?thesis using path_text_parses[OF path_end] path_end by auto
  next
    case 2
    with n show ?thesis by (simp add: parse_path.simps[of rest])
  next
    case (3 seg)
    from step[OF n[symmetric] 3 refl] n 3 path_next_text[of rest seg t] show ?thesis
      by (auto simp: parse_path.simps[of rest])
  qed
qed

lemma path_text_unique: "path_text rest segs \<Longrightarrow> path_text rest segs' \<Longrightarrow> segs = segs'"
  by (drule path_text_parses)+ simp

lemma parse_path_Ok: "parse_path rest = Ok segs \<longleftrightarrow> path_text rest segs"
  using parse_path_outcome[of rest] path_text_parses[of rest] by (metis outcome.distinct(1) outcome.inject(1))

lemma parse_path_Err: "parse_path rest = Err e \<longleftrightarrow> e = QJSON_INVALID_PATH \<and> \<not> (\<exists>segs. path_text rest segs)"
  using parse_path_outcome[of rest] path_text_parses[of rest] by (metis outcome.distinct(1) outcome.inject(2))

section \<open>Properties\<close>

text \<open>C39: Parsing the path that the printer builds from segments gives back exactly those segments: keys that are non-empty and free of delimiters, and any 32-bit indices.\<close>

theorem path_round_trip:
  assumes "list_all printable segs"
  shows "parse_path (print_path segs) = Ok segs"
  using assms by (rule parse_print_path)

theorem path_round_trip_witness:
  "parse_path (print_path [Key [97], Idx 4294967295, Key [98]]) = Ok [Key [97], Idx 4294967295, Key [98]]"
  by (rule path_round_trip) (simp add: path_key_can_be_in_qjson_path_def)

text \<open>C40: Iterating any byte string as a path yields exactly the segments the grammar of paths gives to it: an index in brackets with at least one digit, only digits and a value below 2^32; a key up to the next dot or opening bracket; dots before a segment but not at the end. A byte string outside the grammar is refused with QJSON_INVALID_PATH, the only error.\<close>

theorem path_parse_iff_grammar:
  "(parse_path path = Ok segs \<longleftrightarrow> path_text path segs) \<and>
   (parse_path path = Err e \<longleftrightarrow> e = QJSON_INVALID_PATH \<and> \<not> (\<exists>segs. path_text path segs))"
  by (simp add: parse_path_Ok parse_path_Err)

end
