(* ===== verification/Scan_Bits.thy ===== *)
theory Scan_Bits
  imports Simd
begin

text \<open>
  The 64-bit mask arithmetic of \<open>src/scan/mod.rs\<close> and of the carry-less multiplication: escaped
  bytes from backslash runs, the positions of set bits, and prefix parity.
\<close>

unbundle bit_operations_syntax

section \<open>Definitions\<close>

text \<open>The mask of escaped positions and the carry into the next chunk.\<close>

definition find_escape_mask_with_carry :: "u64 \<Rightarrow> u64 \<Rightarrow> u64 \<times> u64" where
  "find_escape_mask_with_carry b pc =
     (let starts = b AND NOT (push_bit 1 b OR pc);
          even_bits = 0x5555555555555555;
          odd_bits = 0xAAAAAAAAAAAAAAAA;
          even_starts = starts AND even_bits;
          odd_starts = starts AND odd_bits;
          even_carries = b + even_starts;
          odd_carries = b + odd_starts;
          even_carry_ends = even_carries AND NOT b;
          odd_carry_ends = odd_carries AND NOT b;
          escaped_from_runs = (even_carry_ends AND odd_bits) OR (odd_carry_ends AND even_bits);
          escaped = escaped_from_runs OR pc;
          leading_bs = trailing_ones b;
          escaped = (if pc \<noteq> 0 \<and> b AND 1 \<noteq> 0 \<and> leading_bs < 64 \<and> even leading_bs
                     then escaped OR push_bit leading_bs 1 else escaped);
          trailing_bs = leading_zeros (NOT b);
          new_carry = (if b = - 1 then pc else of_nat trailing_bs AND 1) in
      (escaped, new_carry))"

text \<open>Pushing the offsets of the set bits, lowest first.\<close>

function emit_bits :: "u64 \<Rightarrow> u32 \<Rightarrow> u32 list \<Rightarrow> u32 list" where
  "emit_bits msk base out =
     (if msk \<noteq> 0
      then emit_bits (msk AND (msk - 1)) base (out @ [base + of_nat (trailing_zeros msk)])
      else out)"
  by pat_completeness auto

text \<open>The low half of a carry-less product (\<open>_mm_clmulepi64_si128\<close>, \<open>vmull_p64\<close>).\<close>

definition clmul_lo :: "u64 \<Rightarrow> u64 \<Rightarrow> u64" where
  "clmul_lo a b = foldr (\<lambda>k acc. acc XOR (if bit a k then push_bit k b else 0)) [0..<64] 0"

text \<open>The bytes inside strings, from the real quotes and the state before the chunk.\<close>

definition inside_string_mask :: "u64 \<Rightarrow> u64 \<Rightarrow> u64 \<times> u64" where
  "inside_string_mask real_quote prev_in_string =
     (let prefix = clmul_lo real_quote (- 1);
          mask = (if prev_in_string \<noteq> 0 then NOT prefix else prefix);
          new_state = drop_bit 63 mask AND 1 in
      (mask, new_state))"

section \<open>Bits of a sum\<close>

fun carry :: "'a::semiring_bit_operations \<Rightarrow> 'a \<Rightarrow> bool \<Rightarrow> nat \<Rightarrow> bool" where
  "carry a b c 0 = c"
| "carry a b c (Suc n) = (let c' = carry a b c n in bit a n \<and> bit b n \<or> c' \<and> (bit a n \<or> bit b n))"

lemma carry_shift:
  fixes a b :: nat
  shows "carry a b c (Suc n) = carry (a div 2) (b div 2) (odd a \<and> odd b \<or> c \<and> (odd a \<or> odd b)) n"
  by (induction n) (simp_all add: bit_0 bit_Suc[symmetric] Let_def)

lemma bit_nat_add:
  fixes a b :: nat
  shows "bit (a + b + of_bool c) n \<longleftrightarrow> (bit a n \<noteq> bit b n) \<noteq> carry a b c n"
proof (induction n arbitrary: a b c)
  case 0
  show ?case by (auto simp: bit_0)
next
  case (Suc n)
  have "(a + b + of_bool c) div 2 = a div 2 + b div 2 + of_bool (odd a \<and> odd b \<or> c \<and> (odd a \<or> odd b))"
    by (cases c; cases "odd a"; cases "odd b") (auto elim!: oddE evenE)
  then show ?case
    using Suc.IH[of "a div 2" "b div 2" "odd a \<and> odd b \<or> c \<and> (odd a \<or> odd b)"]
    by (simp add: bit_Suc carry_shift del: carry.simps(2))
qed

lemma carry_unat: "n \<le> LENGTH('a) \<Longrightarrow> carry (unat a) (unat b) c n = carry a (b :: 'a::len word) c n"
  by (induction n) (simp_all add: bit_unsigned_iff Let_def)

lemma bit_word_add:
  fixes a b :: "'a::len word"
  assumes "n < LENGTH('a)"
  shows "bit (a + b) n \<longleftrightarrow> (bit a n \<noteq> bit b n) \<noteq> carry a b False n"
proof -
  have sum: "unat (a + b) = take_bit LENGTH('a) (unat a + unat b)"
    by (simp add: unat_word_ariths(1) take_bit_eq_mod)
  have "bit (a + b) n \<longleftrightarrow> bit (unat (a + b)) n" by (simp add: bit_unsigned_iff)
  also have "\<dots> \<longleftrightarrow> bit (unat a + unat b) n" using assms by (simp add: sum bit_take_bit_iff)
  finally have "bit (a + b) n \<longleftrightarrow> bit (unat a + unat b) n" .
  with bit_nat_add[of "unat a" "unat b" False n] carry_unat[of n a b False] assms show ?thesis
    by (simp add: bit_unsigned_iff)
qed

section \<open>Escaped bytes\<close>

text \<open>
  The reference: byte \<open>n\<close> is escaped if a run of backslashes of odd length ends before it, the run
  continuing the previous chunk if \<open>c\<close>.
\<close>

fun esc :: "u64 \<Rightarrow> bool \<Rightarrow> nat \<Rightarrow> bool" where
  "esc b c 0 = c"
| "esc b c (Suc n) = (bit b n \<and> \<not> esc b c n)"

abbreviation even_bits :: u64 where "even_bits \<equiv> 0x5555555555555555"
abbreviation odd_bits :: u64 where "odd_bits \<equiv> 0xAAAAAAAAAAAAAAAA"

lemma mask_bits:
  assumes "n < 64"
  shows "bit even_bits n \<longleftrightarrow> even n" "bit odd_bits n \<longleftrightarrow> odd n"
proof -
  have all: "list_all (\<lambda>n. bit even_bits n = even n \<and> bit odd_bits n = odd n) [0..<64]"
    by (simp add: upt_conv_Cons)
  then show "bit even_bits n \<longleftrightarrow> even n" "bit odd_bits n \<longleftrightarrow> odd n"
    using assms by (auto simp: list_all_iff)
qed

text \<open>Starts of runs, and the carries they send through the run when added to the mask.\<close>

definition run_starts :: "u64 \<Rightarrow> bool \<Rightarrow> u64" where
  "run_starts b c = b AND NOT (push_bit 1 b OR of_bool c)"

lemma bit_run_starts:
  "n < 64 \<Longrightarrow> bit (run_starts b c) n \<longleftrightarrow> bit b n \<and> (if n = 0 then \<not> c else \<not> bit b (n - 1))"
proof -
  assume n: "n < 64"
  then have "bit (push_bit 1 b) n \<longleftrightarrow> 1 \<le> n \<and> bit b (n - 1)"
    by (subst bit_push_bit_iff) (auto simp: possible_bit_word)
  with n show ?thesis
    unfolding run_starts_def bit_and_iff bit_or_iff bit_not_iff by (auto simp: bit_of_bool_iff possible_bit_word)
qed

definition leading :: "u64 \<Rightarrow> bool \<Rightarrow> nat \<Rightarrow> bool" where
  "leading b c n \<longleftrightarrow> c \<and> (\<forall>j < n. bit b j)"

definition even_carry :: "u64 \<Rightarrow> bool \<Rightarrow> nat \<Rightarrow> bool" where
  "even_carry b c = carry b (run_starts b c AND even_bits) False"

definition odd_carry :: "u64 \<Rightarrow> bool \<Rightarrow> nat \<Rightarrow> bool" where
  "odd_carry b c = carry b (run_starts b c AND odd_bits) False"

lemma run_carries:
  fixes b :: u64 and c :: bool
  assumes "n \<le> 64"
  shows "let ce = even_carry b c; co = odd_carry b c in if leading b c n then \<not> ce n \<and> \<not> co n \<and> esc b c n = even n
    else (ce n \<or> co n) = (n > 0 \<and> bit b (n - 1)) \<and> \<not> (ce n \<and> co n) \<and> esc b c n = (ce n \<and> odd n \<or> co n \<and> even n)"
  using assms
proof (induction n)
  case 0
  show ?case by (simp add: leading_def even_carry_def odd_carry_def)
next
  case (Suc n)
  then have n: "n < 64" by simp
  have start_even: "bit (run_starts b c AND even_bits) n \<longleftrightarrow> bit (run_starts b c) n \<and> even n"
    and start_odd: "bit (run_starts b c AND odd_bits) n \<longleftrightarrow> bit (run_starts b c) n \<and> odd n"
    using mask_bits[OF n] by (simp_all add: bit_simps)
  have step: "even_carry b c (Suc n) = (bit b n \<and> (bit (run_starts b c) n \<and> even n \<or> even_carry b c n))"
    "odd_carry b c (Suc n) = (bit b n \<and> (bit (run_starts b c) n \<and> odd n \<or> odd_carry b c n))"
    using bit_run_starts[OF n, of b c] by (auto simp: even_carry_def odd_carry_def start_even start_odd Let_def)
  have lead: "leading b c (Suc n) \<longleftrightarrow> leading b c n \<and> bit b n" by (auto simp: leading_def less_Suc_eq)
  have start: "bit (run_starts b c) n \<longleftrightarrow> bit b n \<and> (if n = 0 then \<not> c else \<not> bit b (n - 1))"
    by (rule bit_run_starts[OF n])
  note IH = Suc.IH[OF less_imp_le[OF n]]
  have lead0: "leading b c n \<Longrightarrow> (if n = 0 then c else bit b (n - 1))" "n = 0 \<Longrightarrow> \<not> leading b c n \<Longrightarrow> \<not> c"
    by (auto simp: leading_def)
  show ?case
    using IH lead0 unfolding lead step start Let_def by (cases "bit b n"; cases "n = 0"; cases "leading b c n") (auto split: if_splits)
qed

lemma trailing_ones_at:
  fixes b :: u64
  assumes "n < 64" "\<not> bit b n"
  shows "trailing_ones b = n \<longleftrightarrow> (\<forall>j < n. bit b j)"
proof -
  have n: "bit (NOT b) n" using assms by (simp add: bit_not_iff possible_bit_word)
  then have ne: "NOT b \<noteq> 0" by auto
  have b: "bit (NOT b) j \<longleftrightarrow> \<not> bit b j" if "j < 64" for j using that by (simp add: bit_not_iff possible_bit_word)
  note tz = trailing_zeros_bits[OF ne]
  have le: "trailing_zeros (NOT b) \<le> n" using tz(2) n by (meson not_le)
  show ?thesis
  proof
    assume "trailing_ones b = n"
    then show "\<forall>j < n. bit b j" using tz(2) b assms(1) by (auto simp: trailing_ones_def)
  next
    assume all: "\<forall>j < n. bit b j"
    have "\<not> trailing_zeros (NOT b) < n" using all tz(1) b tz(3) by auto
    with le show "trailing_ones b = n" by (simp add: trailing_ones_def)
  qed
qed

lemma leading_zeros_not:
  fixes b :: u64
  assumes "n < 64" "\<not> bit b n" "\<And>j. n < j \<Longrightarrow> j < 64 \<Longrightarrow> bit b j"
  shows "leading_zeros (NOT b) = 63 - n"
proof -
  have b: "bit (NOT b) j \<longleftrightarrow> \<not> bit b j" if "j < 64" for j using that by (simp add: bit_not_iff possible_bit_word)
  have "[0..<64] = [0..<n] @ n # [Suc n..<64]"
    using assms(1) upt_add_eq_append[of 0 n "64 - n"] by (simp add: upt_conv_Cons)
  then have "rev [0..<LENGTH(64)] = rev [Suc n..<64] @ n # rev [0..<n]" by simp
  moreover have "takeWhile (\<lambda>k. \<not> bit (NOT b) k) (rev [Suc n..<64] @ n # rev [0..<n]) = rev [Suc n..<64]"
    using assms b by (subst takeWhile_append2) auto
  ultimately show ?thesis by (simp add: leading_zeros_def)
qed

lemma and_one_bit: "(w :: u64) AND 1 = of_bool (bit w 0)"
  by (simp add: and_one_eq mod2_eq_if bit_0)

lemma esc_run: "(\<And>j. n \<le> j \<Longrightarrow> j < n + k \<Longrightarrow> bit b j) \<Longrightarrow> esc b c (n + k) = (esc b c n = even k)"
  by (induction k) auto

lemma escape_mask:
  assumes "find_escape_mask_with_carry b (of_bool c) = (m, c')"
  shows "\<And>n. n < 64 \<Longrightarrow> \<not> bit b n \<Longrightarrow> bit m n \<longleftrightarrow> esc b c n" "c' = of_bool (esc b c 64)"
proof -
  define base where "base = ((((b + (run_starts b c AND even_bits)) AND NOT b) AND odd_bits) OR
    (((b + (run_starts b c AND odd_bits)) AND NOT b) AND even_bits)) OR of_bool c"
  define lead where "lead = (of_bool c \<noteq> (0 :: u64) \<and> b AND 1 \<noteq> 0 \<and> trailing_ones b < 64 \<and> even (trailing_ones b))"
  have m: "m = (if lead then base OR push_bit (trailing_ones b) 1 else base)"
    and c': "c' = (if b = - 1 then of_bool c else of_nat (leading_zeros (NOT b)) AND 1)"
    using assms unfolding find_escape_mask_with_carry_def Let_def run_starts_def[symmetric] base_def lead_def
    by (simp_all only: prod.inject)
  have c0: "bit (of_bool c :: u64) n \<longleftrightarrow> n = 0 \<and> c" for n by (auto simp: bit_of_bool_iff)
  have b0: "b AND 1 \<noteq> 0 \<longleftrightarrow> bit b 0" by (simp add: and_one_eq odd_iff_mod_2_eq_one bit_0)
  show "bit m n \<longleftrightarrow> esc b c n" if n: "n < 64" "\<not> bit b n" for n
  proof -
    have rs: "\<not> bit (run_starts b c) n" using bit_run_starts[OF n(1)] n(2) by simp
    have sums: "bit (b + (run_starts b c AND even_bits)) n = even_carry b c n"
      "bit (b + (run_starts b c AND odd_bits)) n = odd_carry b c n"
      using n rs by (simp_all add: bit_word_add bit_and_iff even_carry_def odd_carry_def)
    have base: "bit base n \<longleftrightarrow> even_carry b c n \<and> odd n \<or> odd_carry b c n \<and> even n \<or> n = 0 \<and> c"
      unfolding base_def using n mask_bits[OF n(1)] by (simp add: bit_and_iff bit_or_iff bit_not_iff sums c0)
    have m_n: "bit m n \<longleftrightarrow> bit base n \<or> lead \<and> trailing_ones b = n"
      unfolding m using n(1) by (auto simp: bit_or_iff bit_exp_iff possible_bit_word)
    note rc = run_carries[of n b c, unfolded Let_def]
    have lead_n: "lead \<and> trailing_ones b = n \<longleftrightarrow> leading b c n \<and> even n \<and> n > 0"
      using trailing_ones_at[OF n] n by (auto simp: lead_def b0 leading_def intro!: gr0I)
    show ?thesis
      using rc n unfolding m_n base lead_n by (auto simp: leading_def split: if_splits)
  qed
  show "c' = of_bool (esc b c 64)"
  proof (cases "\<forall>j < 64. bit b j")
    case True
    then have "b = - 1" by (intro bit_word_eqI) simp
    with True esc_run[of 0 64 b c] show ?thesis by (simp add: c')
  next
    case False
    define n where "n = Max {j. j < 64 \<and> \<not> bit b j}"
    have fin: "finite {j. j < 64 \<and> \<not> bit b j}" by simp
    from False have ne: "{j. j < 64 \<and> \<not> bit b j} \<noteq> {}" by auto
    from Max_in[OF fin ne] have n: "n < 64" "\<not> bit b n" by (simp_all add: n_def)
    have above: "bit b j" if "n < j" "j < 64" for j
    proof (rule ccontr)
      assume "\<not> bit b j"
      with that(2) Max_ge[OF fin, of j] have "j \<le> n" by (simp add: n_def)
      with that(1) show False by simp
    qed
    have "esc b c (Suc n + (63 - n)) = (esc b c (Suc n) = even (63 - n))"
      by (rule esc_run) (use above n in auto)
    then have "esc b c 64 \<longleftrightarrow> odd (63 - n)" using n by simp
    moreover have "b \<noteq> - 1" using n by auto
    moreover have "(of_nat k :: u64) AND 1 = of_bool (odd k)" for k
      by (simp add: and_one_bit bit_of_nat_iff possible_bit_word bit_0)
    ultimately show ?thesis by (simp add: c' leading_zeros_not[OF n above])
  qed
qed

section \<open>Set bits\<close>

lemma bit_clear_lowest:
  fixes w :: u64
  assumes "w \<noteq> 0"
  shows "bit (w AND (w - 1)) n \<longleftrightarrow> bit w n \<and> n \<noteq> trailing_zeros w"
proof (cases "n < 64")
  case True
  note tz = trailing_zeros_bits[OF assms]
  have carry_eq: "carry w (- 1) False k \<longleftrightarrow> (\<exists>j < k. bit w j)" if "k \<le> 64" for k
    using that by (induction k) (auto simp: Let_def less_Suc_eq)
  have "bit (w - 1) n \<longleftrightarrow> (bit w n \<noteq> True) \<noteq> (\<exists>j < n. bit w j)"
    using bit_word_add[of n w "- 1"] True carry_eq[of n] by simp
  moreover have "(\<exists>j < n. bit w j) \<longleftrightarrow> trailing_zeros w < n"
    using tz(1,2) by (meson linorder_not_less order.strict_trans1 order.strict_trans2 not_less_iff_gr_or_eq)
  ultimately show ?thesis
    using tz(2)[of n] tz(1) unfolding bit_and_iff by auto
next
  case False
  then show ?thesis using bit_imp_le_length[of w n] by (auto simp: bit_and_iff)
qed

definition set_bits_of :: "u64 \<Rightarrow> nat list" where
  "set_bits_of w = filter (bit w) [0..<64]"

lemma set_bits_of_step:
  assumes "w \<noteq> 0"
  shows "set_bits_of w = trailing_zeros w # set_bits_of (w AND (w - 1))"
proof -
  note tz = trailing_zeros_bits[OF assms]
  define n where "n = trailing_zeros w"
  have split: "[0..<64] = [0..<n] @ n # [Suc n..<64]"
    using tz(3) upt_add_eq_append[of 0 n "64 - n"] by (simp add: upt_conv_Cons n_def)
  have "filter (bit (w AND (w - 1))) ([0..<n] @ n # [Suc n..<64]) = filter (bit w) [Suc n..<64]"
    using tz(2) by (auto simp: bit_clear_lowest[OF assms] n_def[symmetric] filter_empty_conv intro!: filter_cong)
  moreover have "filter (bit w) ([0..<n] @ n # [Suc n..<64]) = n # filter (bit w) [Suc n..<64]"
    using tz(1,2) by (auto simp: n_def filter_empty_conv)
  ultimately show ?thesis by (simp only: set_bits_of_def split n_def[symmetric])
qed

termination emit_bits
proof (relation "measure (\<lambda>(msk, base, out). length (set_bits_of msk))")
  fix msk :: u64 and base :: u32 and out :: "u32 list"
  assume "msk \<noteq> 0"
  from set_bits_of_step[OF this]
  show "((msk AND (msk - 1), base, out @ [base + of_nat (trailing_zeros msk)]), msk, base, out)
      \<in> measure (\<lambda>(msk, base, out). length (set_bits_of msk))"
    by simp
qed simp

declare emit_bits.simps [simp del]

lemma emit_bits_eq: "emit_bits msk base out = out @ map (\<lambda>k. base + of_nat k) (set_bits_of msk)"
proof (induction msk base out rule: emit_bits.induct)
  case (1 msk base out)
  show ?case
  proof (cases "msk = 0")
    case True
    then show ?thesis by (subst emit_bits.simps) (simp add: set_bits_of_def)
  next
    case False
    with 1 show ?thesis by (simp add: emit_bits.simps[of msk] set_bits_of_step)
  qed
qed

section \<open>Prefix parity\<close>

fun parity :: "u64 \<Rightarrow> nat \<Rightarrow> bool" where
  "parity w 0 = False"
| "parity w (Suc n) = (parity w n \<noteq> bit w n)"

lemma bit_clmul_fold:
  "k < 64 \<Longrightarrow> m \<le> 64 \<Longrightarrow>
   bit (foldr (\<lambda>k acc. acc XOR (if bit w k then push_bit k (- 1) else 0)) [0..<m] (acc :: u64)) k =
     (bit acc k \<noteq> parity w (min m (Suc k)))"
proof (induction m arbitrary: acc)
  case (Suc m)
  define acc' where "acc' = acc XOR (if bit w m then push_bit m (- 1) else 0)"
  have push: "bit (push_bit m (- 1 :: u64)) k \<longleftrightarrow> m \<le> k"
    using Suc.prems(1) by (subst bit_push_bit_iff) (auto simp: possible_bit_word)
  have acc': "bit acc' k = (bit acc k \<noteq> (bit w m \<and> m \<le> k))"
    unfolding acc'_def bit_xor_iff using push by (cases "bit w m") simp_all
  have "m \<le> 64" using Suc.prems(2) by simp
  note IH = Suc.IH[OF Suc.prems(1) this, of acc']
  show ?case
  proof (cases "m \<le> k")
    case True
    then have "min m (Suc k) = m" "min (Suc m) (Suc k) = Suc m" by simp_all
    with IH acc' True show ?thesis by (simp only: upt_Suc_append foldr_append foldr.simps o_apply id_apply acc'_def[symmetric] le0 parity.simps) blast
  next
    case False
    then have "min m (Suc k) = Suc k" "min (Suc m) (Suc k) = Suc k" by simp_all
    with IH acc' False show ?thesis by (simp only: upt_Suc_append foldr_append foldr.simps o_apply id_apply acc'_def[symmetric] le0) blast
  qed
qed simp

lemma inside_string_mask_bits:
  assumes "inside_string_mask q (of_bool s) = (m, s')"
  shows "\<And>k. k < 64 \<Longrightarrow> bit m k \<longleftrightarrow> (s \<noteq> parity q (Suc k))" "s' = of_bool (s \<noteq> parity q 64)"
proof -
  have m: "m = (if s then NOT (clmul_lo q (- 1)) else clmul_lo q (- 1))" and s': "s' = drop_bit 63 m AND 1"
    using assms by (auto simp: inside_string_mask_def Let_def)
  have "bit (clmul_lo q (- 1)) k \<longleftrightarrow> parity q (Suc k)" if "k < 64" for k
  proof -
    have "min 64 (Suc k) = Suc k" using that by simp
    with bit_clmul_fold[of k 64 q 0] that show ?thesis by (simp add: clmul_lo_def del: parity.simps(2))
  qed
  then show bits: "bit m k \<longleftrightarrow> (s \<noteq> parity q (Suc k))" if "k < 64" for k
    using that by (simp add: m bit_not_iff possible_bit_word del: parity.simps(2))
  have "drop_bit 63 m AND 1 = of_bool (bit m 63)"
    by (simp add: and_one_bit bit_drop_bit_eq)
  with bits[of 63] show "s' = of_bool (s \<noteq> parity q 64)"
    by (simp add: s' del: parity.simps(2))
qed

end
