(* ===== verification/Scan_Simd.thy ===== *)
theory Scan_Simd
  imports Scan_Bits Scan_Scalar
begin

text \<open>
  The vectorised structural scanners (\<open>src/scan/avx2.rs\<close>, \<open>src/scan/neon.rs\<close>) and the dispatcher.
  Both read 64 bytes at a time into bit masks and hand the last bytes to the scalar scanner.

  \<open>memchr2\<close> of the \<open>memchr\<close> crate is a parameter: \<open>finds_first\<close> is what its documentation states.
\<close>

section \<open>The search of the memchr crate\<close>

type_synonym search2 = "u8 \<Rightarrow> u8 \<Rightarrow> bytes \<Rightarrow> nat option"

definition finds_first :: "search2 \<Rightarrow> bool" where
  "finds_first m \<longleftrightarrow> (\<forall>a b xs. m a b xs = position (\<lambda>x. x = a \<or> x = b) xs)"

section \<open>What the two loops share\<close>

text \<open>The jump to the chunk with the next quote or backslash, taken while 4096 bytes remain.\<close>

definition cross_chunk_jump :: "search2 \<Rightarrow> bytes \<Rightarrow> nat \<Rightarrow> nat" where
  "cross_chunk_jump memchr2 buf i =
     (if i + 4096 \<le> length buf then
        (let scan_end = length buf - length buf mod 64;
             jump = (case memchr2 34 92 (slice i scan_end buf) of
                       Some rel \<Rightarrow> rel div 64 * 64
                     | None \<Rightarrow> scan_end - i) in
         i + jump)
      else i)"

text \<open>The tail of less than 64 bytes and the bracket pass.\<close>

definition scan_tail :: "bytes \<Rightarrow> nat \<times> u64 \<times> u64 \<times> u32 list \<Rightarrow> scan_result" where
  "scan_tail buf st =
     (case st of (i, bs_carry, in_string, out) \<Rightarrow>
        if i < length buf then
          (let scalar_start = (if in_string \<noteq> 0 \<and> bs_carry \<noteq> 0 then i + 1 else i) in
           case scan_emit_resume buf scalar_start (in_string \<noteq> 0) out of
             (Ok _, out) \<Rightarrow> (validate_brackets buf out, out)
           | (Err e, out) \<Rightarrow> (Err e, out)
           | (Panic, out) \<Rightarrow> (Panic, out))
        else if in_string \<noteq> 0 then (Err (length buf), out)
        else (validate_brackets buf out, out))"

lemma cross_chunk_jump_ge: "i \<le> cross_chunk_jump m buf i"
  by (simp add: cross_chunk_jump_def Let_def split: option.split)

section \<open>AVX2\<close>

definition byte_mask :: "u8 list \<Rightarrow> u8 list \<Rightarrow> u8 \<Rightarrow> u64" where
  "byte_mask lo hi c =
     (let mlo = ucast (movemask (v_eq lo c) :: u32); mhi = ucast (movemask (v_eq hi c) :: u32) in
      mlo OR push_bit 32 mhi)"

definition quote_or_backslash_mask :: "u8 list \<Rightarrow> u8 list \<Rightarrow> u64" where
  "quote_or_backslash_mask lo hi =
     (let lo_or = v_or (v_eq lo 34) (v_eq lo 92);
          hi_or = v_or (v_eq hi 34) (v_eq hi 92);
          mlo = ucast (movemask lo_or :: u32);
          mhi = ucast (movemask hi_or :: u32) in
      mlo OR push_bit 32 mhi)"

definition structural_mask_chunk :: "u8 list \<Rightarrow> u8 list \<Rightarrow> u64" where
  "structural_mask_chunk lo hi =
     (let chars = [123, 125, 91, 93, 58, 44, 34];
          (mask_lo, mask_hi) = fold (\<lambda>c (mask_lo, mask_hi).
            (mask_lo OR movemask (v_eq lo c), mask_hi OR movemask (v_eq hi c))) chars (0 :: u32, 0 :: u32) in
      ucast mask_lo OR push_bit 32 (ucast mask_hi))"

text \<open>The loop over the chunks: the position reached, the carry, the string state and the index.\<close>

function scan_avx2_loop :: "search2 \<Rightarrow> bytes \<Rightarrow> nat \<Rightarrow> u64 \<Rightarrow> u64 \<Rightarrow> u32 list \<Rightarrow> nat \<times> u64 \<times> u64 \<times> u32 list" where
  "scan_avx2_loop memchr2 buf i bs_carry in_string out =
     (if i + 64 \<le> length buf then
        (let chunk_lo = load 32 buf i; chunk_hi = load 32 buf (i + 32) in
         if in_string \<noteq> 0 \<and> quote_or_backslash_mask chunk_lo chunk_hi = 0 then
           scan_avx2_loop memchr2 buf (cross_chunk_jump memchr2 buf (i + 64)) 0 in_string out
         else
           (let backslash = byte_mask chunk_lo chunk_hi 92;
                quote = byte_mask chunk_lo chunk_hi 34;
                (escaped, bs_carry) = find_escape_mask_with_carry backslash bs_carry;
                real_quote = quote AND NOT escaped;
                (inside, in_string) = inside_string_mask real_quote in_string;
                struct_mask = structural_mask_chunk chunk_lo chunk_hi;
                final_mask = (struct_mask AND NOT inside) OR real_quote in
            scan_avx2_loop memchr2 buf (i + 64) bs_carry in_string (emit_bits final_mask (of_nat i) out)))
      else (i, bs_carry, in_string, out))"
  by pat_completeness auto
termination
proof (relation "measure (\<lambda>(m, buf, i, _). length buf - i)", goal_cases)
  case (2 m buf i c s out lo hi)
  with cross_chunk_jump_ge[of "i + 64" m buf] show ?case by simp
qed simp_all

declare scan_avx2_loop.simps [simp del]

definition avx2_scan :: "search2 \<Rightarrow> bytes \<Rightarrow> u32 list \<Rightarrow> scan_result" where
  "avx2_scan memchr2 buf out =
     (if buf = [] then (Ok (), out) else scan_tail buf (scan_avx2_loop memchr2 buf 0 0 0 out))"

section \<open>NEON\<close>

definition TAG_QUOTE :: u8 where "TAG_QUOTE = 0x01"
definition TAG_COMMA :: u8 where "TAG_COMMA = 0x02"
definition TAG_COLON :: u8 where "TAG_COLON = 0x04"
definition TAG_OPEN_BRACKET :: u8 where "TAG_OPEN_BRACKET = 0x08"
definition TAG_CLOSE_BRACKET :: u8 where "TAG_CLOSE_BRACKET = 0x10"
definition TAG_OPEN_BRACE :: u8 where "TAG_OPEN_BRACE = 0x20"
definition TAG_CLOSE_BRACE :: u8 where "TAG_CLOSE_BRACE = 0x40"
definition TAG_BACKSLASH :: u8 where "TAG_BACKSLASH = 0x80"

definition TAG_STRUCTURAL :: u8 where
  "TAG_STRUCTURAL = TAG_QUOTE OR TAG_COMMA OR TAG_COLON OR TAG_OPEN_BRACKET OR TAG_CLOSE_BRACKET
     OR TAG_OPEN_BRACE OR TAG_CLOSE_BRACE"

definition HI_LUT :: "u8 list" where
  "HI_LUT =
     [0, 0, TAG_QUOTE OR TAG_COMMA, TAG_COLON,
      0, TAG_OPEN_BRACKET OR TAG_CLOSE_BRACKET OR TAG_BACKSLASH, 0, TAG_OPEN_BRACE OR TAG_CLOSE_BRACE,
      0, 0, 0, 0,
      0, 0, 0, 0]"

definition LO_LUT :: "u8 list" where
  "LO_LUT =
     [0, 0, TAG_QUOTE, 0,
      0, 0, 0, 0,
      0, 0, TAG_COLON, TAG_OPEN_BRACKET OR TAG_OPEN_BRACE,
      TAG_COMMA OR TAG_BACKSLASH, TAG_CLOSE_BRACKET OR TAG_CLOSE_BRACE, 0, 0]"

text \<open>Table lookup (\<open>vqtbl1q_u8\<close>), bit test (\<open>vtstq_u8\<close>) and pairwise widening addition (\<open>vpaddlq\<close>).\<close>

definition v_tbl :: "u8 list \<Rightarrow> u8 list \<Rightarrow> u8 list" where
  "v_tbl lut idx = map (\<lambda>k. if unat k < 16 then lut ! unat k else 0) idx"

definition v_tst :: "u8 list \<Rightarrow> u8 \<Rightarrow> u8 list" where
  "v_tst v bits = map (\<lambda>b. lane_mask (b AND bits \<noteq> 0)) v"

fun v_paddl :: "'a::len word list \<Rightarrow> 'b::len word list" where
  "v_paddl (x # y # v) = (ucast x + ucast y) # v_paddl v"
| "v_paddl v = []"

definition LANE_BITS :: "u8 list" where
  "LANE_BITS = [1, 2, 4, 8, 16, 32, 64, 128, 1, 2, 4, 8, 16, 32, 64, 128]"

definition movemask16 :: "u8 list \<Rightarrow> 16 word" where
  "movemask16 v =
     (let hi = map (signed_drop_bit 7) v;
          weighted = map2 (AND) hi LANE_BITS;
          s16 = v_paddl weighted :: 16 word list;
          s32 = v_paddl s16 :: u32 list;
          s64 = v_paddl s32 :: u64 list;
          lo = ucast (s64 ! 0);
          hi = ucast (s64 ! 1) in
      lo OR push_bit 8 hi)"

definition classify16 :: "u8 list \<Rightarrow> u8 list" where
  "classify16 v =
     (let lo = map (\<lambda>b. b AND 0x0F) v; hi = map (drop_bit 4) v in
      map2 (AND) (v_tbl HI_LUT hi) (v_tbl LO_LUT lo))"

definition tag_mask16 :: "u8 list \<Rightarrow> u8 \<Rightarrow> 16 word" where
  "tag_mask16 tag bits = movemask16 (v_tst tag bits)"

definition classify_tags64 :: "u8 list \<Rightarrow> u8 list \<Rightarrow> u8 list \<Rightarrow> u8 list \<Rightarrow> u8 list \<times> u8 list \<times> u8 list \<times> u8 list" where
  "classify_tags64 c0 c1 c2 c3 = (classify16 c0, classify16 c1, classify16 c2, classify16 c3)"

definition tag_mask64 :: "u8 list \<times> u8 list \<times> u8 list \<times> u8 list \<Rightarrow> u8 \<Rightarrow> u64" where
  "tag_mask64 t bits =
     (case t of (t0, t1, t2, t3) \<Rightarrow>
        ucast (tag_mask16 t0 bits)
        OR push_bit 16 (ucast (tag_mask16 t1 bits))
        OR push_bit 32 (ucast (tag_mask16 t2 bits))
        OR push_bit 48 (ucast (tag_mask16 t3 bits)))"

text \<open>The probe of a chunk inside a string: the maximum lane of the quote and backslash matches.\<close>

definition neon_probe :: "u8 list \<Rightarrow> u8 list \<Rightarrow> u8 list \<Rightarrow> u8 list \<Rightarrow> u8" where
  "neon_probe c0 c1 c2 c3 =
     (let m0 = v_or (v_eq c0 34) (v_eq c0 92);
          m1 = v_or (v_eq c1 34) (v_eq c1 92);
          m2 = v_or (v_eq c2 34) (v_eq c2 92);
          m3 = v_or (v_eq c3 34) (v_eq c3 92) in
      v_max (v_or (v_or m0 m1) (v_or m2 m3)))"

function scan_neon_loop :: "search2 \<Rightarrow> bytes \<Rightarrow> nat \<Rightarrow> u64 \<Rightarrow> u64 \<Rightarrow> u32 list \<Rightarrow> nat \<times> u64 \<times> u64 \<times> u32 list" where
  "scan_neon_loop memchr2 buf i bs_carry in_string out =
     (if i + 64 \<le> length buf then
        (let c0 = load 16 buf i; c1 = load 16 buf (i + 16);
             c2 = load 16 buf (i + 32); c3 = load 16 buf (i + 48) in
         if in_string \<noteq> 0 \<and> neon_probe c0 c1 c2 c3 = 0 then
           scan_neon_loop memchr2 buf (cross_chunk_jump memchr2 buf (i + 64)) 0 in_string out
         else
           (let tags = classify_tags64 c0 c1 c2 c3;
                backslash = tag_mask64 tags TAG_BACKSLASH;
                quote = tag_mask64 tags TAG_QUOTE;
                (escaped, bs_carry) = find_escape_mask_with_carry backslash bs_carry;
                real_quote = quote AND NOT escaped;
                (inside, in_string) = inside_string_mask real_quote in_string;
                struct_mask = tag_mask64 tags TAG_STRUCTURAL;
                final_mask = (struct_mask AND NOT inside) OR real_quote in
            scan_neon_loop memchr2 buf (i + 64) bs_carry in_string (emit_bits final_mask (of_nat i) out)))
      else (i, bs_carry, in_string, out))"
  by pat_completeness auto
termination
proof (relation "measure (\<lambda>(m, buf, i, _). length buf - i)", goal_cases)
  case (2 m buf i c s out c0 c1 c2 c3)
  with cross_chunk_jump_ge[of "i + 64" m buf] show ?case by simp
qed simp_all

declare scan_neon_loop.simps [simp del]

definition neon_scan :: "search2 \<Rightarrow> bytes \<Rightarrow> u32 list \<Rightarrow> scan_result" where
  "neon_scan memchr2 buf out =
     (if buf = [] then (Ok (), out) else scan_tail buf (scan_neon_loop memchr2 buf 0 0 0 out))"

section \<open>The dispatcher\<close>

definition scan :: "search2 \<Rightarrow> target \<Rightarrow> bytes \<Rightarrow> u32 list \<Rightarrow> scan_result" where
  "scan memchr2 tgt buf out =
     (if x86_64_avx2_build tgt \<and> cpu_avx2 tgt \<and> cpu_pclmulqdq tgt then avx2_scan memchr2 buf out
      else if aarch64_build tgt \<and> cpu_aes tgt then neon_scan memchr2 buf out
      else scalar_scan buf out)"

end
