(* ===== verification/Scan_Masks.thy ===== *)
theory Scan_Masks
  imports Scan_Simd Strings_Simd
begin

text \<open>
  The masks of the vectorised scanners: which bits they set, for AVX2 and for the NEON tables,
  and the meaning of one chunk in terms of a byte-at-a-time automaton.
\<close>

section \<open>Registers of bits\<close>

lemma bit_ucast_push:
  fixes w :: "'a::len word"
  assumes "k < 64" "m + LENGTH('a) \<le> 64"
  shows "bit (push_bit m (ucast w :: u64)) k \<longleftrightarrow> m \<le> k \<and> bit w (k - m)"
  using assms by (subst bit_push_bit_iff) (auto simp: bit_unsigned_iff possible_bit_word dest: bit_imp_le_length)

lemma bit_ucast64: "k < 64 \<Longrightarrow> bit (ucast (w :: 'a::len word) :: u64) k \<longleftrightarrow> bit w k"
  by (simp add: bit_unsigned_iff possible_bit_word)

lemma bit_mask_pair:
  fixes lo hi :: u32
  assumes "k < 64"
  shows "bit (ucast lo OR push_bit 32 (ucast hi :: u64)) k \<longleftrightarrow> (if k < 32 then bit lo k else bit hi (k - 32))"
proof -
  have "bit lo k \<Longrightarrow> k < 32" using bit_imp_le_length[of lo k] by simp
  then show ?thesis
    unfolding bit_or_iff using assms by (auto simp: bit_ucast_push bit_ucast64)
qed

lemma bit_movemask32:
  assumes "length v = 32" "k < 32"
  shows "bit (movemask v :: u32) k \<longleftrightarrow> bit (v ! k) 7"
  using assms by (simp add: bit_movemask)

section \<open>AVX2 masks\<close>

lemma load_lanes:
  assumes "i + 64 \<le> length buf" "k < 64"
  shows "(if k < 32 then load 32 buf i ! k else load 32 buf (i + 32) ! (k - 32)) = buf ! (i + k)"
  using assms by (simp add: nth_load)

lemma load_length32: "i + 64 \<le> length buf \<Longrightarrow> length (load 32 buf i) = 32 \<and> length (load 32 buf (i + 32)) = 32"
  by (simp add: length_load)

lemma byte_mask_bits:
  assumes i: "i + 64 \<le> length buf" and k: "k < 64"
  shows "bit (byte_mask (load 32 buf i) (load 32 buf (i + 32)) c) k \<longleftrightarrow> buf ! (i + k) = c"
  using load_lanes[OF i k] load_length32[OF i]
  unfolding byte_mask_def Let_def bit_mask_pair[OF k] using k by (auto simp: bit_movemask32 split: if_splits)

lemma structural_mask_bits:
  assumes i: "i + 64 \<le> length buf" and k: "k < 64"
  shows "bit (structural_mask_chunk (load 32 buf i) (load 32 buf (i + 32))) k \<longleftrightarrow> is_structural (buf ! (i + k))"
  using load_lanes[OF i k] load_length32[OF i]
proof -
  define lo hi where "lo = load 32 buf i" and "hi = load 32 buf (i + 32)"
  have k32: "k - 32 < 32" using k by simp
  have "bit (structural_mask_chunk lo hi) k \<longleftrightarrow>
      (if k < 32 then list_ex (\<lambda>c. bit (movemask (v_eq lo c) :: u32) k) [123, 125, 91, 93, 58, 44, 34]
       else list_ex (\<lambda>c. bit (movemask (v_eq hi c) :: u32) (k - 32)) [123, 125, 91, 93, 58, 44, 34])"
    by (simp add: structural_mask_chunk_def bit_mask_pair[OF k] del: bit_or_iff) (simp add: bit_or_iff)
  moreover have "length lo = 32" "length hi = 32" "(if k < 32 then lo ! k else hi ! (k - 32)) = buf ! (i + k)"
    using load_lanes[OF i k, folded lo_def hi_def] load_length32[OF i, folded lo_def hi_def] by blast+
  ultimately show ?thesis
    unfolding lo_def[symmetric] hi_def[symmetric] using k32
    by (cases "k < 32") (simp_all add: bit_movemask32 is_structural_def)
qed

lemma word64_zero: "(w :: u64) = 0 \<longleftrightarrow> (\<forall>k < 64. \<not> bit w k)"
proof
  assume "\<forall>k < 64. \<not> bit w k"
  then show "w = 0" by (intro bit_word_eqI) simp
qed simp

lemma quote_or_backslash_zero:
  assumes i: "i + 64 \<le> length buf"
  shows "quote_or_backslash_mask (load 32 buf i) (load 32 buf (i + 32)) = 0 \<longleftrightarrow>
    (\<forall>k < 64. buf ! (i + k) \<noteq> 34 \<and> buf ! (i + k) \<noteq> 92)"
proof -
  have "bit (quote_or_backslash_mask (load 32 buf i) (load 32 buf (i + 32))) k \<longleftrightarrow> buf ! (i + k) = 34 \<or> buf ! (i + k) = 92"
    if k: "k < 64" for k
    using load_lanes[OF i k] load_length32[OF i]
    unfolding quote_or_backslash_mask_def Let_def bit_mask_pair[OF k]
    using k by (auto simp: bit_movemask32 bit_or_iff split: if_splits)
  then show ?thesis by (auto simp: word64_zero)
qed

section \<open>NEON masks\<close>

text \<open>The two nibble tables classify every byte.\<close>

definition nibble_tag :: "u8 \<Rightarrow> u8" where
  "nibble_tag b = HI_LUT ! unat (drop_bit 4 b) AND LO_LUT ! unat (b AND 0x0F)"

lemmas tag_defs = TAG_QUOTE_def TAG_COMMA_def TAG_COLON_def TAG_OPEN_BRACKET_def TAG_CLOSE_BRACKET_def
  TAG_OPEN_BRACE_def TAG_CLOSE_BRACE_def TAG_BACKSLASH_def TAG_STRUCTURAL_def

lemma nibble_tag_all:
  "list_all (\<lambda>n. let b = of_nat n; t = nibble_tag b in
     (t AND TAG_STRUCTURAL \<noteq> 0) = is_structural b \<and> (t AND TAG_QUOTE \<noteq> 0) = (b = 34) \<and>
     (t AND TAG_BACKSLASH \<noteq> 0) = (b = 92)) [0..<256]"
  by code_simp

lemma nibble_tag_bits:
  "nibble_tag b AND TAG_STRUCTURAL \<noteq> 0 \<longleftrightarrow> is_structural b"
  "nibble_tag b AND TAG_QUOTE \<noteq> 0 \<longleftrightarrow> b = 34"
  "nibble_tag b AND TAG_BACKSLASH \<noteq> 0 \<longleftrightarrow> b = 92"
proof -
  have b: "of_nat (unat b) = b" "unat b \<in> set [0..<256]" using unsigned_less[of b] by simp_all
  from nibble_tag_all[unfolded list_all_iff, rule_format, OF b(2)] b(1)
  show "nibble_tag b AND TAG_STRUCTURAL \<noteq> 0 \<longleftrightarrow> is_structural b"
    "nibble_tag b AND TAG_QUOTE \<noteq> 0 \<longleftrightarrow> b = 34"
    "nibble_tag b AND TAG_BACKSLASH \<noteq> 0 \<longleftrightarrow> b = 92"
    by (simp_all add: Let_def)
qed

lemma classify16_eq: "classify16 v = map nibble_tag v"
proof -
  have "unat (drop_bit 4 b) < 16" "unat (b AND 0x0F) < 16" for b :: u8
  proof -
    show "unat (drop_bit 4 b) < 16"
    proof -
      have "unat b < 2 ^ LENGTH(8)" by (rule unsigned_less)
      then show ?thesis unfolding unat_drop_bit_eq by (simp add: drop_bit_eq_div less_mult_imp_div_less)
    qed
    have "b AND 0x0F \<le> 0x0F" by (rule word_and_le1)
    then show "unat (b AND 0x0F) < 16" by (simp add: word_le_nat_alt)
  qed
  then show ?thesis
    by (simp add: classify16_def Let_def v_tbl_def nibble_tag_def map2_map_map comp_def)
qed

text \<open>The weighted pairwise sums are the move-mask.\<close>

lemma lane_and: "signed_drop_bit 7 (lane_mask c) AND (w :: u8) = (if c then w else 0)"
proof -
  have "signed_drop_bit 7 (0xFF :: u8) = - 1" by code_simp
  then show ?thesis by (simp add: lane_mask_def)
qed

lemma sum8:
  "v_paddl (v_paddl (v_paddl
     [if b0 then 1 else 0, if b1 then 2 else 0, if b2 then 4 else 0, if b3 then 8 else 0,
      if b4 then 16 else 0, if b5 then 32 else 0, if b6 then 64 else 0, if b7 then (128 :: u8) else 0]
      :: 16 word list) :: u32 list) = [horner_sum of_bool 2 [b0, b1, b2, b3, b4, b5, b6, b7] :: u64]"
  by (cases b0; cases b1; cases b2; cases b3; cases b4; cases b5; cases b6; cases b7) simp_all

lemma length16:
  assumes "length v = 16"
  obtains b0 b1 b2 b3 b4 b5 b6 b7 b8 b9 b10 b11 b12 b13 b14 b15
  where "v = [b0, b1, b2, b3, b4, b5, b6, b7, b8, b9, b10, b11, b12, b13, b14, b15]"
  using assms by (auto simp: numeral_eq_Suc length_Suc_conv intro: that)

lemma movemask16_eq:
  assumes "length cs = 16"
  shows "movemask16 (map lane_mask cs) = movemask (map lane_mask cs)"
proof (rule bit_word_eqI)
  fix k assume "k < LENGTH(16)"
  then have k: "k < 16" by simp
  from assms obtain b0 b1 b2 b3 b4 b5 b6 b7 b8 b9 b10 b11 b12 b13 b14 b15
    where cs: "cs = [b0, b1, b2, b3, b4, b5, b6, b7, b8, b9, b10, b11, b12, b13, b14, b15]" by (rule length16)
  define xs where "xs = [b0, b1, b2, b3, b4, b5, b6, b7]"
  define ys where "ys = [b8, b9, b10, b11, b12, b13, b14, b15]"
  define s64 where "s64 = (v_paddl (v_paddl (v_paddl
    (map2 (AND) (map (signed_drop_bit 7) (map lane_mask cs)) LANE_BITS) :: 16 word list) :: u32 list) :: u64 list)"
  have s64: "s64 = [horner_sum of_bool 2 xs, horner_sum of_bool 2 ys]"
    using sum8[of b0 b1 b2 b3 b4 b5 b6 b7] sum8[of b8 b9 b10 b11 b12 b13 b14 b15]
    unfolding s64_def xs_def ys_def by (simp only: cs LANE_BITS_def list.map zip_Cons_Cons zip_Nil case_prod_conv lane_and v_paddl.simps list.inject)
  have "movemask16 (map lane_mask cs) = ucast (s64 ! 0) OR push_bit 8 (ucast (s64 ! 1))"
    by (simp only: movemask16_def Let_def s64_def)
  moreover have "bit (ucast (s64 ! 0) OR push_bit 8 (ucast (s64 ! 1)) :: 16 word) k \<longleftrightarrow> cs ! k"
  proof -
    have len: "length xs = 8" "length ys = 8" and cs': "cs = xs @ ys" by (simp_all add: xs_def ys_def cs)
    have "bit (push_bit 8 (ucast (w :: u64)) :: 16 word) k \<longleftrightarrow> 8 \<le> k \<and> bit w (k - 8)" for w
      using k by (subst bit_push_bit_iff) (auto simp: bit_unsigned_iff possible_bit_word)
    moreover have "bit (ucast (w :: u64) :: 16 word) k \<longleftrightarrow> bit w k" for w
      using k by (simp add: bit_unsigned_iff possible_bit_word)
    ultimately show ?thesis
      using k len unfolding s64 bit_or_iff by (auto simp: bit_horner_sum_bit_iff possible_bit_word cs' nth_append)
  qed
  ultimately show "bit (movemask16 (map lane_mask cs)) k = bit (movemask (map lane_mask cs) :: 16 word) k"
    using k assms by (simp add: bit_movemask)
qed

lemma tag_mask16_bits:
  assumes "length v = 16" "k < 16"
  shows "bit (tag_mask16 (classify16 v) bits) k \<longleftrightarrow> nibble_tag (v ! k) AND bits \<noteq> 0"
proof -
  have "tag_mask16 (classify16 v) bits = movemask16 (map lane_mask (map (\<lambda>b. nibble_tag b AND bits \<noteq> 0) v))"
    by (simp add: tag_mask16_def v_tst_def classify16_eq comp_def)
  also have "\<dots> = movemask (map lane_mask (map (\<lambda>b. nibble_tag b AND bits \<noteq> 0) v))"
    by (rule movemask16_eq) (simp add: assms)
  finally show ?thesis using assms by (simp add: bit_movemask)
qed

lemma tag_mask64_bits:
  assumes i: "i + 64 \<le> length buf" and k: "k < 64"
  shows "bit (tag_mask64 (classify_tags64 (load 16 buf i) (load 16 buf (i + 16)) (load 16 buf (i + 32)) (load 16 buf (i + 48))) bits) k
    \<longleftrightarrow> nibble_tag (buf ! (i + k)) AND bits \<noteq> 0"
proof -
  define b where "b = (\<lambda>j. bit (tag_mask16 (classify16 (load 16 buf (i + 16 * j))) bits))"
  have quarter: "b j (k - 16 * j) \<longleftrightarrow> nibble_tag (buf ! (i + k)) AND bits \<noteq> 0" if "16 * j \<le> k" "k < 16 * j + 16" for j
  proof -
    have "16 * j + 16 \<le> 64" using k that by arith
    with i have "i + 16 * j + 16 \<le> length buf" by simp
    with that show ?thesis unfolding b_def by (subst tag_mask16_bits) (simp_all add: length_load nth_load)
  qed
  have small: "b j n \<Longrightarrow> n < 16" for j n unfolding b_def using bit_imp_le_length by fastforce
  have "bit (tag_mask64 (classify_tags64 (load 16 buf i) (load 16 buf (i + 16)) (load 16 buf (i + 32)) (load 16 buf (i + 48))) bits) k
    \<longleftrightarrow> b 0 k \<or> 16 \<le> k \<and> b 1 (k - 16) \<or> 32 \<le> k \<and> b 2 (k - 32) \<or> 48 \<le> k \<and> b 3 (k - 48)"
    unfolding tag_mask64_def classify_tags64_def prod.case bit_or_iff using k
    by (simp add: bit_ucast64 bit_ucast_push b_def)
  moreover consider "k < 16" | "16 \<le> k" "k < 32" | "32 \<le> k" "k < 48" | "48 \<le> k" by linarith
  then have "b 0 k \<or> 16 \<le> k \<and> b 1 (k - 16) \<or> 32 \<le> k \<and> b 2 (k - 32) \<or> 48 \<le> k \<and> b 3 (k - 48)
    \<longleftrightarrow> nibble_tag (buf ! (i + k)) AND bits \<noteq> 0"
    using k small[of 0 k] small[of 1 "k - 16"] small[of 2 "k - 32"] quarter[of 0] quarter[of 1] quarter[of 2] quarter[of 3]
    by cases auto
  ultimately show ?thesis by simp
qed

lemma v_or_zero:
  "length v = length w \<Longrightarrow> (\<forall>b \<in> set (v_or v w). b = 0) \<longleftrightarrow> (\<forall>b \<in> set v. b = 0) \<and> (\<forall>b \<in> set w. b = 0)"
  by (induction v w rule: list_induct2) (auto simp: v_or_def or_eq_0_iff)

lemma neon_probe_zero:
  assumes i: "i + 64 \<le> length buf"
  shows "neon_probe (load 16 buf i) (load 16 buf (i + 16)) (load 16 buf (i + 32)) (load 16 buf (i + 48)) = 0 \<longleftrightarrow>
    (\<forall>k < 64. buf ! (i + k) \<noteq> 34 \<and> buf ! (i + k) \<noteq> 92)"
proof -
  define clean where "clean = (\<lambda>b :: u8. b \<noteq> 34 \<and> b \<noteq> 92)"
  have len: "length (load 16 buf (i + n)) = 16" if "n + 16 \<le> 64" for n using i that by (simp add: length_load)
  have eq_zero: "(\<forall>b \<in> set (v_eq v c). b = 0) \<longleftrightarrow> c \<notin> set v" for v c
    by (auto simp: v_eq_def lane_mask_def)
  have probe: "neon_probe (load 16 buf i) (load 16 buf (i + 16)) (load 16 buf (i + 32)) (load 16 buf (i + 48)) = 0 \<longleftrightarrow>
      list_all clean (load 16 buf i @ load 16 buf (i + 16) @ load 16 buf (i + 32) @ load 16 buf (i + 48))"
    using len[of 0] len[of 16] len[of 32] len[of 48]
    by (auto simp: neon_probe_def v_max_zero v_or_zero eq_zero clean_def list_all_iff)
  have cat: "load m buf j @ load n buf (j + m) = load (m + n) buf j" for m n j
    by (simp add: load_def slice_def take_add add.commute)
  have "load 16 buf i @ load 16 buf (i + 16) @ load 16 buf (i + 32) @ load 16 buf (i + 48) = load 64 buf i"
    using cat[of 16 i 48] cat[of 16 "i + 16" 32] cat[of 16 "i + 32" 16] by (simp add: ac_simps)
  with probe i show ?thesis
    by (simp add: list_all_length length_load nth_load clean_def)
qed

end
