(* ===== verification/Skip_Cache.thy ===== *)
theory Skip_Cache
  imports Prelude
begin

text \<open>
  \<open>src/skip_cache.rs\<close>: for a container already walked, the index positions where its children
  start and end. Slot 0 is reserved. Openers, children and slot numbers are \<open>u32\<close>; the number of a
  new slot is the number of slots truncated to a \<open>u32\<close>. The hash map is a map; sharing of empty
  slices is not observable. \<open>debug_assert_eq!\<close> is kept: inserting lists of different lengths is a
  panic, as in a debug build, so what is proved to succeed never relies on a release build.
\<close>

section \<open>Definitions\<close>

record skip_slot =
  child_starts :: "u32 list"
  child_ends :: "u32 list"

record skip_cache =
  slots :: "skip_slot list"
  by_opener :: "u32 \<Rightarrow> u32 option"

definition cache_new :: skip_cache where
  "cache_new = \<lparr>slots = [\<lparr>child_starts = [], child_ends = []\<rparr>], by_opener = Map.empty\<rparr>"

definition cache_get :: "skip_cache \<Rightarrow> u32 \<Rightarrow> u32 option" where
  "cache_get cache opener_idx = by_opener cache opener_idx"

definition cache_slot :: "skip_cache \<Rightarrow> u32 \<Rightarrow> (skip_slot, 'e) outcome" where
  "cache_slot cache n = at (slots cache) (unat n)"

definition cache_insert :: "skip_cache \<Rightarrow> u32 \<Rightarrow> u32 list \<Rightarrow> u32 list \<Rightarrow> (skip_cache, 'e) outcome" where
  "cache_insert cache opener_idx starts ends =
     (if length starts \<noteq> length ends then Panic
      else
        (let (slot_n, cache) =
           (case by_opener cache opener_idx of
              Some slot \<Rightarrow> (slot, cache)
            | None \<Rightarrow>
                (let slot = of_nat (length (slots cache)) in
                 (slot, cache\<lparr>slots := slots cache @ [\<lparr>child_starts = [], child_ends = []\<rparr>],
                    by_opener := (by_opener cache)(opener_idx \<mapsto> slot)\<rparr>))) in
         if unat slot_n < length (slots cache)
         then Ok (cache\<lparr>slots := (slots cache)[unat slot_n := \<lparr>child_starts = starts, child_ends = ends\<rparr>]\<rparr>)
         else Panic))"

section \<open>The cache is a map from openers to children\<close>

text \<open>
  Every slot but the reserved one belongs to one opener, and the sentinel \<open>U32_MAX\<close> is not an
  opener. Hence there are at most \<open>2 ^ 32\<close> slots and the number of a new one is exact.
\<close>

definition cache_inv :: "skip_cache \<Rightarrow> bool" where
  "cache_inv cache \<longleftrightarrow> slots cache ! 0 = \<lparr>child_starts = [], child_ends = []\<rparr> \<and>
     length (slots cache) = Suc (card (dom (by_opener cache))) \<and> U32_MAX \<notin> dom (by_opener cache) \<and>
     (\<forall>k n. by_opener cache k = Some n \<longrightarrow> 0 < unat n \<and> unat n < length (slots cache)) \<and>
     inj_on (by_opener cache) (dom (by_opener cache))"

definition cache_lookup :: "skip_cache \<Rightarrow> u32 \<Rightarrow> (u32 list \<times> u32 list) option" where
  "cache_lookup cache k =
     map_option (\<lambda>n. (child_starts (slots cache ! unat n), child_ends (slots cache ! unat n))) (by_opener cache k)"

lemma cache_new_inv: "cache_inv cache_new" and cache_new_lookup: "cache_lookup cache_new k = None"
  by (simp_all add: cache_new_def cache_inv_def cache_lookup_def)

lemma cache_slot_lookup:
  assumes "cache_inv cache" "cache_get cache k = Some n"
  shows "\<exists>s. cache_slot cache n = Ok s \<and> cache_lookup cache k = Some (child_starts s, child_ends s)"
  using assms by (auto simp: cache_inv_def cache_get_def cache_slot_def at_def cache_lookup_def)

lemma cache_get_lookup: "cache_get cache k = None \<longleftrightarrow> cache_lookup cache k = None"
  by (simp add: cache_get_def cache_lookup_def)

text \<open>With a key to spare besides the sentinel, the number of slots fits a \<open>u32\<close>.\<close>

lemma card_openers:
  assumes "(k :: u32) \<notin> A" "U32_MAX \<notin> A" "k \<noteq> U32_MAX"
  shows "Suc (card A) < 2 ^ 32"
proof -
  have "card A + card {k, U32_MAX} = card (A \<union> {k, U32_MAX})"
    using assms by (intro card_Un_disjoint[symmetric]) auto
  also have "\<dots> \<le> card (UNIV :: u32 set)" by (intro card_mono) auto
  also have "\<dots> = 2 ^ 32" by (simp add: card_word)
  finally show ?thesis using assms(3) by simp
qed

lemma cache_insert_new:
  assumes inv: "cache_inv cache" and new: "by_opener cache k = None"
    and key: "k \<noteq> U32_MAX" and len: "length starts = length ends"
  shows "\<exists>cache'. cache_insert cache k starts ends = Ok cache' \<and> cache_inv cache' \<and>
    (\<forall>j. cache_lookup cache' j = (if j = k then Some (starts, ends) else cache_lookup cache j))"
proof -
  define n where "n = length (slots cache)"
  define w where "w = (of_nat n :: u32)"
  define cache' where "cache' = cache\<lparr>slots := slots cache @ [\<lparr>child_starts = starts, child_ends = ends\<rparr>],
    by_opener := (by_opener cache)(k \<mapsto> w)\<rparr>"
  have dom: "k \<notin> dom (by_opener cache)" "U32_MAX \<notin> dom (by_opener cache)"
    "n = Suc (card (dom (by_opener cache)))"
    using inv new by (auto simp: cache_inv_def n_def)
  from card_openers[OF dom(1,2) key] have w: "unat w = n"
    by (simp add: w_def dom(3) unat_of_nat32 del: of_nat_Suc)
  have ok: "cache_insert cache k starts ends = Ok cache'"
    using new len w by (simp add: cache_insert_def cache'_def n_def w_def Let_def list_update_append)
  have less: "by_opener cache j = Some m \<Longrightarrow> unat m < n" for j m
    using inv by (auto simp: cache_inv_def n_def)
  have inj: "inj_on (by_opener cache) (dom (by_opener cache))"
    using inv by (simp add: cache_inv_def)
  have "inj_on (by_opener cache') (dom (by_opener cache'))"
  proof (rule inj_onI)
    fix a b assume "a \<in> dom (by_opener cache')" "b \<in> dom (by_opener cache')" "by_opener cache' a = by_opener cache' b"
    then show "a = b"
      using less[of a w] less[of b w] inj w by (auto simp: cache'_def inj_on_def dom_def split: if_splits)
  qed
  moreover have "dom (by_opener cache') = insert k (dom (by_opener cache))"
    by (simp add: cache'_def)
  ultimately have "cache_inv cache'"
    using inv key w dom(1) less
    by (auto simp: cache_inv_def cache'_def nth_append n_def[symmetric] less_Suc_eq dom(3) split: if_splits)
  moreover have "cache_lookup cache' j = (if j = k then Some (starts, ends) else cache_lookup cache j)" for j
    using less[of j]
    by (cases "by_opener cache j") (auto simp: cache_lookup_def cache'_def w n_def nth_append)
  ultimately show ?thesis using ok by blast
qed

lemma cache_insert_old:
  assumes inv: "cache_inv cache" and old: "by_opener cache k = Some n" and len: "length starts = length ends"
  shows "\<exists>cache'. cache_insert cache k starts ends = Ok cache' \<and> cache_inv cache' \<and>
    (\<forall>j. cache_lookup cache' j = (if j = k then Some (starts, ends) else cache_lookup cache j))"
proof -
  define cache' where "cache' = cache\<lparr>slots := (slots cache)[unat n := \<lparr>child_starts = starts, child_ends = ends\<rparr>]\<rparr>"
  have n: "0 < unat n" "unat n < length (slots cache)"
    using inv old by (auto simp: cache_inv_def)
  then have ok: "cache_insert cache k starts ends = Ok cache'"
    using old len by (simp add: cache_insert_def cache'_def)
  have "cache_inv cache'"
    using inv n by (auto simp: cache_inv_def cache'_def)
  moreover have "cache_lookup cache' j = (if j = k then Some (starts, ends) else cache_lookup cache j)" for j
  proof (cases "by_opener cache j")
    case (Some m)
    have "m = n \<longleftrightarrow> j = k"
      using inv old Some by (auto simp: cache_inv_def inj_on_def dom_def)
    then have "unat m = unat n \<longleftrightarrow> j = k" by (simp add: word_unat_eq_iff)
    moreover have "unat m < length (slots cache)" using inv Some by (auto simp: cache_inv_def)
    ultimately show ?thesis
      using Some by (auto simp: cache_lookup_def cache'_def nth_list_update)
  next
    case None
    with old have "j \<noteq> k" by auto
    with None show ?thesis by (simp add: cache_lookup_def cache'_def)
  qed
  ultimately show ?thesis using ok by blast
qed

lemma cache_insert_lookup:
  assumes "cache_inv cache" "k \<noteq> U32_MAX" "length starts = length ends"
  shows "\<exists>cache'. cache_insert cache k starts ends = Ok cache' \<and> cache_inv cache' \<and>
    (\<forall>j. cache_lookup cache' j = (if j = k then Some (starts, ends) else cache_lookup cache j))"
proof (cases "by_opener cache k")
  case None
  then show ?thesis by (rule cache_insert_new[OF assms(1) _ assms(2,3)])
next
  case (Some n)
  then show ?thesis by (rule cache_insert_old[OF assms(1) _ assms(3)])
qed

section \<open>The interface\<close>

text \<open>
  What the cursor relies on: inserting an admissible value at an admissible key never fails and a
  lookup reads the last insertion.
\<close>

locale child_cache =
  fixes empty :: "'c"
    and lookup :: "'c \<Rightarrow> 'k \<Rightarrow> 'v option"
    and insert_entry :: "'c \<Rightarrow> 'k \<Rightarrow> 'v \<Rightarrow> 'c option"
    and inv :: "'c \<Rightarrow> bool"
    and adm :: "'k \<Rightarrow> 'v \<Rightarrow> bool"
  assumes empty_inv: "inv empty"
    and empty_lookup: "lookup empty k = None"
    and insert_ok: "inv c \<Longrightarrow> adm k v \<Longrightarrow> \<exists>c'. insert_entry c k v = Some c' \<and> inv c' \<and> lookup c' = (lookup c)(k \<mapsto> v)"
begin

text \<open>Every entry satisfies what each insertion satisfied.\<close>

definition entries :: "('k \<Rightarrow> 'v \<Rightarrow> bool) \<Rightarrow> 'c \<Rightarrow> bool" where
  "entries P c \<longleftrightarrow> inv c \<and> (\<forall>k v. lookup c k = Some v \<longrightarrow> P k v)"

lemma entries_empty: "entries P empty"
  by (simp add: entries_def empty_inv empty_lookup)

lemma entries_insert:
  "entries P c \<Longrightarrow> P k v \<Longrightarrow> adm k v \<Longrightarrow> \<exists>c'. insert_entry c k v = Some c' \<and> entries P c'"
  using insert_ok[of c k v] by (auto simp: entries_def)

text \<open>Sequences of insertions: a lookup reads the last value given to the key.\<close>

fun insert_list :: "'c \<Rightarrow> ('k \<times> 'v) list \<Rightarrow> 'c option" where
  "insert_list c [] = Some c"
| "insert_list c ((k, v) # es) = Option.bind (insert_entry c k v) (\<lambda>c. insert_list c es)"

lemma insert_list_lookup:
  "inv c \<Longrightarrow> \<forall>(k, v) \<in> set es. adm k v \<Longrightarrow>
    \<exists>c'. insert_list c es = Some c' \<and> inv c' \<and> lookup c' = lookup c ++ map_of (rev es)"
proof (induction es arbitrary: c)
  case (Cons e es)
  obtain k v where e: "e = (k, v)" by (cases e)
  with insert_ok[OF Cons.prems(1), of k v] Cons.prems(2) obtain c1 where
    c1: "insert_entry c k v = Some c1" "inv c1" "lookup c1 = (lookup c)(k \<mapsto> v)" by auto
  from Cons.IH[OF c1(2)] Cons.prems(2) obtain c2 where
    c2: "insert_list c1 es = Some c2" "inv c2" "lookup c2 = lookup c1 ++ map_of (rev es)" by auto
  have "lookup c1 ++ map_of (rev es) = lookup c ++ map_of (rev (e # es))"
    by (simp add: c1(3) e map_add_assoc[symmetric] fun_eq_iff map_add_def split: option.split)
  with c1 c2 show ?case by (simp add: e)
qed simp

lemma insert_list_empty:
  assumes "\<forall>(k, v) \<in> set es. adm k v"
  shows "\<exists>c. insert_list empty es = Some c \<and> inv c \<and> lookup c = map_of (rev es)"
proof -
  have "lookup empty = Map.empty" by (simp add: fun_eq_iff empty_lookup)
  with insert_list_lookup[OF empty_inv assms] show ?thesis by simp
qed

end

definition ok_option :: "('a, unit) outcome \<Rightarrow> 'a option" where
  "ok_option r = (case r of Ok x \<Rightarrow> Some x | _ \<Rightarrow> None)"

definition cacheable :: "u32 \<Rightarrow> u32 list \<times> u32 list \<Rightarrow> bool" where
  "cacheable k v \<longleftrightarrow> k \<noteq> U32_MAX \<and> length (fst v) = length (snd v)"

interpretation skip: child_cache cache_new cache_lookup
  "\<lambda>c k v. ok_option (cache_insert c k (fst v) (snd v))" cache_inv cacheable
proof
  fix c k and v :: "u32 list \<times> u32 list" assume "cache_inv c" "cacheable k v"
  then have "\<exists>c'. (cache_insert c k (fst v) (snd v) :: (skip_cache, unit) outcome) = Ok c' \<and> cache_inv c' \<and>
      (\<forall>j. cache_lookup c' j = (if j = k then Some (fst v, snd v) else cache_lookup c j))"
    by (intro cache_insert_lookup) (simp_all add: cacheable_def)
  then show "\<exists>c'. ok_option (cache_insert c k (fst v) (snd v)) = Some c' \<and> cache_inv c' \<and>
      cache_lookup c' = (cache_lookup c)(k \<mapsto> v)"
    by (auto simp: ok_option_def fun_eq_iff)
qed (simp_all add: cache_new_inv cache_new_lookup)

section \<open>Sequences of insertions\<close>

fun insert_all :: "skip_cache \<Rightarrow> (u32 \<times> u32 list \<times> u32 list) list \<Rightarrow> (skip_cache, 'e) outcome" where
  "insert_all cache [] = Ok cache"
| "insert_all cache ((k, starts, ends) # es) = and_then (cache_insert cache k starts ends) (\<lambda>cache. insert_all cache es)"

lemma cache_insert_ok_option:
  "ok_option (cache_insert c k starts ends) = Some c' \<Longrightarrow> cache_insert c k starts ends = Ok c'"
  by (auto simp: ok_option_def cache_insert_def Let_def split: if_splits prod.splits outcome.splits)

lemma insert_list_all: "skip.insert_list c es = Some c' \<Longrightarrow> (insert_all c es :: (skip_cache, 'e) outcome) = Ok c'"
proof (induction es arbitrary: c)
  case (Cons e es)
  obtain k s t where e: "e = (k, s, t)" by (cases e)
  with Cons.prems obtain c1 where c1: "ok_option (cache_insert c k s t) = Some c1" "skip.insert_list c1 es = Some c'"
    by (auto simp: bind_eq_Some_conv)
  from cache_insert_ok_option[OF c1(1), where ?'a = 'e] Cons.IH[OF c1(2)] show ?case
    by (simp add: e del: and_then_eq_Ok)
qed simp

lemma insert_all_new:
  assumes "\<forall>(k, v) \<in> set es. cacheable k v"
  shows "\<exists>c. (insert_all cache_new es :: (skip_cache, 'e) outcome) = Ok c \<and> cache_inv c \<and>
    (\<forall>k. cache_lookup c k = map_of (rev es) k)"
proof -
  from skip.insert_list_empty[OF assms] obtain c where
    c: "skip.insert_list cache_new es = Some c" "cache_inv c" "cache_lookup c = map_of (rev es)" by blast
  from insert_list_all[OF c(1), where ?'e = 'e] c(2,3) show ?thesis by auto
qed

end
