(* ===== verification/Document.thy ===== *)
theory Document
  imports Eager Skip_Cache Scan_Scalar
begin

text \<open>
  \<open>src/doc.rs\<close>: the document record and the parse pipeline (scan, trailing content, eager
  validation or depth check). The scanner is an argument, because the code picks one at run time
  from the features of the processor. The \<open>RefCell\<close> and \<open>Cell\<close> fields are ordinary fields; an
  operation that writes one returns the document.
\<close>

section \<open>The document\<close>

record document =
  doc_buf :: bytes
  indices :: "u32 list"
  eager_validated :: bool
  scratch :: bytes
  skip :: skip_cache
  last_error_offset :: nat

fun scan_error_ended_inside_string_loop :: "bytes \<Rightarrow> u32 list \<Rightarrow> bool \<Rightarrow> bool" where
  "scan_error_ended_inside_string_loop buf [] in_string = in_string"
| "scan_error_ended_inside_string_loop buf (idx # idxs) in_string =
     scan_error_ended_inside_string_loop buf idxs
       (if slice_get buf (unat idx) = Some 34 then \<not> in_string else in_string)"

definition scan_error_ended_inside_string :: "bytes \<Rightarrow> u32 list \<Rightarrow> bool" where
  "scan_error_ended_inside_string buf idxs = scan_error_ended_inside_string_loop buf idxs False"

section \<open>Parsing\<close>

type_synonym scanner = "bytes \<Rightarrow> u32 list \<Rightarrow> scan_result"

definition document_new :: "bytes \<Rightarrow> u32 list \<Rightarrow> bool \<Rightarrow> document" where
  "document_new buf idxs eager =
     \<lparr>doc_buf = buf, indices = idxs, eager_validated = eager, scratch = [], skip = cache_new,
      last_error_offset = QJSON_NO_OFFSET\<rparr>"

definition parse_with_options_detailed ::
  "scanner \<Rightarrow> target \<Rightarrow> bytes \<Rightarrow> options \<Rightarrow> (document, parse_error) outcome" where
  "parse_with_options_detailed scan tgt buf opts =
     (if list_all is_ws buf then Err (parse_error_no_offset QJSON_PARSE_ERROR)
      else
        (let max_depth = effective_max_depth opts in
         case scan buf [] of
           (Err offset, idxs) \<Rightarrow>
             if offset = length buf \<and> \<not> scan_error_ended_inside_string buf idxs then
               (let idxs = idxs @ [U32_MAX] in
                if is_eager opts then
                  (case validate_eager_values_with_offset tgt buf idxs max_depth of
                     Err err \<Rightarrow> Err err
                   | Ok _ \<Rightarrow> Err (parse_error_new QJSON_PARSE_ERROR offset)
                   | Panic \<Rightarrow> Panic)
                else and_then (validate_depth_with_offset tgt buf idxs max_depth) (\<lambda>_.
                  Err (parse_error_new QJSON_PARSE_ERROR offset)))
             else Err (parse_error_new QJSON_PARSE_ERROR offset)
         | (Panic, _) \<Rightarrow> Panic
         | (Ok _, idxs) \<Rightarrow>
             (let idxs = idxs @ [U32_MAX] in
              and_then
                (if is_eager opts then
                   and_then (validate_trailing_with_offset buf idxs) (\<lambda>_.
                     validate_eager_values_with_offset tgt buf idxs max_depth)
                 else validate_depth_with_offset tgt buf idxs max_depth)
                (\<lambda>_. Ok (document_new buf idxs (is_eager opts))))))"

definition parse_with_options ::
  "scanner \<Rightarrow> target \<Rightarrow> bytes \<Rightarrow> options \<Rightarrow> (document, qjson_err) outcome" where
  "parse_with_options scan tgt buf opts = map_err pe_code (parse_with_options_detailed scan tgt buf opts)"

text \<open>\<open>Document::parse\<close>.\<close>

definition document_parse :: "scanner \<Rightarrow> target \<Rightarrow> bytes \<Rightarrow> (document, qjson_err) outcome" where
  "document_parse scan tgt buf = parse_with_options scan tgt buf options_default"

section \<open>The error offset\<close>

definition clear_last_error_offset :: "document \<Rightarrow> document" where
  "clear_last_error_offset d = d\<lparr>last_error_offset := QJSON_NO_OFFSET\<rparr>"

definition set_last_error_offset :: "nat \<Rightarrow> document \<Rightarrow> document" where
  "set_last_error_offset offset d = d\<lparr>last_error_offset := offset\<rparr>"

section \<open>Value types\<close>

text \<open>A cursor, a pair of positions in the index (\<open>Cursor\<close> of \<open>src/cursor.rs\<close>).\<close>

record cursor =
  idx_start :: nat
  idx_end :: nat

definition is_root_scalar_cursor :: "document \<Rightarrow> cursor \<Rightarrow> bool" where
  "is_root_scalar_cursor d cur \<longleftrightarrow>
     idx_start cur = 0 \<and> length (indices d) = 1 \<and> indices d ! 0 = U32_MAX"

definition root_scalar_start :: "document \<Rightarrow> (nat, 'e) outcome" where
  "root_scalar_start d = skip_ws_to (doc_buf d) 0 (length (doc_buf d))"

definition scalar_type_at :: "document \<Rightarrow> nat \<Rightarrow> (qjson_type, qjson_err) outcome" where
  "scalar_type_at d scalar_start =
     (case slice_get (doc_buf d) scalar_start of
        Some c \<Rightarrow>
          if c = 116 \<or> c = 102 then Ok QJSON_T_BOOL
          else if c = 110 then Ok QJSON_T_NULL
          else if c = 45 \<or> is_digit c then Ok QJSON_T_NUM
          else Err QJSON_PARSE_ERROR
      | None \<Rightarrow> Err QJSON_PARSE_ERROR)"

definition find_scalar_start :: "document \<Rightarrow> nat \<Rightarrow> (nat, qjson_err) outcome" where
  "find_scalar_start d idx =
     (if idx = 0 then Err QJSON_PARSE_ERROR
      else and_then (at (indices d) (idx - 1)) (\<lambda>prev.
        skip_ws_to (doc_buf d) (unat prev + 1) (length (doc_buf d))))"

text \<open>\<open>x.ok_or(e)?\<close>.\<close>

definition ok_or :: "'e \<Rightarrow> 'a option \<Rightarrow> ('a, 'e) outcome" where
  "ok_or e x = (case x of Some v \<Rightarrow> Ok v | None \<Rightarrow> Err e)"

definition type_of :: "document \<Rightarrow> cursor \<Rightarrow> (qjson_type, qjson_err) outcome" where
  "type_of d cur =
     (if is_root_scalar_cursor d cur then and_then (root_scalar_start d) (scalar_type_at d)
      else
        and_then (ok_or QJSON_PARSE_ERROR (slice_get (indices d) (idx_start cur))) (\<lambda>pos.
        and_then (ok_or QJSON_PARSE_ERROR (slice_get (doc_buf d) (unat pos))) (\<lambda>lead.
          if lead = 34 then Ok QJSON_T_STR
          else if lead = 123 then Ok QJSON_T_OBJ
          else if lead = 91 then Ok QJSON_T_ARR
          else and_then (find_scalar_start d (idx_start cur)) (scalar_type_at d))))"

end
