(* ===== verification/Parse.thy ===== *)
theory Parse
  imports Document Eager_Correct
begin

text \<open>
  What \<open>Document::parse\<close> accepts. The scanners meet one contract, the locale
  \<open>structural_scanner\<close>; the theorems about the pipeline are proved once inside it.
\<close>

section \<open>The passes on the token list\<close>

lemma offset_unat:
  assumes "length buf < 2 ^ 32" "n < length buf"
  shows "unat (of_nat n :: u32) = n" "(of_nat n :: u32) \<noteq> U32_MAX"
proof -
  show n: "unat (of_nat n :: u32) = n" using assms by (intro unat_of_nat32) simp
  show "(of_nat n :: u32) \<noteq> U32_MAX"
  proof
    assume "(of_nat n :: u32) = U32_MAX"
    then have "unat (of_nat n :: u32) = 2 ^ 32 - 1" by (simp only: unat_U32_MAX)
    with n assms show False by simp
  qed
qed

lemma drop_Cons_nth: "drop n buf = b # xs \<Longrightarrow> n < length buf \<and> buf ! n = b \<and> drop (Suc n) buf = xs"
  by (rule drop_eq_ConsD)

text \<open>Text that pairs its brackets leaves the search for the root closer at the same depth.\<close>

lemma root_closer_skip:
  assumes "length buf < 2 ^ 32" "drop n buf = xs @ rst"
    "pair_brackets st (lex_tokens s n xs) = Inr st'"
  shows "root_closer buf (offsets (lex_tokens s n xs) @ rest) (1 + int (length st)) c (s \<noteq> Outside) =
    root_closer buf rest (1 + int (length st')) c (lex_run s xs \<noteq> Outside)"
  using assms(2,3)
proof (induction xs arbitrary: n s st)
  case Nil
  then show ?case by simp
next
  case (Cons b xs)
  from Cons.prems have n: "n < length buf" "buf ! n = b" and d: "drop (Suc n) buf = xs @ rst"
    by (auto dest: drop_eq_ConsD)
  note un = offset_unat[OF assms(1) n(1)]
  note IH = Cons.IH[OF d]
  show ?case
  proof (cases s)
    case Outside
    consider "b = 125 \<or> b = 93" | "b = 123 \<or> b = 91" | "b = 34" | "b = 58 \<or> b = 44" | "\<not> is_structural b"
      by (auto simp: is_structural_def)
    then show ?thesis
    proof cases
      case 1
      with Outside Cons.prems obtain x st1 where "st = x # st1" "pair_brackets st1 (lex_tokens Outside (Suc n) xs) = Inr st'"
        by (auto split: list.splits if_splits)
      with 1 Outside n un IH[of st1 Outside] show ?thesis by (auto simp: at_def)
    next
      case 2
      with Outside Cons.prems n un IH[of "b # st" Outside] show ?thesis by (auto simp: at_def)
    next
      case 3
      with Outside Cons.prems n un IH[of st Inside] show ?thesis by (auto simp: at_def)
    next
      case 4
      with Outside Cons.prems n un IH[of st Outside] show ?thesis by (auto simp: at_def)
    next
      case 5
      then have "b \<noteq> 34" by auto
      with 5 Outside Cons.prems n un IH[of st Outside] show ?thesis by auto
    qed
  next
    case Inside
    with n un IH[of st "lex_step s b"] Cons.prems show ?thesis
      by (auto simp: at_def split: if_splits)
  next
    case Escaped
    with IH[of _ Inside] Cons.prems show ?thesis by simp
  qed
qed

lemma skip_ws_all:
  assumes "drop n buf = w" "ws w" "n \<le> length buf"
  shows "skip_ws_to buf n (length buf) = Ok (length buf)"
proof -
  have len: "length buf = n + length w" using assms by auto
  have tw: "takeWhile is_ws w = w" using assms(2) by (simp add: takeWhile_eq_all_conv ws_def list_all_iff)
  with assms(1) show ?thesis
    by (simp add: len skip_ws_to_drop[of n buf w "[]"] tw del: takeWhile_eq_all_conv)
qed

lemma skip_non_ws_drop:
  "drop n buf = g @ r \<Longrightarrow> skip_non_ws_to buf n (n + length g) = Ok (n + length (takeWhile (\<lambda>b. \<not> is_ws b) g))"
proof (induction g arbitrary: n)
  case Nil
  then show ?case by (simp add: skip_non_ws_to.simps[of buf n])
next
  case (Cons b g)
  from drop_eq_ConsD[of n buf b "g @ r"] Cons.prems
  have "n < length buf" "buf ! n = b" "drop (Suc n) buf = g @ r" by auto
  with Cons.IH[of "Suc n"] show ?case
    by (simp add: skip_non_ws_to.simps[of buf n] at_def)
qed

text \<open>The shape of a value: a scalar, a string, or brackets around balanced text.\<close>

lemma json_value_shape:
  assumes "json_value d v"
  obtains (scalar) "json_scalar v" | (string) "json_string v"
    | (container) op cl inner where "v = op # inner @ [cl]" "balanced inner"
        "op = 91 \<and> cl = 93 \<or> op = 123 \<and> cl = 125"
  using assms
proof (cases rule: json_value.cases)
  case (jv_array e es)
  then show thesis using container[of 91 es 93] json_balanced(2) by blast
next
  case (jv_object e ms)
  then show thesis using container[of 123 ms 125] json_balanced(3) by blast
next
  case (jv_empty_array w)
  then show thesis using container[of 91 w 93] balanced_ws by blast
next
  case (jv_empty_object w)
  then show thesis using container[of 123 w 125] balanced_ws by blast
qed (auto simp: json_scalar_def intro: scalar string)

lemma find_sentinel: "List.find (\<lambda>i. i \<noteq> U32_MAX) [U32_MAX] = None"
  by simp

lemma root_end_container:
  assumes len: "length buf < 2 ^ 32"
    and buf: "buf = w @ (op # inner @ [cl]) @ w'" and w: "ws w" "ws w'"
    and inner: "balanced inner" and br: "op = 91 \<and> cl = 93 \<or> op = 123 \<and> cl = 125"
  shows "root_end buf (offsets (tokens buf) @ [U32_MAX]) = Ok (length buf)"
proof -
  define n where "n = length w"
  define k where "k = Suc n + length inner"
  have gap: "lex_tokens Outside 0 (w @ t) = lex_tokens Outside n t" for t
    using lex_gap(1)[OF ws_no_structural[OF w(1)]] by (simp add: n_def)
  have run: "lex_run Outside inner = Outside" and pair: "pair_brackets [] (lex_tokens Outside (Suc n) inner) = Inr []"
    using inner by (simp_all add: balanced_def)
  have end_ws: "lex_tokens Outside m w' = []" for m
    using lex_gap(1)[OF ws_no_structural[OF w(2)], of m "[]"] by simp
  have toks: "tokens buf = (n, op) # lex_tokens Outside (Suc n) inner @ [(k, cl)]"
    using br run unfolding tokens_def buf gap by (auto simp: lex_tokens_append end_ws k_def)
  have at_n: "n < length buf" "buf ! n = op" and dn: "drop (Suc n) buf = inner @ [cl] @ w'"
    by (simp_all add: buf n_def)
  have at_k: "k < length buf" "buf ! k = cl" and dk: "drop (Suc k) buf = w'"
    by (simp_all add: buf n_def k_def nth_append)
  note un = offset_unat[OF len at_n(1)] offset_unat[OF len at_k(1)]
  have "root_closer buf (offsets (lex_tokens Outside (Suc n) inner) @ [of_nat k, U32_MAX]) 1 n False = Ok k"
    using root_closer_skip[OF len dn pair, of "[of_nat k, U32_MAX]" n] un br at_k run
    by (auto simp: at_def)
  then have "root_closer buf (offsets (tokens buf) @ [U32_MAX]) 0 n False = Ok k"
    using un at_n br by (auto simp: toks at_def)
  moreover have "skip_ws_to buf (k + 1) (length buf) = Ok (length buf)"
    using skip_ws_all[OF dk w(2)] at_k by simp
  ultimately show ?thesis
    using un at_n br unfolding root_end_def by (auto simp: toks at_def)
qed

lemma root_end_string:
  assumes len: "length buf < 2 ^ 32"
    and buf: "buf = w @ v @ w'" and w: "ws w" "ws w'" and v: "json_string v"
  shows "root_end buf (offsets (tokens buf) @ [U32_MAX]) = Ok (length buf)"
proof -
  from v obtain body where v: "v = 34 # body @ [34]" and body: "unquoted body"
    by (auto simp: json_string_def)
  define n where "n = length w"
  define k where "k = Suc n + length body"
  have gap: "lex_tokens Outside 0 (w @ t) = lex_tokens Outside n t" for t
    using lex_gap(1)[OF ws_no_structural[OF w(1)]] by (simp add: n_def)
  have end_ws: "lex_tokens Outside m w' = []" for m
    using lex_gap(1)[OF ws_no_structural[OF w(2)], of m "[]"] by simp
  have toks: "tokens buf = [(n, 34), (k, 34)]"
    using body unquoted_tokens[OF body] unfolding tokens_def buf gap v
    by (simp add: lex_tokens_append end_ws k_def unquoted_def)
  have at_n: "n < length buf" "buf ! n = 34"
    by (simp_all add: buf v n_def)
  have at_k: "k < length buf" and dk: "drop (Suc k) buf = w'"
    by (simp_all add: buf v n_def k_def)
  note un = offset_unat[OF len at_n(1)] offset_unat[OF len at_k(1)]
  have "skip_ws_to buf (k + 1) (length buf) = Ok (length buf)"
    using skip_ws_all[OF dk w(2)] at_k by simp
  with un at_n show ?thesis
    by (simp add: root_end_def toks at_def)
qed

lemma root_end_scalar:
  assumes buf: "buf = w @ v @ w'" and w: "ws w" "ws w'" and v: "json_scalar v"
  shows "root_end buf (offsets (tokens buf) @ [U32_MAX]) = Ok (length buf)"
proof -
  have "list_all (\<lambda>b. \<not> is_structural b) buf"
    using ws_no_structural w json_scalar_no_structural(1)[OF v] by (simp add: buf)
  from lex_gap(1)[OF this, of 0 "[]"] have toks: "tokens buf = []" by (simp add: tokens_def)
  have v': "\<forall>b \<in> set v. \<not> is_ws b" "v \<noteq> []"
    using v by (auto dest: json_scalar_no_structural(2) json_scalar_nonempty)
  have "takeWhile is_ws buf = w"
    using w(1) v' by (cases v) (auto simp: buf ws_def list_all_iff takeWhile_append2)
  then have s: "skip_ws_to buf 0 (length buf) = (Ok (length w) :: (nat, parse_error) outcome)"
    by (simp add: skip_ws_to_drop[of 0 buf buf "[]", simplified])
  have "takeWhile (\<lambda>b. \<not> is_ws b) (v @ w') = v"
    using v' w(2) by (cases w') (auto simp: takeWhile_append2)
  then have p: "skip_non_ws_to buf (length w) (length buf) = (Ok (length w + length v) :: (nat, parse_error) outcome)"
    using skip_non_ws_drop[of "length w" buf "v @ w'" "[]", where ?'a = parse_error] by (simp add: buf)
  have "skip_ws_to buf (length w + length v) (length buf) = (Ok (length buf) :: (nat, parse_error) outcome)"
    by (rule skip_ws_all[OF _ w(2)]) (simp_all add: buf)
  with s p v'(2) show ?thesis
    by (simp add: root_end_def toks)
qed

lemma validate_trailing_json:
  assumes "length buf < 2 ^ 32" "json_text d buf"
  shows "validate_trailing_with_offset buf (offsets (tokens buf) @ [U32_MAX]) = Ok ()"
proof -
  from assms(2) obtain w v w' where t: "buf = w @ v @ w'" "ws w" "ws w'" and v: "json_value d v"
    by (auto simp: json_text_def)
  from v have "root_end buf (offsets (tokens buf) @ [U32_MAX]) = Ok (length buf)"
  proof (cases rule: json_value_shape)
    case scalar
    with t show ?thesis by (rule root_end_scalar)
  next
    case string
    with t show ?thesis by (intro root_end_string[OF assms(1)])
  next
    case (container op cl inner)
    from root_end_container[OF assms(1) _ t(2,3) container(2,3)] t(1) container(1)
    show ?thesis by simp
  qed
  then show ?thesis by (simp add: validate_trailing_with_offset_def)
qed

section \<open>Depth\<close>

text \<open>The deepest nesting reached while reading tokens at depth \<open>d\<close>.\<close>

fun max_nesting :: "nat \<Rightarrow> (nat \<times> u8) list \<Rightarrow> nat" where
  "max_nesting d [] = d"
| "max_nesting d ((p, b) # ts) =
     max d (max_nesting (if b = 123 \<or> b = 91 then d + 1 else if b = 125 \<or> b = 93 then d - 1 else d) ts)"

lemma max_nesting_ge: "d \<le> max_nesting d ts"
  by (cases "(d, ts)" rule: max_nesting.cases) auto

lemma validate_depth_loop_tokens:
  assumes "length buf < 2 ^ 32" "unat m < 2 ^ 31"
    and "\<forall>(p, b) \<in> set ts. p < length buf \<and> buf ! p = b"
    and "pair_brackets st ts = Inr st'" "length st \<le> unat m"
  shows "(\<exists>p. validate_depth_loop tgt buf m (offsets ts @ [U32_MAX]) (of_nat (length st)) =
        Err (parse_error_new QJSON_NESTING_TOO_DEEP p) \<and> unat m < max_nesting (length st) ts) \<or>
    validate_depth_loop tgt buf m (offsets ts @ [U32_MAX]) (of_nat (length st)) = Ok () \<and>
      max_nesting (length st) ts \<le> unat m"
  using assms(3-5)
proof (induction ts arbitrary: st)
  case Nil
  then show ?case by simp
next
  case (Cons t ts)
  obtain p b where t: "t = (p, b)" by (cases t)
  with Cons.prems have p: "p < length buf" "buf ! p = b" and rest: "\<forall>(p, b) \<in> set ts. p < length buf \<and> buf ! p = b"
    by auto
  note un = offset_unat[OF assms(1) p(1)]
  have add: "add_u32 tgt (of_nat (length st)) 1 = (Ok (of_nat (length st) + 1) :: (u32, parse_error) outcome)"
    using Cons.prems(3) assms(2) by (simp add: add_u32_def unat_of_nat32)
  have small: "length st < 2 ^ 31" using Cons.prems(3) assms(2) by linarith
  then have succ: "unat (of_nat (length st) + 1 :: u32) = Suc (length st)"
    using unat_of_nat32[of "Suc (length st)"] by (simp add: add.commute)
  note IH = Cons.IH[OF rest]
  consider "b = 123 \<or> b = 91" | "b = 125 \<or> b = 93" | "b \<noteq> 123 \<and> b \<noteq> 91 \<and> b \<noteq> 125 \<and> b \<noteq> 93" by blast
  then show ?case
  proof cases
    case 1
    show ?thesis
    proof (cases "Suc (length st) \<le> unat m")
      case True
      then have "\<not> (of_nat (length st) + 1 > m)"
        by (simp add: word_less_nat_alt succ)
      with 1 True add IH[of "b # st"] Cons.prems t un p show ?thesis
        by (auto simp: at_def max_def add.commute)
    next
      case False
      then have "of_nat (length st) + 1 > m"
        by (simp add: word_less_nat_alt succ)
      with 1 False add t un p max_nesting_ge[of "Suc (length st)" ts] show ?thesis
        by (auto simp: at_def)
    qed
  next
    case 2
    with Cons.prems t obtain x st1 where st: "st = x # st1" and pb: "pair_brackets st1 ts = Inr st'"
      by (auto split: list.splits if_splits)
    have "unat (of_nat (length st) :: u32) = length st" using small by (simp add: unat_of_nat32)
    then have "sub_u32 tgt (of_nat (length st)) 1 = (Ok (of_nat (length st1)) :: (u32, parse_error) outcome)"
      by (simp add: sub_u32_def st)
    then have "validate_depth_loop tgt buf m (offsets (t # ts) @ [U32_MAX]) (of_nat (length st)) =
        validate_depth_loop tgt buf m (offsets ts @ [U32_MAX]) (of_nat (length st1))"
      using 2 t un p by (auto simp: at_def)
    moreover have "max_nesting (length st) (t # ts) = max (length st) (max_nesting (length st1) ts)"
      using 2 t st by auto
    moreover from Cons.prems(3) st have "length st1 \<le> unat m" by simp
    note IH[OF pb this]
    ultimately show ?thesis using Cons.prems(3) by (simp only: less_max_iff_disj max.bounded_iff) blast
  next
    case 3
    with IH[of st] Cons.prems t un p show ?thesis
      by (auto simp: at_def max_def)
  qed
qed

section \<open>No panic\<close>

lemma skip_ws_to_ok: "limit \<le> length buf \<Longrightarrow> \<exists>q. skip_ws_to buf p limit = Ok q"
proof (cases "p < limit")
  case True
  assume "limit \<le> length buf"
  with True show ?thesis
    using skip_ws_to_drop[of p buf "slice p limit buf" "drop limit buf"]
    by (auto simp: slice_append_drop)
qed (simp add: skip_ws_to.simps[of buf p])

lemma skip_non_ws_to_ok: "limit \<le> length buf \<Longrightarrow> \<exists>q. skip_non_ws_to buf p limit = Ok q"
proof (cases "p < limit")
  case True
  assume "limit \<le> length buf"
  with True show ?thesis
    using skip_non_ws_drop[of p buf "slice p limit buf" "drop limit buf"]
    by (auto simp: slice_append_drop)
qed (simp add: skip_non_ws_to.simps[of buf p])

lemma root_closer_ok:
  "\<forall>i \<in> set idxs. i \<noteq> U32_MAX \<longrightarrow> unat i < length buf \<Longrightarrow> \<exists>p. root_closer buf idxs d c s = Ok p"
  by (induction idxs arbitrary: d c s) (auto simp: at_def)

lemma root_end_ok:
  assumes "\<forall>i \<in> set idxs. i \<noteq> U32_MAX \<longrightarrow> unat i < length buf"
  shows "\<exists>p. root_end buf idxs = Ok p"
proof (cases "List.find (\<lambda>i. i \<noteq> U32_MAX) idxs")
  case None
  obtain s where s: "skip_ws_to buf 0 (length buf) = (Ok s :: (nat, parse_error) outcome)"
    using skip_ws_to_ok[of "length buf" buf] by blast
  obtain q where q: "skip_non_ws_to buf s (length buf) = (Ok q :: (nat, parse_error) outcome)"
    using skip_non_ws_to_ok[of "length buf" buf] by blast
  obtain r where "skip_ws_to buf q (length buf) = (Ok r :: (nat, parse_error) outcome)"
    using skip_ws_to_ok[of "length buf" buf] by blast
  with None s q show ?thesis
    by (cases "s = q") (auto simp: root_end_def)
next
  case (Some i)
  then have "i \<in> set idxs" "i \<noteq> U32_MAX"
    by (auto simp: find_Some_iff)
  with assms have i: "unat i < length buf" by blast
  obtain k where "root_closer buf idxs 0 (unat i) False = Ok k"
    using root_closer_ok[OF assms] by blast
  moreover have "\<exists>r. skip_ws_to buf p (length buf) = (Ok r :: (nat, parse_error) outcome)" for p
    by (rule skip_ws_to_ok) simp
  ultimately show ?thesis
    using Some i unfolding root_end_def by (auto simp: at_def Let_def)
qed

lemma token_offsets_range:
  assumes "length buf < 2 ^ 32"
  shows "\<forall>i \<in> set (offsets (tokens buf) @ [U32_MAX]). i \<noteq> U32_MAX \<longrightarrow> unat i < length buf"
proof -
  have "unat (of_nat p :: u32) < length buf" if "(p, b) \<in> set (tokens buf)" for p b
    using tokens_nth[OF that] offset_unat(1)[OF assms] by simp
  then show ?thesis by (auto simp: offsets_def)
qed

lemma validate_trailing_no_panic:
  assumes "length buf < 2 ^ 32"
  shows "validate_trailing_with_offset buf (offsets (tokens buf) @ [U32_MAX]) \<noteq> Panic"
  using root_end_ok[OF token_offsets_range[OF assms]]
  by (auto simp: validate_trailing_with_offset_def and_then_eq_Panic split: if_splits)

lemma scan_error_ended_inside_string_loop_tokens:
  assumes "length buf < 2 ^ 32" "drop n buf = xs"
  shows "scan_error_ended_inside_string_loop buf (offsets (lex_tokens s n xs)) (s \<noteq> Outside) \<longleftrightarrow>
    lex_run s xs \<noteq> Outside"
  using assms(2)
proof (induction xs arbitrary: n s)
  case (Cons b xs)
  then have n: "n < length buf" "buf ! n = b" and d: "drop (Suc n) buf = xs"
    by (auto dest: drop_eq_ConsD)
  note un = offset_unat(1)[OF assms(1) n(1)]
  from Cons.IH[OF d, of "lex_step s b"] n un show ?case
    by (cases s) (auto simp: slice_get_def is_structural_def)
qed simp

lemma scan_error_ended_inside_string_tokens:
  "length buf < 2 ^ 32 \<Longrightarrow>
     scan_error_ended_inside_string buf (offsets (tokens buf)) \<longleftrightarrow> lex_run Outside buf \<noteq> Outside"
  using scan_error_ended_inside_string_loop_tokens[of buf 0 buf Outside]
  by (simp add: scan_error_ended_inside_string_def tokens_def)

lemma validate_scalar_no_panic: "s \<noteq> [] \<Longrightarrow> validate_scalar s \<noteq> Panic"
  using validate_number_total[of s] by (auto simp: validate_scalar_def at_def)

lemma walk_gap_no_panic: "walk_gap n gap c \<noteq> Panic"
  using validate_scalar_no_panic
  by (auto simp: walk_gap_def Let_def and_then_eq_Panic)

lemma walk_token_no_panic:
  "walk_token m p b (c # st) \<noteq> Panic" "walk_token m p b (c # st) = Ok st' \<Longrightarrow> st' \<noteq> []"
  by (auto simp: Let_def split: if_splits)

lemma walk_no_panic: "st \<noteq> [] \<Longrightarrow> walk m st n s \<noteq> Panic"
proof (induction "length s" arbitrary: st n s rule: less_induct)
  case less
  then obtain c st' where st: "st = c # st'" by (cases st) auto
  show ?case
  proof
    assume "walk m st n s = Panic"
    then have w: "walk m (c # st') n s = Panic" by (simp add: st)
    show False
    proof (cases "dropWhile (\<lambda>b. \<not> is_structural b) s")
      case Nil
      with w walk_gap_no_panic show False
        by (auto simp: walk.simps(2)[of m c st' n s] Let_def and_then_eq_Panic split: if_splits)
    next
      case (Cons b t)
      then have len: "length (b # t) \<le> length s"
        by (metis length_dropWhile_le)
      show False
      proof (cases "b = 34")
        case True
        have vs: "validate_span_scalar body \<noteq> Panic" for body
          using validate_span_scalar_total[of body] by auto
        have ws: "walk_string p x \<noteq> Panic" for p x by (simp add: walk_string_def)
        have "walk m (c'' # st') k t' \<noteq> Panic" if "split_string t = Some (body, t')" for body t' c'' k
          using less.hyps[of t' "c'' # st'" k] split_string_length[OF that] len by simp
        with w Cons True walk_gap_no_panic vs ws show False
          by (auto simp: walk.simps(2)[of m c st' n s] Let_def and_then_eq_Panic split: option.splits)
      next
        case False
        have "walk m st1 k t \<noteq> Panic" if "walk_token m p b (x # st') = Ok st1" for p x st1 k
          using less.hyps[of t st1 k] walk_token_no_panic(2)[OF that] len by simp
        with w Cons False walk_gap_no_panic walk_token_no_panic(1) show False
          by (auto simp: walk.simps(2)[of m c st' n s] Let_def and_then_eq_Panic simp del: walk_token.simps)
      qed
    qed
  qed
qed

section \<open>The contract of a scanner\<close>

text \<open>
  On the buffers in \<open>adm\<close>, which include every JSON text, a scanner accepts the well-bracketed
  ones, with the token list as index; if it fails at the end of the buffer the index is complete.
\<close>

locale structural_scanner =
  fixes scan :: "bytes \<Rightarrow> u32 list \<Rightarrow> (unit, nat) outcome \<times> u32 list"
    and adm :: "bytes \<Rightarrow> bool"
  assumes json_adm: "json_text d buf \<Longrightarrow> adm buf"
    and scan_total: "adm buf \<Longrightarrow> length buf < 2 ^ 32 \<Longrightarrow> fst (scan buf []) \<noteq> Panic"
    and scan_accepts: "adm buf \<Longrightarrow> length buf < 2 ^ 32 \<Longrightarrow> fst (scan buf []) = Ok () \<longleftrightarrow> well_bracketed buf"
    and scan_index: "adm buf \<Longrightarrow> length buf < 2 ^ 32 \<Longrightarrow> well_bracketed buf \<Longrightarrow>
      snd (scan buf []) = offsets (tokens buf)"
    and scan_end: "adm buf \<Longrightarrow> length buf < 2 ^ 32 \<Longrightarrow> fst (scan buf []) = Err (length buf) \<Longrightarrow>
      snd (scan buf []) = offsets (tokens buf) \<and>
      (lex_run Outside buf = Outside \<longrightarrow> (\<exists>st. pair_brackets [] (tokens buf) = Inr st))"
begin

lemma scan_cases:
  assumes "adm buf" "length buf < 2 ^ 32"
  obtains (ok) "scan buf [] = (Ok (), offsets (tokens buf))" "well_bracketed buf"
    | (early) p idxs where "scan buf [] = (Err p, idxs)" "p \<noteq> length buf" "\<not> well_bracketed buf"
    | (late) "scan buf [] = (Err (length buf), offsets (tokens buf))" "\<not> well_bracketed buf"
        "lex_run Outside buf = Outside \<longrightarrow> (\<exists>st. pair_brackets [] (tokens buf) = Inr st)"
proof (cases "fst (scan buf [])")
  case (Ok u)
  with ok scan_accepts[OF assms] scan_index[OF assms] show ?thesis
    by (metis (full_types) old.unit.exhaust prod.collapse)
next
  case (Err p)
  with scan_accepts[OF assms] have nw: "\<not> well_bracketed buf" by auto
  show ?thesis
  proof (cases "p = length buf")
    case True
    with Err late nw scan_end[OF assms] show ?thesis by (metis prod.collapse)
  next
    case False
    with Err early nw show ?thesis by (metis prod.collapse)
  qed
next
  case Panic
  with scan_total[OF assms] show ?thesis by simp
qed

end

lemma json_text_not_ws: "json_text d buf \<Longrightarrow> \<not> list_all is_ws buf"
proof -
  assume "json_text d buf"
  then obtain w v w' where "buf = w @ v @ w'" and v: "json_value d v" by (auto simp: json_text_def)
  moreover have "\<not> ws v"
    using v
  proof (cases rule: json_value_shape)
    case scalar
    then show ?thesis
      using json_scalar_no_structural(2) json_scalar_nonempty by (cases v) auto
  next
    case string
    then show ?thesis by (auto simp: json_string_def is_ws_def)
  next
    case (container op cl inner)
    then show ?thesis by (auto simp: is_ws_def)
  qed
  ultimately show ?thesis by (simp add: ws_def)
qed

lemma max_depth_bound: "unat (effective_max_depth opts) < 2 ^ 31"
  using effective_max_depth_bounds[of opts] by (simp add: word_le_nat_alt)

context structural_scanner
begin

text \<open>Eager mode accepts the JSON texts.\<close>

lemma parse_eager:
  assumes "adm buf" "length buf < 2 ^ 32" "is_eager opts"
  shows "parse_with_options_detailed scan tgt buf opts = Ok d \<longleftrightarrow>
    json_text (unat (effective_max_depth opts)) buf \<and>
    d = document_new buf (offsets (tokens buf) @ [U32_MAX]) True"
proof -
  note walk = validate_eager_values_walk[OF assms(2)]
  have not_json: "\<not> json_text k buf" if "\<not> well_bracketed buf" for k
    using that json_text_well_bracketed by blast
  show ?thesis
  proof (cases "list_all is_ws buf")
    case True
    with json_text_not_ws show ?thesis by (auto simp: parse_with_options_detailed_def)
  next
    case nws: False
    from assms(1,2) show ?thesis
    proof (cases rule: scan_cases)
      case ok
      then have "lex_run Outside buf = Outside" by (simp add: well_bracketed_def)
      from walk[OF this] ok nws assms(3) validate_trailing_json[OF assms(2)]
      show ?thesis
        by (auto simp: parse_with_options_detailed_def Let_def walk_iff)
    next
      case (early p idxs)
      with nws not_json show ?thesis by (simp add: parse_with_options_detailed_def Let_def)
    next
      case late
      with nws not_json assms(3) show ?thesis
        by (auto simp: parse_with_options_detailed_def Let_def split: outcome.splits)
    qed
  qed
qed

text \<open>Lazy mode accepts the well-bracketed texts within the depth limit.\<close>

lemma parse_lazy:
  assumes "adm buf" "length buf < 2 ^ 32" "\<not> is_eager opts"
  shows "parse_with_options_detailed scan tgt buf opts = Ok d \<longleftrightarrow>
    \<not> list_all is_ws buf \<and> well_bracketed buf \<and>
    max_nesting 0 (tokens buf) \<le> unat (effective_max_depth opts) \<and>
    d = document_new buf (offsets (tokens buf) @ [U32_MAX]) False"
proof (cases "list_all is_ws buf")
  case True
  then show ?thesis by (simp add: parse_with_options_detailed_def)
next
  case nws: False
  have toks: "\<forall>(p, b) \<in> set (tokens buf). p < length buf \<and> buf ! p = b"
    using tokens_nth by blast
  from assms(1,2) show ?thesis
  proof (cases rule: scan_cases)
    case ok
    then have "pair_brackets [] (tokens buf) = Inr []" by (simp add: well_bracketed_def)
    from validate_depth_loop_tokens[OF assms(2) max_depth_bound[of opts] toks this, where tgt = tgt] ok nws assms(3)
    show ?thesis
      by (auto simp: parse_with_options_detailed_def Let_def validate_depth_with_offset_def)
  next
    case (early p idxs)
    with nws show ?thesis by (simp add: parse_with_options_detailed_def Let_def)
  next
    case late
    with nws assms(3) show ?thesis
      by (auto simp: parse_with_options_detailed_def Let_def and_then_eq_Ok)
  qed
qed

lemma parse_no_panic:
  assumes "adm buf" "length buf < 2 ^ 32"
  shows "parse_with_options_detailed scan tgt buf opts \<noteq> Panic"
proof (cases "list_all is_ws buf")
  case True
  then show ?thesis by (simp add: parse_with_options_detailed_def)
next
  case nws: False
  have toks: "\<forall>(p, b) \<in> set (tokens buf). p < length buf \<and> buf ! p = b"
    using tokens_nth by blast
  have depth: "validate_depth_with_offset tgt buf (offsets (tokens buf) @ [U32_MAX]) (effective_max_depth opts) \<noteq> Panic"
    if "pair_brackets [] (tokens buf) = Inr st" for st
    using validate_depth_loop_tokens[OF assms(2) max_depth_bound[of opts] toks that, where tgt = tgt]
    by (auto simp: validate_depth_with_offset_def)
  have eager: "validate_eager_values_with_offset tgt buf (offsets (tokens buf) @ [U32_MAX]) (effective_max_depth opts) \<noteq> Panic"
    if "lex_run Outside buf = Outside"
    using validate_eager_values_walk[OF assms(2) that] walk_no_panic by simp
  note defs = parse_with_options_detailed_def Let_def and_then_eq_Panic
  from assms(1,2) show ?thesis
  proof (cases rule: scan_cases)
    case ok
    with depth eager validate_trailing_no_panic[OF assms(2)] nws show ?thesis
      by (auto simp: defs well_bracketed_def)
  next
    case (early p idxs)
    with nws show ?thesis by (simp add: defs)
  next
    case late
    show ?thesis
    proof (cases "lex_run Outside buf = Outside")
      case True
      with late depth eager nws show ?thesis
        by (auto simp: defs split: outcome.splits)
    next
      case False
      with late nws scan_error_ended_inside_string_tokens[OF assms(2)] show ?thesis
        by (simp add: defs)
    qed
  qed
qed

end

interpretation scalar: structural_scanner scalar_scan "\<lambda>_. True"
proof
  fix buf :: bytes
  assume "fst (scalar_scan buf []) = Err (length buf)"
  moreover have "p < length buf" if "pair_brackets [] (tokens buf) = Inl p" for p
    using pair_brackets_Inl[OF that] tokens_nth by fastforce
  ultimately show "snd (scalar_scan buf []) = offsets (tokens buf) \<and>
      (lex_run Outside buf = Outside \<longrightarrow> (\<exists>st. pair_brackets [] (tokens buf) = Inr st))"
    by (fastforce simp: scalar_scan_def scan_and_validate_eq fused_result_def split: sum.splits if_splits)
qed (auto simp: scalar_scan_def scan_and_validate_eq fused_result_def well_bracketed_def
      split: sum.splits if_splits)

end
