(* ===== verification/Parse_Errors.thy ===== *)
theory Parse_Errors
  imports Parse
begin

text \<open>
  The errors of parsing: which codes it can return and where its offsets lie.
\<close>

section \<open>Codes and offsets\<close>

definition parse_codes :: "qjson_err set" where
  "parse_codes = {QJSON_PARSE_ERROR, QJSON_NESTING_TOO_DEEP, QJSON_TRAILING_CONTENT,
     QJSON_INVALID_NUMBER, QJSON_INVALID_STRING, QJSON_INVALID_UTF8}"

text \<open>A parse error within the first \<open>n\<close> offsets.\<close>

definition error_within :: "nat \<Rightarrow> parse_error \<Rightarrow> bool" where
  "error_within n e \<longleftrightarrow> pe_code e \<in> parse_codes \<and> pe_offset e \<le> n"

lemma error_within_new [simp]:
  "error_within n (parse_error_new c p) \<longleftrightarrow> c \<in> parse_codes \<and> p \<le> n"
  by (simp add: error_within_def parse_error_new_def)

lemma error_within_mono: "error_within n e \<Longrightarrow> n \<le> m \<Longrightarrow> error_within m e"
  by (simp add: error_within_def)

lemma parse_codes_simps [simp]:
  "QJSON_PARSE_ERROR \<in> parse_codes" "QJSON_NESTING_TOO_DEEP \<in> parse_codes"
  "QJSON_TRAILING_CONTENT \<in> parse_codes" "QJSON_INVALID_NUMBER \<in> parse_codes"
  "QJSON_INVALID_STRING \<in> parse_codes" "QJSON_INVALID_UTF8 \<in> parse_codes"
  by (simp_all add: parse_codes_def)

lemma validate_scalar_codes: "validate_scalar s = Err c \<Longrightarrow> c \<in> parse_codes"
  using validate_number_total[of s] by (auto simp: validate_scalar_def at_def split: if_splits)

lemma validate_span_codes: "validate_span_scalar s = Err c \<Longrightarrow> c \<in> parse_codes"
  using validate_span_scalar_total[of s] by auto

section \<open>The walk\<close>

lemma walk_gap_errors: "walk_gap n gap c = Err e \<Longrightarrow> error_within (n + length gap) e"
  by (auto simp: walk_gap_def Let_def and_then_eq_Err map_err_eq_Err dest: validate_scalar_codes split: if_splits)

lemma walk_string_errors: "walk_string p c = Err e \<Longrightarrow> error_within p e"
  by (auto simp: walk_string_def split: if_splits)

lemma walk_token_errors: "walk_token m p b st = Err e \<Longrightarrow> error_within p e"
  by (cases st) (auto simp: Let_def split: if_splits)

lemma walk_errors: "walk m st n s = Err e \<Longrightarrow> error_within (n + length s) e"
proof (induction "length s" arbitrary: st n s rule: less_induct)
  case less
  then obtain c st' where st: "st = c # st'" by (cases st) auto
  define gap where "gap = takeWhile (\<lambda>b. \<not> is_structural b) s"
  define rest where "rest = dropWhile (\<lambda>b. \<not> is_structural b) s"
  have s: "length s = length gap + length rest"
    unfolding gap_def rest_def by (metis length_append takeWhile_dropWhile_id)
  note w = less.prems[unfolded st walk.simps(2)[of m c st' n s] Let_def and_then_eq_Err, folded gap_def rest_def]
  show ?case
  proof (cases "walk_gap n gap c")
    case (Err e')
    with w have "error_within (n + length gap) e" by (auto dest: walk_gap_errors)
    then show ?thesis by (rule error_within_mono) (simp add: s)
  next
    case (Ok c')
    show ?thesis
    proof (cases rest)
      case Nil
      with w Ok show ?thesis by (auto simp: s split: if_splits)
    next
      case (Cons b t)
      have tok: "error_within (n + length s) e" if "error_within (n + length gap) e"
        using that by (rule error_within_mono) (simp add: s)
      show ?thesis
      proof (cases "b = 34")
        case True
        have rec: "error_within (n + length s) e"
          if "split_string t = Some (body, t')" "walk m st1 (n + length gap + length body + 2) t' = Err e" for body t' st1
        proof -
          have len: "length t = length body + 1 + length t'"
            using split_string_eq[OF that(1)] by simp
          then have "length t' < length s" using s Cons by simp
          from less.hyps[OF this that(2)] show ?thesis
            by (rule error_within_mono) (use len s Cons in simp)
        qed
        show ?thesis
        proof (cases "split_string t")
          case None
          with w Ok Cons True show ?thesis by (auto simp: s)
        next
          case (Some bt)
          obtain body t' where bt: "bt = (body, t')" by (cases bt)
          from w Ok Cons True Some bt consider
            (span) code where "validate_span_scalar body = Err code" "e = parse_error_new code (n + length gap)"
            | (pos) "walk_string (n + length gap) c' = Err e"
            | (tail) st1 where "walk m st1 (n + length gap + length body + 2) t' = Err e"
            by (auto simp: and_then_eq_Err map_err_eq_Err)
          then show ?thesis
          proof cases
            case span
            then show ?thesis using validate_span_codes[of body code] by (simp add: s)
          next
            case pos
            then show ?thesis by (intro tok walk_string_errors)
          next
            case tail
            then show ?thesis using rec Some bt by simp
          qed
        qed
      next
        case False
        have rec: "error_within (n + length s) e" if "walk m st1 (n + length gap + 1) t = Err e" for st1
        proof -
          have "length t < length s" using s Cons by simp
          from less.hyps[OF this that] show ?thesis by (rule error_within_mono) (use s Cons in simp)
        qed
        from w Ok Cons False consider "walk_token m (n + length gap) b (c' # st') = Err e"
          | st1 where "walk m st1 (n + length gap + 1) t = Err e"
          by (auto simp: and_then_eq_Err simp del: walk_token.simps)
        then show ?thesis
        proof cases
          case 1
          then show ?thesis by (intro tok walk_token_errors)
        qed (rule rec)
      qed
    qed
  qed (use w in simp)
qed

section \<open>The two passes over the index\<close>

lemma validate_depth_loop_errors:
  "validate_depth_loop tgt buf m idxs depth = Err e \<Longrightarrow> list_all (\<lambda>i. i = U32_MAX \<or> unat i \<le> k) idxs \<Longrightarrow> error_within k e"
proof (induction buf m idxs depth rule: validate_depth_loop.induct)
  case (2 tgt buf m idx idxs depth)
  then show ?case by (auto simp: and_then_eq_Err at_def add_u32_def sub_u32_def split: if_splits)
qed simp

lemma validate_trailing_errors:
  assumes "length buf < 2 ^ 32"
    "validate_trailing_with_offset buf (offsets (tokens buf) @ [U32_MAX]) = Err e"
  shows "error_within (length buf) e"
  using root_end_ok[OF token_offsets_range[OF assms(1)]] assms(2)
  by (auto simp: validate_trailing_with_offset_def and_then_eq_Err split: if_splits)

lemma token_offsets_le:
  assumes "length buf < 2 ^ 32"
  shows "list_all (\<lambda>i. i = U32_MAX \<or> unat i \<le> length buf) (offsets (tokens buf) @ [U32_MAX])"
proof -
  have "unat (of_nat p :: u32) \<le> length buf" if "(p, b) \<in> set (tokens buf)" for p b
    using tokens_nth[OF that] offset_unat(1)[OF assms, of p] by simp
  then show ?thesis by (auto simp: offsets_def list_all_iff)
qed

section \<open>The errors of parsing\<close>

text \<open>A scanner whose error offsets lie in the buffer.\<close>

locale offset_scanner = structural_scanner +
  assumes scan_offset: "adm buf \<Longrightarrow> length buf < 2 ^ 32 \<Longrightarrow> fst (scan buf []) = Err p \<Longrightarrow> p \<le> length buf"
begin

lemma parse_errors:
  assumes adm: "adm buf" "length buf < 2 ^ 32" and err: "parse_with_options_detailed scan tgt buf opts = Err e"
  shows "pe_code e \<in> parse_codes \<and> (pe_offset e \<le> length buf \<or> pe_offset e = QJSON_NO_OFFSET)"
proof (cases "list_all is_ws buf")
  case True
  with err show ?thesis by (auto simp: parse_with_options_detailed_def parse_error_no_offset_def parse_error_new_def)
next
  case nws: False
  have depth: "error_within (length buf) e"
    if "validate_depth_with_offset tgt buf (offsets (tokens buf) @ [U32_MAX]) (effective_max_depth opts) = Err e"
    using that validate_depth_loop_errors[OF _ token_offsets_le[OF adm(2)]] by (simp add: validate_depth_with_offset_def)
  have eager: "error_within (length buf) e"
    if "lex_run Outside buf = Outside"
      "validate_eager_values_with_offset tgt buf (offsets (tokens buf) @ [U32_MAX]) (effective_max_depth opts) = Err e"
    using walk_errors[of _ _ 0 buf] that(2) validate_eager_values_walk[OF adm(2) that(1)] by simp
  note defs = parse_with_options_detailed_def Let_def and_then_eq_Err
  have "error_within (length buf) e"
    using adm
  proof (cases rule: scan_cases)
    case ok
    with depth eager validate_trailing_errors[OF adm(2)] nws err show ?thesis
      by (auto simp: defs well_bracketed_def split: if_splits)
  next
    case (early p idxs)
    with nws err scan_offset[OF adm, of p] show ?thesis by (auto simp: defs)
  next
    case late
    show ?thesis
    proof (cases "lex_run Outside buf = Outside")
      case True
      with late depth eager nws err show ?thesis
        by (auto simp: defs split: outcome.splits if_splits)
    next
      case False
      with late nws err scan_error_ended_inside_string_tokens[OF adm(2)] show ?thesis
        by (auto simp: defs)
    qed
  qed
  then show ?thesis by (simp add: error_within_def)
qed

end

interpretation scalar_errors: offset_scanner scalar_scan "\<lambda>_. True"
proof unfold_locales
  fix buf p assume "fst (scalar_scan buf []) = Err p"
  moreover have "q < length buf" if "pair_brackets [] (tokens buf) = Inl q" for q
    using pair_brackets_Inl[OF that] tokens_nth by fastforce
  ultimately show "p \<le> length buf"
    by (fastforce simp: scalar_scan_def scan_and_validate_eq fused_result_def tokens_def[symmetric] split: sum.splits if_splits)
qed

end
