(* ===== verification/Scan_Chunks.thy ===== *)
theory Scan_Chunks
  imports Scan_Masks Parse_Errors
begin

text \<open>
  The vectorised scanners compute, chunk by chunk, the run of a byte-at-a-time automaton in which
  a backslash escapes outside strings too. On buffers without such a backslash they agree with the
  scalar scanner's emit pass, and so satisfy the contract of a scanner.
\<close>

section \<open>The automaton of the vectorised scanners\<close>

text \<open>The state: inside a string, and the next byte is escaped.\<close>

type_synonym simd_state = "bool \<times> bool"

fun simd_step :: "simd_state \<Rightarrow> u8 \<Rightarrow> simd_state" where
  "simd_step (s, e) b = (s \<noteq> (b = 34 \<and> \<not> e), b = 92 \<and> \<not> e)"

fun simd_emits :: "simd_state \<Rightarrow> u8 \<Rightarrow> bool" where
  "simd_emits (s, e) b = (if s then b = 34 \<and> \<not> e else is_structural b)"

fun simd_run :: "simd_state \<Rightarrow> bytes \<Rightarrow> simd_state" where
  "simd_run st [] = st"
| "simd_run st (b # xs) = simd_run (simd_step st b) xs"

fun simd_tokens :: "simd_state \<Rightarrow> nat \<Rightarrow> bytes \<Rightarrow> (nat \<times> u8) list" where
  "simd_tokens st n [] = []"
| "simd_tokens st n (b # xs) =
     (if simd_emits st b then [(n, b)] else []) @ simd_tokens (simd_step st b) (Suc n) xs"

lemma simd_run_append [simp]: "simd_run st (xs @ ys) = simd_run (simd_run st xs) ys"
  by (induction xs arbitrary: st) auto

lemma simd_tokens_append:
  "simd_tokens st n (xs @ ys) = simd_tokens st n xs @ simd_tokens (simd_run st xs) (n + length xs) ys"
  by (induction xs arbitrary: st n) auto

lemma simd_tokens_filter:
  "simd_tokens st n xs =
     map (\<lambda>k. (n + k, xs ! k)) (filter (\<lambda>k. simd_emits (simd_run st (take k xs)) (xs ! k)) [0..<length xs])"
proof (induction xs arbitrary: st n)
  case (Cons b xs)
  have "[0..<length (b # xs)] = 0 # map Suc [0..<length xs]" by (simp add: map_Suc_upt upt_conv_Cons del: upt_Suc)
  then show ?case by (simp add: Cons.IH filter_map comp_def del: upt_Suc)
qed simp

text \<open>Inside a string, bytes that are neither quote nor backslash change nothing.\<close>

lemma simd_interior:
  assumes "\<forall>b \<in> set xs. b \<noteq> 34 \<and> b \<noteq> 92"
  shows "simd_tokens (True, e) n xs = []" "simd_run (True, e) xs = (True, e \<and> xs = [])"
  using assms by (induction xs arbitrary: e n) auto

section \<open>One chunk\<close>

text \<open>What the masks of a 64-byte chunk have to say.\<close>

locale chunk_masks =
  fixes backslash quote structural :: "bytes \<Rightarrow> nat \<Rightarrow> u64" and interior :: "bytes \<Rightarrow> nat \<Rightarrow> bool"
  assumes backslash_bits: "i + 64 \<le> length buf \<Longrightarrow> k < 64 \<Longrightarrow> bit (backslash buf i) k \<longleftrightarrow> buf ! (i + k) = 92"
    and quote_bits: "i + 64 \<le> length buf \<Longrightarrow> k < 64 \<Longrightarrow> bit (quote buf i) k \<longleftrightarrow> buf ! (i + k) = 34"
    and structural_bits: "i + 64 \<le> length buf \<Longrightarrow> k < 64 \<Longrightarrow> bit (structural buf i) k \<longleftrightarrow> is_structural (buf ! (i + k))"
    and interior_bytes: "i + 64 \<le> length buf \<Longrightarrow> interior buf i \<longleftrightarrow> (\<forall>k < 64. buf ! (i + k) \<noteq> 34 \<and> buf ! (i + k) \<noteq> 92)"
begin

lemma chunk_ok:
  assumes i: "i + 64 \<le> length buf"
    and esc: "find_escape_mask_with_carry (backslash buf i) (of_bool e) = (escaped, c')"
    and ins: "inside_string_mask (quote buf i AND NOT escaped) (of_bool s) = (inside, s')"
  defines "final \<equiv> (structural buf i AND NOT inside) OR (quote buf i AND NOT escaped)"
  shows "emit_bits final (of_nat i) out = out @ offsets (simd_tokens (s, e) i (slice i (i + 64) buf))"
    and "simd_run (s, e) (slice i (i + 64) buf) = (s' \<noteq> 0, c' \<noteq> 0)"
    and "s' = of_bool (s' \<noteq> 0)" "c' = of_bool (c' \<noteq> 0)"
proof -
  define xs where "xs = slice i (i + 64) buf"
  define b where "b = backslash buf i"
  define q where "q = quote buf i AND NOT escaped"
  have len: "length xs = 64" and nth: "k < 64 \<Longrightarrow> xs ! k = buf ! (i + k)" for k
    using i by (simp_all add: xs_def slice_def)
  note em = escape_mask[OF esc, folded b_def] and im = inside_string_mask_bits[OF ins, folded q_def]
  have bb: "bit b k \<longleftrightarrow> xs ! k = 92" if "k < 64" for k using backslash_bits[OF i that] nth[OF that] by (simp add: b_def)
  have qb: "bit q k \<longleftrightarrow> xs ! k = 34 \<and> \<not> esc b e k" if k: "k < 64" for k
  proof (cases "xs ! k = 34")
    case True
    then have "\<not> bit b k" using bb[OF k] by simp
    with em(1)[OF k] True quote_bits[OF i k] nth[OF k] k show ?thesis
      by (simp add: q_def bit_and_iff bit_not_iff possible_bit_word)
  next
    case False
    with quote_bits[OF i k] nth[OF k] show ?thesis by (simp add: q_def bit_and_iff)
  qed
  have run: "simd_run (s, e) (take k xs) = (s \<noteq> parity q k, esc b e k)" if "k \<le> 64" for k
    using that
  proof (induction k)
    case (Suc k)
    then have k: "k < 64" by simp
    with Suc len show ?case by (simp add: take_Suc_conv_app_nth qb[OF k] bb[OF k]) blast
  qed simp
  have final: "bit final k \<longleftrightarrow> simd_emits (simd_run (s, e) (take k xs)) (xs ! k)" if k: "k < 64" for k
  proof -
    have "bit final k \<longleftrightarrow> is_structural (xs ! k) \<and> \<not> (s \<noteq> parity q (Suc k)) \<or> bit q k"
      unfolding final_def q_def[symmetric] bit_or_iff bit_and_iff bit_not_iff
      using structural_bits[OF i k] im(1)[OF k] nth[OF k] k by (simp add: possible_bit_word)
    also have "\<dots> \<longleftrightarrow> simd_emits (simd_run (s, e) (take k xs)) (xs ! k)"
      using qb[OF k] run[of k] k by auto
    finally show ?thesis .
  qed
  have "set_bits_of final = filter (\<lambda>k. simd_emits (simd_run (s, e) (take k xs)) (xs ! k)) [0..<length xs]"
    unfolding set_bits_of_def len using final by (intro filter_cong) auto
  then show "emit_bits final (of_nat i) out = out @ offsets (simd_tokens (s, e) i (slice i (i + 64) buf))"
    unfolding xs_def[symmetric] by (simp add: emit_bits_eq simd_tokens_filter offsets_def comp_def)
  show "simd_run (s, e) (slice i (i + 64) buf) = (s' \<noteq> 0, c' \<noteq> 0)"
    using run[of 64] len em(2) im(2) unfolding xs_def[symmetric] by simp
  show "s' = of_bool (s' \<noteq> 0)" "c' = of_bool (c' \<noteq> 0)" using em(2) im(2) by simp_all
qed

lemma interior_ok:
  assumes "i + 64 \<le> length buf" "interior buf i"
  shows "\<forall>b \<in> set (slice i (i + 64) buf). b \<noteq> 34 \<and> b \<noteq> 92"
  using interior_bytes[OF assms(1)] assms by (auto simp: slice_def in_set_conv_nth)

end

interpretation avx2_masks: chunk_masks
  "\<lambda>buf i. byte_mask (load 32 buf i) (load 32 buf (i + 32)) 92"
  "\<lambda>buf i. byte_mask (load 32 buf i) (load 32 buf (i + 32)) 34"
  "\<lambda>buf i. structural_mask_chunk (load 32 buf i) (load 32 buf (i + 32))"
  "\<lambda>buf i. quote_or_backslash_mask (load 32 buf i) (load 32 buf (i + 32)) = 0"
  by unfold_locales (simp_all add: byte_mask_bits structural_mask_bits quote_or_backslash_zero)

abbreviation neon_tags :: "bytes \<Rightarrow> nat \<Rightarrow> u8 list \<times> u8 list \<times> u8 list \<times> u8 list" where
  "neon_tags buf i \<equiv> classify_tags64 (load 16 buf i) (load 16 buf (i + 16)) (load 16 buf (i + 32)) (load 16 buf (i + 48))"

interpretation neon_masks: chunk_masks
  "\<lambda>buf i. tag_mask64 (neon_tags buf i) TAG_BACKSLASH"
  "\<lambda>buf i. tag_mask64 (neon_tags buf i) TAG_QUOTE"
  "\<lambda>buf i. tag_mask64 (neon_tags buf i) TAG_STRUCTURAL"
  "\<lambda>buf i. neon_probe (load 16 buf i) (load 16 buf (i + 16)) (load 16 buf (i + 32)) (load 16 buf (i + 48)) = 0"
  by unfold_locales (simp_all add: tag_mask64_bits nibble_tag_bits neon_probe_zero)

section \<open>The loops\<close>

definition loop_result ::
  "bytes \<Rightarrow> nat \<Rightarrow> bool \<Rightarrow> bool \<Rightarrow> u32 list \<Rightarrow> nat \<times> u64 \<times> u64 \<times> u32 list \<Rightarrow> bool" where
  "loop_result buf i s e out r \<longleftrightarrow>
     (\<exists>j s' e'. r = (j, of_bool e', of_bool s', out @ offsets (simd_tokens (s, e) i (slice i j buf))) \<and>
        i \<le> j \<and> j \<le> length buf \<and> length buf < j + 64 \<and> simd_run (s, e) (slice i j buf) = (s', e'))"

lemma slice_join: "i \<le> j \<Longrightarrow> j \<le> k \<Longrightarrow> slice i j xs @ slice j k xs = slice i k xs"
proof -
  assume a: "i \<le> j" "j \<le> k"
  then have k: "k - i = (j - i) + (k - j)" by simp
  show ?thesis unfolding slice_def k take_add using a by simp
qed

lemma offsets_append: "offsets (ts @ us) = offsets ts @ offsets us"
  by (simp add: offsets_def)

text \<open>The stretch from \<open>i\<close> to \<open>k\<close> is done; the rest is the result of the loop from \<open>k\<close>.\<close>

lemma loop_result_step:
  assumes "i \<le> k" "k \<le> length buf" "simd_run (s, e) (slice i k buf) = (s1, e1)"
    and "loop_result buf k s1 e1 (out @ offsets (simd_tokens (s, e) i (slice i k buf))) r"
  shows "loop_result buf i s e out r"
proof -
  from assms(4) obtain j s' e' where r:
    "r = (j, of_bool e', of_bool s', (out @ offsets (simd_tokens (s, e) i (slice i k buf))) @
      offsets (simd_tokens (s1, e1) k (slice k j buf)))"
    "k \<le> j" "j \<le> length buf" "length buf < j + 64" "simd_run (s1, e1) (slice k j buf) = (s', e')"
    unfolding loop_result_def by blast
  have slice: "slice i j buf = slice i k buf @ slice k j buf" using assms(1) r(2) by (simp add: slice_join)
  have "i + length (slice i k buf) = k" using assms(1,2) by (simp add: slice_def)
  then have "simd_tokens (s, e) i (slice i j buf) =
      simd_tokens (s, e) i (slice i k buf) @ simd_tokens (s1, e1) k (slice k j buf)"
    by (simp add: slice simd_tokens_append assms(3))
  then show ?thesis
    unfolding loop_result_def using r assms(1,3) by (intro exI[of _ j] exI[of _ s'] exI[of _ e']) (simp add: slice offsets_append)
qed

lemma loop_result_end: "\<not> i + 64 \<le> length buf \<Longrightarrow> i \<le> length buf \<Longrightarrow> loop_result buf i s e out (i, of_bool e, of_bool s, out)"
  by (auto simp: loop_result_def slice_def offsets_def)

lemma cross_chunk_jump_ok:
  assumes "finds_first m" "i \<le> length buf"
  shows "cross_chunk_jump m buf i \<le> length buf"
    "\<forall>b \<in> set (slice i (cross_chunk_jump m buf i) buf). b \<noteq> 34 \<and> b \<noteq> 92"
proof -
  define e where "e = length buf - length buf mod 64"
  define P where "P = (\<lambda>b :: u8. b = 34 \<or> b = 92)"
  have m: "m 34 92 xs = position P xs" for xs using assms(1) by (simp add: finds_first_def P_def)
  have "cross_chunk_jump m buf i \<le> length buf \<and> (\<forall>b \<in> set (slice i (cross_chunk_jump m buf i) buf). \<not> P b)"
  proof (cases "i + 4096 \<le> length buf")
    case True
    have "length buf mod 64 < 64" by simp
    with True have e: "i \<le> e" "e \<le> length buf" by (simp_all add: e_def)
    show ?thesis
    proof (cases "position P (slice i e buf)")
      case None
      then have "cross_chunk_jump m buf i = e"
        using True e by (simp add: cross_chunk_jump_def m e_def[symmetric])
      with None e show ?thesis by (auto simp: position_None)
    next
      case (Some rel)
      note p = position_SomeD[OF Some]
      define k where "k = rel div 64 * 64"
      have k: "k \<le> rel" by (simp add: k_def)
      have j: "cross_chunk_jump m buf i = i + k"
        using True Some by (simp add: cross_chunk_jump_def m e_def[symmetric] k_def)
      from p e have "rel < e - i" by (simp add: slice_def)
      then have "slice i (i + k) buf = take k (slice i e buf)"
        using k by (simp add: slice_def min_def)
      moreover have "set (take k (slice i e buf)) \<subseteq> set (take rel (slice i e buf))"
        using k by (rule set_take_subset_set_take)
      ultimately show ?thesis using p \<open>rel < e - i\<close> e k by (auto simp: j)
    qed
  next
    case False
    with assms(2) show ?thesis by (simp add: cross_chunk_jump_def slice_def)
  qed
  then show "cross_chunk_jump m buf i \<le> length buf"
    "\<forall>b \<in> set (slice i (cross_chunk_jump m buf i) buf). b \<noteq> 34 \<and> b \<noteq> 92"
    by (auto simp: P_def)
qed

text \<open>A skipped chunk with the jump after it.\<close>

lemma loop_result_skip:
  assumes m: "finds_first m" and i: "i + 64 \<le> length buf"
    and clean: "\<forall>b \<in> set (slice i (i + 64) buf). b \<noteq> 34 \<and> b \<noteq> 92"
    and rest: "loop_result buf (cross_chunk_jump m buf (i + 64)) True False out r"
  shows "loop_result buf i True e out r"
proof -
  define k where "k = cross_chunk_jump m buf (i + 64)"
  note jump = cross_chunk_jump_ok[OF m i, folded k_def] cross_chunk_jump_ge[of "i + 64" m buf, folded k_def]
  have "slice i k buf = slice i (i + 64) buf @ slice (i + 64) k buf"
    using jump(3) by (simp add: slice_join)
  with clean jump(2) have all: "\<forall>b \<in> set (slice i k buf). b \<noteq> 34 \<and> b \<noteq> 92" by auto
  have "slice i k buf \<noteq> []" using jump(1,3) by (simp add: slice_def)
  with simd_interior[OF all, of e] rest jump show ?thesis
    by (intro loop_result_step[of i k buf True e True False]) (simp_all add: k_def[symmetric] offsets_def)
qed

text \<open>Both loops satisfy one recursion equation over their masks.\<close>

context chunk_masks
begin

lemma loop_ok:
  assumes loop: "\<And>i c st out. L i c st out =
      (if i + 64 \<le> length buf then
         (if st \<noteq> 0 \<and> interior buf i then L (cross_chunk_jump m buf (i + 64)) 0 st out
          else
            (let (escaped, c) = find_escape_mask_with_carry (backslash buf i) c;
                 real_quote = quote buf i AND NOT escaped;
                 (inside, st) = inside_string_mask real_quote st in
             L (i + 64) c st (emit_bits ((structural buf i AND NOT inside) OR real_quote) (of_nat i) out)))
       else (i, c, st, out))"
    and m: "finds_first m" and i: "i \<le> length buf"
  shows "loop_result buf i s e out (L i (of_bool e) (of_bool s) out)"
  using i
proof (induction "length buf - i" arbitrary: i s e out rule: less_induct)
  case less
  show ?case
  proof (cases "i + 64 \<le> length buf")
    case False
    then have "L i (of_bool e) (of_bool s) out = (i, of_bool e, of_bool s, out)" by (subst loop) simp
    with loop_result_end[OF False less.prems, of s e out] show ?thesis by simp
  next
    case i: True
    show ?thesis
    proof (cases "s \<and> interior buf i")
      case True
      define j where "j = cross_chunk_jump m buf (i + 64)"
      have "length buf - j < length buf - i" "j \<le> length buf"
        using cross_chunk_jump_ge[of "i + 64" m buf] cross_chunk_jump_ok(1)[OF m i] i by (simp_all add: j_def)
      from less.hyps[OF this, of True False out] have "loop_result buf i True e out (L j 0 1 out)"
        unfolding j_def using True by (intro loop_result_skip[OF m i interior_ok[OF i]]) simp_all
      moreover have "L i (of_bool e) (of_bool s) out = L j 0 1 out"
        using True i by (subst loop) (simp add: j_def)
      ultimately show ?thesis using True by simp
    next
      case False
      obtain escaped c' where esc: "find_escape_mask_with_carry (backslash buf i) (of_bool e) = (escaped, c')" by force
      obtain inside s' where ins: "inside_string_mask (quote buf i AND NOT escaped) (of_bool s) = (inside, s')" by force
      note chunk = chunk_ok[OF i esc ins]
      define out' where "out' = emit_bits ((structural buf i AND NOT inside) OR (quote buf i AND NOT escaped)) (of_nat i) out"
      have "length buf - (i + 64) < length buf - i" using i by simp
      from less.hyps[OF this i, of "s' \<noteq> 0" "c' \<noteq> 0" out']
      have "loop_result buf (i + 64) (s' \<noteq> 0) (c' \<noteq> 0) out' (L (i + 64) c' s' out')"
        using chunk(3,4) by simp
      then have "loop_result buf i s e out (L (i + 64) c' s' out')"
        by (intro loop_result_step[OF _ i chunk(2)]) (simp_all add: out'_def chunk(1))
      moreover have "L i (of_bool e) (of_bool s) out = L (i + 64) c' s' out'"
        using False i by (subst loop) (auto simp: esc ins out'_def)
      ultimately show ?thesis by simp
    qed
  qed
qed

end

lemma scan_avx2_loop_ok:
  assumes "finds_first m" "i \<le> length buf"
  shows "loop_result buf i s e out (scan_avx2_loop m buf i (of_bool e) (of_bool s) out)"
  using assms by (intro avx2_masks.loop_ok) (subst scan_avx2_loop.simps, simp_all add: Let_def)

lemma scan_neon_loop_ok:
  assumes "finds_first m" "i \<le> length buf"
  shows "loop_result buf i s e out (scan_neon_loop m buf i (of_bool e) (of_bool s) out)"
  using assms by (intro neon_masks.loop_ok) (subst scan_neon_loop.simps, simp_all add: Let_def)

section \<open>Buffers without stray backslashes\<close>

text \<open>No backslash outside string literals.\<close>

fun clean :: "lex_state \<Rightarrow> bytes \<Rightarrow> bool" where
  "clean st [] = True"
| "clean st (b # xs) = ((st = Outside \<longrightarrow> b \<noteq> 92) \<and> clean (lex_step st b) xs)"

definition no_stray :: "bytes \<Rightarrow> bool" where
  "no_stray buf \<longleftrightarrow> clean Outside buf"

lemma clean_append: "clean st (xs @ ys) \<longleftrightarrow> clean st xs \<and> clean (lex_run st xs) ys"
  by (induction xs arbitrary: st) auto

fun simd_of :: "lex_state \<Rightarrow> simd_state" where
  "simd_of Outside = (False, False)"
| "simd_of Inside = (True, False)"
| "simd_of Escaped = (True, True)"

lemma clean_simd:
  "clean st xs \<Longrightarrow> simd_run (simd_of st) xs = simd_of (lex_run st xs) \<and> simd_tokens (simd_of st) n xs = lex_tokens st n xs"
proof (induction xs arbitrary: st n)
  case (Cons b xs)
  then have "simd_step (simd_of st) b = simd_of (lex_step st b)" "simd_emits (simd_of st) b = lex_emits st b"
    by (cases st; simp)+
  with Cons show ?case by simp
qed simp

text \<open>Emitting from the start with the scalar scanner, then pairing brackets.\<close>

definition two_pass_scan :: "bytes \<Rightarrow> scan_result" where
  "two_pass_scan buf =
     (case scan_emit_resume buf 0 False [] of
        (Ok _, out) \<Rightarrow> (validate_brackets buf out, out)
      | (Err e, out) \<Rightarrow> (Err e, out)
      | (Panic, out) \<Rightarrow> (Panic, out))"

lemma two_pass_scan_eq:
  "two_pass_scan buf =
     (if lex_run Outside buf = Outside then validate_brackets buf (offsets (tokens buf)) else Err (length buf),
      offsets (tokens buf))"
  by (simp add: two_pass_scan_def scan_emit_resume_eq tokens_def)

lemma scan_tail_ok:
  assumes "loop_result buf 0 False False [] r" "no_stray buf"
  shows "scan_tail buf r = two_pass_scan buf"
proof -
  from assms(1) obtain j s' e' where r: "r = (j, of_bool e', of_bool s', offsets (simd_tokens (False, False) 0 (take j buf)))"
    "j \<le> length buf" "simd_run (False, False) (take j buf) = (s', e')"
    by (auto simp: loop_result_def slice_def)
  define st where "st = lex_run Outside (take j buf)"
  have c: "clean Outside (take j buf)" "clean st (drop j buf)"
    using assms(2) clean_append[of Outside "take j buf" "drop j buf"] by (simp_all add: no_stray_def st_def)
  note pre = clean_simd[OF c(1), of 0, simplified, folded st_def]
  have st: "(s', e') = simd_of st" using pre r(3) by simp
  have toks: "tokens buf = simd_tokens (False, False) 0 (take j buf) @ lex_tokens st j (drop j buf)"
    using lex_tokens_append[of Outside 0 "take j buf" "drop j buf"] pre r(2) by (simp add: tokens_def st_def)
  have run: "lex_run Outside buf = lex_run st (drop j buf)"
    using lex_run_append[of Outside "take j buf" "drop j buf"] by (simp add: st_def)
  show ?thesis
  proof (cases "j < length buf")
    case True
    define k where "k = (if s' \<and> e' then j + 1 else j)"
    have "lex_run (start_state s') (drop k buf) = lex_run st (drop j buf) \<and>
        lex_tokens (start_state s') k (drop k buf) = lex_tokens st j (drop j buf)"
      using st c(2) by (cases st) (simp_all add: k_def True Cons_nth_drop_Suc[symmetric])
    then show ?thesis
      using True by (simp add: scan_tail_def r(1) scan_emit_resume_eq k_def[symmetric] two_pass_scan_eq run toks offsets_append)
  next
    case False
    with r(2) st show ?thesis
      by (cases st) (simp_all add: scan_tail_def r(1) two_pass_scan_eq run toks)
  qed
qed

text \<open>A JSON text has no stray backslash.\<close>

definition tidy :: "bytes \<Rightarrow> bool" where
  "tidy s \<longleftrightarrow> balanced s \<and> clean Outside s"

lemma clean_no_tokens: "lex_tokens st n xs = [] \<Longrightarrow> st \<noteq> Outside \<Longrightarrow> clean st xs"
proof (induction xs arbitrary: st n)
  case (Cons b xs)
  then show ?case by (cases st) (auto split: if_splits)
qed simp

lemma clean_plain: "list_all (\<lambda>b. \<not> is_structural b \<and> b \<noteq> 92) s \<Longrightarrow> clean Outside s"
  by (induction s) (auto simp: is_structural_def)

lemma tidy_append: "tidy s \<Longrightarrow> tidy t \<Longrightarrow> tidy (s @ t)"
  by (simp add: tidy_def balanced_append clean_append) (simp add: balanced_def)

lemma tidy_sep: "tidy s \<Longrightarrow> tidy (44 # s)" "tidy s \<Longrightarrow> tidy (58 # s)"
  by (simp_all add: tidy_def balanced_sep)

lemma tidy_container: "tidy s \<Longrightarrow> tidy (91 # s @ [93])" "tidy s \<Longrightarrow> tidy (123 # s @ [125])"
  unfolding tidy_def by (auto intro: balanced_container simp: clean_append)

lemma tidy_ws: "ws w \<Longrightarrow> tidy w"
proof -
  assume w: "ws w"
  have "is_ws b \<Longrightarrow> \<not> is_structural b \<and> b \<noteq> 92" for b using ws_not_structural[of b] by (auto simp: is_ws_def)
  with w have "list_all (\<lambda>b. \<not> is_structural b \<and> b \<noteq> 92) w" by (auto simp: ws_def list_all_iff)
  then show ?thesis using w by (simp add: tidy_def balanced_ws clean_plain)
qed

lemma tidy_string: "json_string s \<Longrightarrow> tidy s"
proof -
  assume s: "json_string s"
  then obtain body where b: "s = 34 # body @ [34]" "unquoted body" by (auto simp: json_string_def)
  then have "clean Inside body" "lex_run Inside body = Inside"
    by (auto simp: unquoted_def intro: clean_no_tokens)
  then have "clean Outside s" by (simp add: b(1) clean_append)
  with balanced_string[OF s] show ?thesis by (simp add: tidy_def)
qed

lemma tidy_scalar: "json_literal s \<Longrightarrow> tidy s" "json_number s \<Longrightarrow> tidy s"
proof -
  have "tidy s" if "json_scalar s" for s
  proof -
    have "b \<noteq> 92" if "b \<in> set s" for b
      using \<open>json_scalar s\<close> that json_number_bytes[of s b] by (auto simp: json_scalar_def json_literal_def is_digit_def)
    moreover have "list_all (\<lambda>b. \<not> is_structural b) s" using that by (rule json_scalar_no_structural(1))
    ultimately show ?thesis
      unfolding tidy_def by (auto simp: list_all_iff intro!: balanced_plain clean_plain)
  qed
  then show "json_literal s \<Longrightarrow> tidy s" "json_number s \<Longrightarrow> tidy s" by (simp_all add: json_scalar_def)
qed

lemma json_tidy:
  "json_value d s \<Longrightarrow> tidy s" "json_elements d es \<Longrightarrow> tidy es" "json_members d ms \<Longrightarrow> tidy ms"
  by (induction rule: json_value_json_elements_json_members.inducts)
    (simp_all add: tidy_append tidy_sep tidy_ws tidy_string tidy_container tidy_scalar)

lemma json_text_no_stray: "json_text d buf \<Longrightarrow> no_stray buf"
proof -
  assume "json_text d buf"
  then have "tidy buf" unfolding json_text_def by (blast intro: tidy_append tidy_ws json_tidy(1))
  then show ?thesis by (simp add: tidy_def no_stray_def)
qed

section \<open>The contract\<close>

text \<open>A scanner that is, on such buffers, emission followed by the bracket pass.\<close>

locale two_pass_scanner =
  fixes scan :: "bytes \<Rightarrow> u32 list \<Rightarrow> (unit, nat) outcome \<times> u32 list"
  assumes two_pass: "no_stray buf \<Longrightarrow> scan buf [] = two_pass_scan buf"

lemma two_pass_scan_cases:
  assumes "length buf < 2 ^ 32"
  shows "snd (two_pass_scan buf) = offsets (tokens buf)"
    "fst (two_pass_scan buf) = Ok () \<longleftrightarrow> well_bracketed buf" "fst (two_pass_scan buf) \<noteq> Panic"
    "fst (two_pass_scan buf) = Err p \<Longrightarrow> p \<le> length buf"
    "fst (two_pass_scan buf) = Err (length buf) \<Longrightarrow> lex_run Outside buf = Outside \<Longrightarrow>
      \<exists>st. pair_brackets [] (tokens buf) = Inr st"
proof -
  have le: "length buf \<le> 2 ^ 32" using assms by simp
  note eq = two_pass_scan_eq[of buf] validate_brackets_tokens[OF le]
  have range: "q < length buf" if "pair_brackets [] (tokens buf) = Inl q" for q
    using pair_brackets_Inl[OF that] tokens_nth by fastforce
  show "snd (two_pass_scan buf) = offsets (tokens buf)" by (simp add: eq)
  show "fst (two_pass_scan buf) = Ok () \<longleftrightarrow> well_bracketed buf" "fst (two_pass_scan buf) \<noteq> Panic"
    by (auto simp: eq well_bracketed_def split: sum.splits)
  show "fst (two_pass_scan buf) = Err p \<Longrightarrow> p \<le> length buf"
    using range by (fastforce simp: eq split: sum.splits if_splits)
  show "fst (two_pass_scan buf) = Err (length buf) \<Longrightarrow> lex_run Outside buf = Outside \<Longrightarrow>
      \<exists>st. pair_brackets [] (tokens buf) = Inr st"
    using range by (fastforce simp: eq split: sum.splits if_splits)
qed

sublocale two_pass_scanner \<subseteq> offset_scanner scan no_stray
proof unfold_locales
  fix d buf assume "json_text d buf"
  then show "no_stray buf" by (rule json_text_no_stray)
next
  fix buf :: bytes and p assume a: "no_stray buf" "length buf < 2 ^ 32"
  note cases = two_pass_scan_cases[OF a(2)] and eq = two_pass[OF a(1)]
  show "fst (scan buf []) \<noteq> Panic" "(fst (scan buf []) = Ok ()) = well_bracketed buf"
    using cases(2,3) by (simp_all add: eq)
  show "snd (scan buf []) = offsets (tokens buf)" if "well_bracketed buf" using cases(1) by (simp add: eq)
  show "snd (scan buf []) = offsets (tokens buf) \<and>
      (lex_run Outside buf = Outside \<longrightarrow> (\<exists>st. pair_brackets [] (tokens buf) = Inr st))"
    if "fst (scan buf []) = Err (length buf)" using cases(1,5) that by (simp add: eq)
  show "p \<le> length buf" if "fst (scan buf []) = Err p" using cases(4) that by (simp add: eq)
qed

text \<open>The vectorised scanners meet it.\<close>

definition memchr2_ref :: search2 where
  "memchr2_ref a b xs = position (\<lambda>x. x = a \<or> x = b) xs"

lemma finds_first_ref: "finds_first m \<longleftrightarrow> m = memchr2_ref"
  by (auto simp: finds_first_def memchr2_ref_def fun_eq_iff)

lemma two_pass_Nil: "two_pass_scan [] = (Ok (), [])"
  by (simp add: two_pass_scan_eq tokens_def validate_brackets_def offsets_def)

interpretation avx2: two_pass_scanner "avx2_scan memchr2_ref"
proof
  fix buf assume "no_stray buf"
  with scan_tail_ok[OF scan_avx2_loop_ok[of memchr2_ref 0 buf False False "[]"]]
  show "avx2_scan memchr2_ref buf [] = two_pass_scan buf"
    by (simp add: avx2_scan_def two_pass_Nil finds_first_ref)
qed

interpretation neon: two_pass_scanner "neon_scan memchr2_ref"
proof
  fix buf assume "no_stray buf"
  with scan_tail_ok[OF scan_neon_loop_ok[of memchr2_ref 0 buf False False "[]"]]
  show "neon_scan memchr2_ref buf [] = two_pass_scan buf"
    by (simp add: neon_scan_def two_pass_Nil finds_first_ref)
qed

text \<open>So does whatever the dispatcher chooses.\<close>

interpretation dispatch: offset_scanner "scan memchr2_ref tgt" no_stray for tgt
proof -
  have scan: "scan memchr2_ref tgt =
      (if x86_64_avx2_build tgt \<and> cpu_avx2 tgt \<and> cpu_pclmulqdq tgt then avx2_scan memchr2_ref
       else if aarch64_build tgt \<and> cpu_aes tgt then neon_scan memchr2_ref else scalar_scan)"
    by (auto simp: scan_def fun_eq_iff)
  have "offset_scanner scalar_scan no_stray"
    using scalar_errors.offset_scanner_axioms json_text_no_stray
    unfolding offset_scanner_def structural_scanner_def offset_scanner_axioms_def by blast
  then show "offset_scanner (scan memchr2_ref tgt) no_stray"
    using avx2.offset_scanner_axioms neon.offset_scanner_axioms by (simp add: scan)
qed

end
