(* ===== verification/Scan_Stray.thy ===== *)
theory Scan_Stray
  imports Scan_Chunks
begin

text \<open>
  Buffers with a backslash outside strings, on which the vectorised scanners may accept another
  index than the scalar one. Their indices agree up to that backslash, which is enough for the
  eager validator to reject the buffer: eager parsing accepts the JSON texts on every target.
\<close>

section \<open>The first token\<close>

lemma lex_first_inside:
  "lex_tokens st n xs = (p, b) # ts \<Longrightarrow> st \<noteq> Outside \<Longrightarrow>
     n \<le> p \<and> p < n + length xs \<and> b = 34 \<and> xs ! (p - n) = 34 \<and>
     ts = lex_tokens Outside (Suc p) (drop (Suc p - n) xs) \<and> lex_run st xs = lex_run Outside (drop (Suc p - n) xs)"
proof (induction xs arbitrary: st n)
  case (Cons x xs)
  show ?case
  proof (cases "lex_emits st x")
    case True
    with Cons.prems show ?thesis by (cases st) auto
  next
    case False
    with Cons.prems have t: "lex_tokens (lex_step st x) (Suc n) xs = (p, b) # ts" by simp
    have "lex_step st x \<noteq> Outside" using False Cons.prems(2) by (cases st) auto
    from Cons.IH[OF t this] show ?thesis by (auto simp: Suc_diff_le nth_Cons')
  qed
qed simp

lemma lex_first_outside:
  "lex_tokens Outside n xs = (p, b) # ts \<Longrightarrow>
     n \<le> p \<and> p < n + length xs \<and> is_structural b \<and> xs ! (p - n) = b \<and>
     ts = lex_tokens (lex_step Outside b) (Suc p) (drop (Suc p - n) xs) \<and>
     lex_run Outside xs = lex_run (lex_step Outside b) (drop (Suc p - n) xs)"
proof (induction xs arbitrary: n)
  case (Cons x xs)
  show ?case
  proof (cases "is_structural x")
    case True
    with Cons.prems show ?thesis by auto
  next
    case False
    then have x: "x \<noteq> 34" by auto
    with False Cons.prems have t: "lex_tokens Outside (Suc n) xs = (p, b) # ts" by simp
    from Cons.IH[OF t] show ?thesis by (auto simp: Suc_diff_le nth_Cons' x)
  qed
qed simp

lemma lex_no_token_inside: "lex_tokens st n xs = [] \<Longrightarrow> st \<noteq> Outside \<Longrightarrow> lex_run st xs \<noteq> Outside"
proof (induction xs arbitrary: st n)
  case (Cons x xs)
  then show ?case by (cases st) (auto split: if_splits)
qed simp

section \<open>A gap with a backslash\<close>

lemma gap_backslash:
  assumes "a \<le> p" "p < e" "e \<le> length buf" "buf ! p = 92"
  shows "consume_scalar_gap buf a e st \<noteq> Ok st'"
proof
  assume ok: "consume_scalar_gap buf a e st = Ok st'"
  define gap where "gap = slice a e buf"
  have len: "length gap = e - a" using assms(1-3) by (simp add: gap_def slice_def)
  have "drop a buf = gap @ drop e buf" using assms(1-3) by (simp add: gap_def slice_append_drop)
  from consume_scalar_gap_walk[OF this] ok assms(1-3) len have walk: "walk_gap a gap st = Ok st'" by simp
  have "gap ! (p - a) = 92" using assms by (simp add: gap_def slice_def)
  then have mem: "92 \<in> set gap" using nth_mem[of "p - a" gap] assms(1,2) len by simp
  have no_ws: "92 \<notin> set w" if "ws w" for w using that by (auto simp: ws_def list_all_iff is_ws_def)
  have no_scalar: "92 \<notin> set v" if "json_scalar v" for v
    using that json_number_bytes[of v 92] by (auto simp: json_scalar_def json_literal_def is_digit_def)
  from walk_gap_Ok[OF walk] mem no_ws no_scalar show False by auto
qed

section \<open>Rejection\<close>

lemma eager_dispatch_Ok:
  assumes "eager_dispatch tgt buf idxs m s cur pos b i = Ok (s', e', i')"
  shows "if b = 34 then i + 1 < length idxs \<and> e' = unat (idxs ! (i + 1)) + 1 \<and> i' = i + 2 else e' = pos + 1 \<and> i' = i + 1"
  using assms unfolding eager_dispatch_def Let_def and_then_eq_Ok by (auto split: if_splits)

lemma eager_step_Ok:
  assumes "eager_step tgt buf idxs m s e i = Ok (s', e', i')"
  shows "unat (idxs ! i) < length buf" "\<exists>c c'. consume_scalar_gap buf e (unat (idxs ! i)) c = Ok c'"
    "if buf ! unat (idxs ! i) = 34 then i + 1 < length idxs \<and> e' = unat (idxs ! (i + 1)) + 1 \<and> i' = i + 2
     else e' = unat (idxs ! i) + 1 \<and> i' = i + 1"
  using assms unfolding eager_step_def Let_def and_then_eq_Ok
  by (auto simp: at_def dest: eager_dispatch_Ok split: if_splits)

text \<open>
  The index agrees with the true one on the text before the backslash and lies behind it after that.
\<close>

lemma eager_loop_rejects:
  assumes len: "length buf < 2 ^ 32" and buf: "buf = pre @ 92 # post"
    and out: "lex_run Outside (drop e pre) = Outside" and e: "e \<le> length pre"
    and idx: "drop i idxs = offsets (lex_tokens Outside e (drop e pre)) @ rest"
    and rest: "\<forall>x \<in> set rest. length pre < unat x"
  shows "eager_loop tgt buf idxs m s e i \<noteq> Ok ()"
  using out e idx
proof (induction "length idxs - i" arbitrary: s e i rule: less_induct)
  case less
  have bs: "buf ! length pre = 92" "length pre < length buf" by (simp_all add: buf)
  note loop = eager_loop.simps[of tgt buf idxs m s e i]
  show ?case
  proof (cases "i < length idxs \<and> idxs ! i \<noteq> U32_MAX")
    case False
    have "eager_finish buf s e \<noteq> Ok ()"
      using gap_backslash[OF less.prems(2) bs(2) le_refl bs(1)] by (auto simp: eager_finish_def and_then_eq_Ok)
    moreover have "eager_loop tgt buf idxs m s e i = eager_finish buf s e" by (subst loop) (simp only: False if_False)
    ultimately show ?thesis by simp
  next
    case i: True
    show ?thesis
    proof (cases "eager_step tgt buf idxs m s e i")
      case (Ok r)
      obtain s' e' i' where r: "r = (s', e', i')" by (cases r)
      note st = eager_step_Ok[OF Ok[unfolded r]]
      have "drop i idxs = idxs ! i # drop (Suc i) idxs" using i by (simp add: Cons_nth_drop_Suc)
      show ?thesis
      proof (cases "lex_tokens Outside e (drop e pre)")
        case Nil
        with less.prems(3) i have "idxs ! i \<in> set rest"
          by (metis Cons_nth_drop_Suc append_Nil list.set_intros(1) list.simps(8) offsets_def)
        with rest have "length pre < unat (idxs ! i)" by blast
        with gap_backslash[OF less.prems(2) this _ bs(1)] st(1,2) show ?thesis by auto
      next
        case (Cons t ts)
        obtain p b where t: "t = (p, b)" by (cases t)
        from lex_first_outside[OF Cons[unfolded t]] less.prems(2) have p: "e \<le> p" "p < length pre" "pre ! p = b"
          "ts = lex_tokens (lex_step Outside b) (Suc p) (drop (Suc p) pre)"
          "lex_run (lex_step Outside b) (drop (Suc p) pre) = Outside"
          using less.prems(1) by (auto simp: Suc_diff_le)
        have ix: "idxs ! i = of_nat p" "drop (Suc i) idxs = offsets ts @ rest"
          using less.prems(3) i unfolding Cons t by (auto simp: Cons_nth_drop_Suc[symmetric])
        have pos: "unat (idxs ! i) = p" using offset_unat(1)[OF len, of p] p(2) bs(2) by (simp add: ix)
        have b: "buf ! p = b" using p(2,3) by (simp add: buf nth_append)
        have step: "eager_loop tgt buf idxs m s e i = eager_loop tgt buf idxs m s' e' i'"
          using i Ok r by (subst loop) simp
        show ?thesis
        proof (cases "b = 34")
          case False
          with st(3) pos b have e': "e' = Suc p" "i' = Suc i" by simp_all
          have "length idxs - Suc i < length idxs - i" using conjunct1[OF i] by linarith
          from less.hyps[OF this, of "Suc p" s'] show ?thesis
            using p ix False by (simp add: step e')
        next
          case True
          with p(4,5) have ts: "ts = lex_tokens Inside (Suc p) (drop (Suc p) pre)" "lex_run Inside (drop (Suc p) pre) = Outside"
            by simp_all
          with lex_no_token_inside[of Inside] have "ts \<noteq> []" by auto
          then obtain c d us where us: "ts = (c, d) # us" by (cases ts) auto
          from lex_first_inside[OF ts(1)[symmetric, unfolded us]] p(2) ts(2)
          have c: "c < length pre" "us = lex_tokens Outside (Suc c) (drop (Suc c) pre)"
            "lex_run Outside (drop (Suc c) pre) = Outside" "Suc p \<le> c"
            by (auto simp: Suc_diff_le)
          from st(3) pos b True have e': "Suc i < length idxs" "e' = Suc (unat (idxs ! Suc i))" "i' = Suc (Suc i)" by simp_all
          have jx: "idxs ! Suc i = of_nat c" "drop (Suc (Suc i)) idxs = offsets us @ rest"
            using ix(2) e'(1) unfolding us by (auto simp: Cons_nth_drop_Suc[symmetric])
          have "unat (idxs ! Suc i) = c" using offset_unat(1)[OF len, of c] c(1) bs(2) by (simp add: jx)
          then have "e' = Suc c" using e'(2) by simp
          moreover have "length idxs - Suc (Suc i) < length idxs - i" using conjunct1[OF i] by linarith
          ultimately show ?thesis
            using less.hyps[of "Suc (Suc i)" "Suc c" s'] c jx by (simp add: step e'(3))
        qed
      qed
    qed (use i in \<open>simp_all add: loop\<close>)
  qed
qed

section \<open>The vectorised index before the backslash\<close>

lemma first_stray:
  assumes "\<not> clean Outside buf"
  obtains pre post where "buf = pre @ 92 # post" "clean Outside pre" "lex_run Outside pre = Outside"
proof -
  have "\<exists>pre post. xs = pre @ 92 # post \<and> clean st pre \<and> lex_run st pre = Outside" if "\<not> clean st xs" for st xs
    using that
  proof (induction xs arbitrary: st)
    case (Cons x xs)
    show ?case
    proof (cases "st = Outside \<and> x = 92")
      case True
      then show ?thesis by (intro exI[of _ "[]"] exI[of _ xs]) simp
    next
      case False
      with Cons.prems have "\<not> clean (lex_step st x) xs" by auto
      from Cons.IH[OF this] obtain pre post where "xs = pre @ 92 # post" "clean (lex_step st x) pre"
        "lex_run (lex_step st x) pre = Outside" by blast
      with False show ?thesis by (intro exI[of _ "x # pre"] exI[of _ post]) auto
    qed
  qed simp
  with assms that show thesis by blast
qed

lemma simd_tokens_range: "(p, b) \<in> set (simd_tokens st n xs) \<Longrightarrow> n \<le> p \<and> p < n + length xs"
  by (induction xs arbitrary: st n) (fastforce split: if_splits)+

text \<open>An index that is the true one before the first stray backslash.\<close>

definition true_prefix :: "bytes \<Rightarrow> u32 list \<Rightarrow> bool" where
  "true_prefix buf idxs \<longleftrightarrow>
     (\<exists>pre post rest. buf = pre @ 92 # post \<and> lex_run Outside pre = Outside \<and>
        idxs = offsets (tokens pre) @ rest \<and> (\<forall>x \<in> set rest. length pre < unat x))"

lemma true_prefixI:
  assumes "length buf < 2 ^ 32" "buf = pre @ 92 # post" "lex_run Outside pre = Outside"
    "idxs = offsets (tokens pre @ ts)" "\<And>p b. (p, b) \<in> set ts \<Longrightarrow> length pre < p \<and> p < length buf"
  shows "true_prefix buf idxs"
proof -
  have "length pre < unat x" if x: "x \<in> set (offsets ts)" for x
  proof -
    from x obtain p b where p: "(p, b) \<in> set ts" "x = of_nat p" by (auto simp: offsets_def)
    with assms(5)[OF p(1)] offset_unat(1)[OF assms(1), of p] show ?thesis by simp
  qed
  with assms(2-4) show ?thesis unfolding true_prefix_def
    by (intro exI[of _ pre] exI[of _ post] exI[of _ "offsets ts"]) simp
qed

lemma scan_tail_stray:
  assumes len: "length buf < 2 ^ 32" and r: "loop_result buf 0 False False [] r" and stray: "\<not> no_stray buf"
    and ok: "scan_tail buf r = (Ok (), idxs)"
  shows "true_prefix buf idxs"
proof -
  from r obtain j s' e' where r: "r = (j, of_bool e', of_bool s', offsets (simd_tokens (False, False) 0 (take j buf)))"
    "j \<le> length buf" "simd_run (False, False) (take j buf) = (s', e')"
    by (auto simp: loop_result_def slice_def)
  from stray obtain pre post where buf: "buf = pre @ 92 # post" and c: "clean Outside pre" "lex_run Outside pre = Outside"
    unfolding no_stray_def by (rule first_stray)
  define k where "k = (if s' \<and> e' then j + 1 else j)"
  have idxs: "idxs = offsets (simd_tokens (False, False) 0 (take j buf) @ lex_tokens (start_state s') k (drop k buf))"
    using ok r(2) by (auto simp: scan_tail_def r(1) scan_emit_resume_eq k_def Let_def split: if_splits)
  show ?thesis
  proof (cases "length pre < j")
    case True
    then have tk: "take j buf = pre @ 92 # take (j - length pre - 1) post" by (simp add: buf take_Cons')
    define xs where "xs = take (j - length pre - 1) post"
    have xs: "length pre + 1 + length xs \<le> j" using True by (simp add: xs_def)
    have pre: "simd_run (False, False) pre = (False, False)" "simd_tokens (False, False) 0 pre = tokens pre"
      using clean_simd[OF c(1), of 0] c(2) by (simp_all add: tokens_def)
    define ts where "ts = simd_tokens (False, True) (Suc (length pre)) xs @ lex_tokens (start_state s') k (drop k buf)"
    have "idxs = offsets (tokens pre @ ts)"
      unfolding idxs tk xs_def[symmetric] ts_def by (simp add: simd_tokens_append pre is_structural_def)
    then show ?thesis
    proof (rule true_prefixI[OF len buf c(2)])
      fix p b assume "(p, b) \<in> set ts"
      then show "length pre < p \<and> p < length buf"
        using xs r(2) True by (auto simp: ts_def k_def dest!: simd_tokens_range lex_tokens_range split: if_splits)
    qed
  next
    case False
    define xs where "xs = drop j pre"
    have tk: "take j buf = take j pre" "drop j buf = xs @ 92 # post" "pre = take j pre @ xs" using False by (simp_all add: buf xs_def)
    define st where "st = lex_run Outside (take j pre)"
    have cl: "clean Outside (take j pre)" "clean st xs" using c(1) clean_append[of Outside "take j pre" xs] tk(3) by (simp_all add: st_def)
    note pre = clean_simd[OF cl(1), of 0, simplified, folded st_def]
    have st: "(s', e') = simd_of st" using pre r(3) tk(1) by simp
    have end_st: "lex_run st xs = Outside" using c(2) lex_run_append[of Outside "take j pre" xs] tk(3) by (simp add: st_def)
    have tail: "lex_tokens (start_state s') k (drop k buf) = lex_tokens st j (drop j buf)"
    proof (cases "s' \<and> e'")
      case True
      then have "st = Escaped" using st by (cases st) auto
      moreover from this end_st obtain x xs' where "drop j buf = x # xs'" by (cases xs) (auto simp: tk(2))
      ultimately show ?thesis using True by (simp add: k_def drop_Suc tl_drop[symmetric])
    next
      case False
      then show ?thesis using st by (cases st) (auto simp: k_def)
    qed
    define ts where "ts = lex_tokens Outside (Suc (length pre)) post"
    have jl: "j + length xs = length pre" using False by (simp add: xs_def)
    have "tokens pre = lex_tokens Outside 0 (take j pre) @ lex_tokens st j xs"
      using lex_tokens_append[of Outside 0 "take j pre" xs] tk(3) False by (simp add: tokens_def st_def)
    moreover have "lex_tokens st j (xs @ 92 # post) = lex_tokens st j xs @ ts"
      by (simp add: lex_tokens_append end_st jl ts_def is_structural_def)
    ultimately have "idxs = offsets (tokens pre @ ts)"
      unfolding idxs tail tk(1,2) using pre by simp
    then show ?thesis
      by (rule true_prefixI[OF len buf c(2)]) (auto simp: ts_def buf dest: lex_tokens_range)
  qed
qed

section \<open>Eager parsing on every target\<close>

lemma vector_scan_prefix:
  assumes "length buf < 2 ^ 32" "\<not> no_stray buf"
    "avx2_scan memchr2_ref buf [] = (Ok (), idxs) \<or> neon_scan memchr2_ref buf [] = (Ok (), idxs)"
  shows "true_prefix buf idxs"
proof -
  have ne: "buf \<noteq> []" using assms(2) by (auto simp: no_stray_def)
  have ref: "finds_first memchr2_ref" by (simp add: finds_first_ref)
  have loops: "loop_result buf 0 False False [] (scan_avx2_loop memchr2_ref buf 0 0 0 [])"
    "loop_result buf 0 False False [] (scan_neon_loop memchr2_ref buf 0 0 0 [])"
    using scan_avx2_loop_ok[OF ref, of 0 buf False False "[]"] scan_neon_loop_ok[OF ref, of 0 buf False False "[]"]
    by simp_all
  from assms(3) show ?thesis
    using scan_tail_stray[OF assms(1) loops(1) assms(2)] scan_tail_stray[OF assms(1) loops(2) assms(2)] ne
    unfolding avx2_scan_def neon_scan_def by (metis (no_types, lifting))
qed

lemma eager_rejects_prefix:
  assumes len: "length buf < 2 ^ 32" and idx: "true_prefix buf idxs"
  shows "validate_eager_values_with_offset tgt buf (idxs @ [U32_MAX]) m \<noteq> Ok ()"
proof -
  from idx obtain pre post rest where p: "buf = pre @ 92 # post" "lex_run Outside pre = Outside"
    "idxs = offsets (tokens pre) @ rest" "\<forall>x \<in> set rest. length pre < unat x"
    unfolding true_prefix_def by blast
  have "length pre < unat U32_MAX" using len by (simp add: p(1) unat_U32_MAX)
  with p show ?thesis
    unfolding validate_eager_values_with_offset_def
    by (intro eager_loop_rejects[OF len p(1), where rest = "rest @ [U32_MAX]"]) (auto simp: tokens_def)
qed

lemma parse_eager_scan:
  assumes len: "length buf < 2 ^ 32" and eager: "is_eager opts"
  shows "parse_with_options_detailed (scan memchr2_ref tgt) tgt buf opts = Ok d \<longleftrightarrow>
    json_text (unat (effective_max_depth opts)) buf \<and> d = document_new buf (offsets (tokens buf) @ [U32_MAX]) True"
proof (cases "no_stray buf")
  case True
  then show ?thesis by (rule dispatch.parse_eager[OF _ len eager])
next
  case stray: False
  consider "scan memchr2_ref tgt = scalar_scan"
    | "\<And>idxs. scan memchr2_ref tgt buf [] = (Ok (), idxs) \<Longrightarrow> true_prefix buf idxs"
    using vector_scan_prefix[OF len stray] by (cases "x86_64_avx2_build tgt \<and> cpu_avx2 tgt \<and> cpu_pclmulqdq tgt";
      cases "aarch64_build tgt \<and> cpu_aes tgt") (auto simp: scan_def fun_eq_iff)
  then show ?thesis
  proof cases
    case 1
    then show ?thesis using scalar.parse_eager[OF _ len eager, of tgt d] by simp
  next
    case 2
    have "\<not> json_text k buf" for k using stray json_text_no_stray by blast
    moreover have "parse_with_options_detailed (scan memchr2_ref tgt) tgt buf opts \<noteq> Ok d"
      using eager_rejects_prefix[OF len 2] eager
      by (auto simp: parse_with_options_detailed_def Let_def and_then_eq_Ok split: prod.splits outcome.splits if_splits)
    ultimately show ?thesis by blast
  qed
qed

end
