(* ===== verification/Parse_Total.thy ===== *)
theory Parse_Total
  imports Scan_Stray
begin

text \<open>
  Parsing arbitrary bytes, a backslash outside strings included. Whatever index a scanner builds is
  increasing and in range, and that is all the passes over it need in order not to panic: eager
  parsing returns on every buffer, lazy parsing too unless the depth check underflows.
\<close>

section \<open>Indices in order\<close>

definition ordered_index :: "bytes \<Rightarrow> u32 list \<Rightarrow> bool" where
  "ordered_index buf idxs \<longleftrightarrow> sorted_wrt (<) (map unat idxs) \<and> (\<forall>x \<in> set idxs. unat x < length buf)"

lemma simd_tokens_sorted: "sorted_wrt (<) (map fst (simd_tokens st n xs))"
  by (induction xs arbitrary: st n) (fastforce dest: simd_tokens_range)+

lemma ordered_offsets:
  assumes "length buf < 2 ^ 32" "sorted_wrt (<) (map fst ts)" "\<And>p b. (p, b) \<in> set ts \<Longrightarrow> p < length buf"
  shows "ordered_index buf (offsets ts)"
proof -
  have "unat (of_nat (fst t) :: u32) = fst t" if "t \<in> set ts" for t
    using offset_unat(1)[OF assms(1)] assms(3)[of "fst t" "snd t"] that by simp
  then have "map unat (offsets ts) = map fst ts" by (simp add: offsets_def)
  moreover have "unat x \<in> set (map unat (offsets ts))" if "x \<in> set (offsets ts)" for x using that by simp
  ultimately show ?thesis using assms(2,3) by (fastforce simp: ordered_index_def)
qed

lemma ordered_tokens: "length buf < 2 ^ 32 \<Longrightarrow> ordered_index buf (offsets (tokens buf))"
  by (rule ordered_offsets) (auto simp: tokens_def lex_tokens_sorted dest: tokens_nth[unfolded tokens_def])

lemma validate_brackets_total:
  "\<forall>x \<in> set idxs. unat x < length buf \<Longrightarrow>
     case validate_brackets_loop buf st in_str idxs of Ok _ \<Rightarrow> True | Err p \<Rightarrow> p \<le> length buf | Panic \<Rightarrow> False"
proof (induction idxs arbitrary: st in_str)
  case (Cons x idxs)
  then have "unat x < length buf" and IH: "\<And>st in_str. case validate_brackets_loop buf st in_str idxs of
      Ok _ \<Rightarrow> True | Err p \<Rightarrow> p \<le> length buf | Panic \<Rightarrow> False" by auto
  then show ?case by (auto simp: at_def)
qed simp

text \<open>What every scanner returns on every buffer.\<close>

definition orderly :: "bytes \<Rightarrow> scan_result \<Rightarrow> bool" where
  "orderly buf r \<longleftrightarrow> fst r \<noteq> Panic \<and> (\<forall>p. fst r = Err p \<longrightarrow> p \<le> length buf) \<and>
     (fst r = Ok () \<or> fst r = Err (length buf) \<longrightarrow> ordered_index buf (snd r))"

lemma validate_brackets_orderly:
  assumes "ordered_index buf idxs"
  shows "orderly buf (validate_brackets buf idxs, idxs)"
  using assms validate_brackets_total[of idxs buf "[]" False]
  by (auto simp: orderly_def ordered_index_def validate_brackets_def split: outcome.splits)

lemma scan_tail_orderly:
  assumes len: "length buf < 2 ^ 32" and r: "loop_result buf 0 False False [] r"
  shows "orderly buf (scan_tail buf r)"
proof -
  from r obtain j s' e' where r: "r = (j, of_bool e', of_bool s', offsets (simd_tokens (False, False) 0 (take j buf)))"
    "j \<le> length buf" by (auto simp: loop_result_def slice_def)
  define k where "k = (if s' \<and> e' then j + 1 else j)"
  have pre: "p < j \<and> p < length buf" if "(p, b) \<in> set (simd_tokens (False, False) 0 (take j buf))" for p b
    using simd_tokens_range[OF that] r(2) by simp
  have post: "j \<le> p \<and> p < length buf" if "(p, b) \<in> set (lex_tokens st k (drop k buf))" for p b st
    using lex_tokens_range[OF that] by (cases "k \<le> length buf") (auto simp: k_def split: if_splits)
  have "sorted_wrt (<) (map fst (simd_tokens (False, False) 0 (take j buf) @ lex_tokens st k (drop k buf)))" for st
    using simd_tokens_sorted lex_tokens_sorted pre post by (fastforce simp: sorted_wrt_append)
  then have all: "ordered_index buf (offsets (simd_tokens (False, False) 0 (take j buf) @ lex_tokens st k (drop k buf)))" for st
    using pre post by (intro ordered_offsets[OF len]) auto
  have here: "ordered_index buf (offsets (simd_tokens (False, False) 0 (take j buf)))"
    using pre by (intro ordered_offsets[OF len] simd_tokens_sorted) auto
  show ?thesis
    using validate_brackets_orderly[OF all] validate_brackets_orderly[OF here] all here
    by (auto simp: scan_tail_def r(1) scan_emit_resume_eq k_def[symmetric] Let_def orderly_def)
qed

lemma scan_orderly:
  assumes len: "length buf < 2 ^ 32"
  shows "orderly buf (scan memchr2_ref tgt buf [])"
proof -
  have ref: "finds_first memchr2_ref" by (simp add: finds_first_ref)
  have empty: "orderly buf (Ok (), [])" by (simp add: orderly_def ordered_index_def)
  have "orderly buf (avx2_scan memchr2_ref buf [])" "orderly buf (neon_scan memchr2_ref buf [])"
    using scan_tail_orderly[OF len scan_avx2_loop_ok[OF ref, of 0 buf False False "[]"]]
      scan_tail_orderly[OF len scan_neon_loop_ok[OF ref, of 0 buf False False "[]"]] empty
    by (cases "buf = []"; simp add: avx2_scan_def neon_scan_def)+
  moreover have "orderly buf (scalar_scan buf [])"
    using scalar_errors.scan_offset[OF TrueI len] ordered_tokens[OF len]
    by (cases rule: scalar.scan_cases[OF TrueI len]) (auto simp: orderly_def)
  ultimately show ?thesis by (simp add: scan_def)
qed

section \<open>The passes over an ordered index\<close>

definition sound_result :: "nat \<Rightarrow> ('a, parse_error) outcome \<Rightarrow> bool" where
  "sound_result n r \<longleftrightarrow> (case r of Ok _ \<Rightarrow> True | Err e \<Rightarrow> error_within n e | Panic \<Rightarrow> False)"

lemma sound_result_simps [simp]:
  "sound_result n (Ok x)" "sound_result n (Err e) = error_within n e" "\<not> sound_result n Panic"
  by (simp_all add: sound_result_def)

lemma sound_then: "sound_result n r \<Longrightarrow> (\<And>x. r = Ok x \<Longrightarrow> sound_result n (f x)) \<Longrightarrow> sound_result n (and_then r f)"
  by (cases r) auto

lemma depth_sound:
  assumes "\<not> debug_build tgt" "\<forall>x \<in> set idxs. x \<noteq> U32_MAX \<longrightarrow> unat x < length buf"
  shows "sound_result (length buf) (validate_depth_loop tgt buf m idxs depth)"
  using assms(2)
proof (induction idxs arbitrary: depth)
  case (Cons x idxs)
  then have "\<And>depth. sound_result (length buf) (validate_depth_loop tgt buf m idxs depth)"
    "x \<noteq> U32_MAX \<Longrightarrow> unat x < length buf" by auto
  then show ?case using assms(1) by (auto simp: at_def add_u32_def sub_u32_def)
qed simp

lemma trailing_sound:
  assumes "\<forall>x \<in> set idxs. x \<noteq> U32_MAX \<longrightarrow> unat x < length buf"
  shows "sound_result (length buf) (validate_trailing_with_offset buf idxs)"
  using root_end_ok[OF assms] by (auto simp: validate_trailing_with_offset_def)

lemma gap_sound:
  assumes "e \<le> p" "p \<le> length buf"
  shows "sound_result (length buf) (consume_scalar_gap buf e p c)"
    "consume_scalar_gap buf e p c = Ok c' \<Longrightarrow> c' = c \<or> c' = parent_after_value c"
proof -
  define gap where "gap = slice e p buf"
  have "drop e buf = gap @ drop p buf" "length gap = p - e" using assms by (simp_all add: gap_def slice_append_drop)
  with consume_scalar_gap_walk[of e buf gap "drop p buf" c] assms
  have eq: "consume_scalar_gap buf e p c = walk_gap e gap c" and len: "e + length gap = p" by simp_all
  show "sound_result (length buf) (consume_scalar_gap buf e p c)"
    unfolding eq using walk_gap_no_panic[of e gap c] walk_gap_errors[of e gap c] len assms(2)
    by (cases "walk_gap e gap c") (auto dest: error_within_mono)
  show "c' = c \<or> c' = parent_after_value c" if "consume_scalar_gap buf e p c = Ok c'"
    using that unfolding eq by (auto simp: walk_gap_def Let_def split: if_splits)
qed

text \<open>A step of the eager walk either fails within the buffer or goes on behind the token.\<close>

lemma quote_sound:
  assumes rep: "represents s (c # st)" and pos: "pos < length buf"
  shows "case eager_dispatch tgt buf idxs m s c pos 34 i of
      Ok (s', e', i') \<Rightarrow> i + 1 < length idxs \<and> unat (idxs ! (i + 1)) < length buf \<and> e' = unat (idxs ! (i + 1)) + 1 \<and>
        i' = i + 2 \<and> (\<exists>c'. represents s' (c' # st))
    | Err e \<Rightarrow> error_within (length buf) e
    | Panic \<Rightarrow> False"
proof -
  have span: "(\<exists>u. validate_string_span tgt b = Ok u) \<or> (\<exists>e. validate_string_span tgt b = Err e \<and> e \<in> parse_codes)" for b
    using validate_span_scalar_total[of b] validate_span_codes[of b] by (auto simp: validate_string_span_eq)
  have rep': "represents (stack_set_last c' s) (c' # st)" if "c' = parent_after_value c \<or> c' = ObjAfterKey \<and> (c = ObjAfterOpen \<or> c = ObjAfterComma)" for c'
    using that by (intro represents_set_last[OF rep]) (cases c; auto simp: is_root_def)+
  define cl where "cl = unat (idxs ! (i + 1))"
  define r where "r = validate_string_span tgt (slice (pos + 1) cl buf)"
  have run: "eager_dispatch tgt buf idxs m s c pos 34 i =
      (if i + 1 \<ge> length idxs then Err (parse_error_new QJSON_PARSE_ERROR pos)
       else if cl \<le> pos \<or> cl \<ge> length buf \<or> buf ! cl \<noteq> 34 then Err (parse_error_new QJSON_PARSE_ERROR pos)
       else and_then (map_err (\<lambda>code. parse_error_new code pos) r) (\<lambda>_.
         if c = ObjAfterOpen \<or> c = ObjAfterComma then Ok (stack_set_last ObjAfterKey s, cl + 1, i + 2)
         else if expects_value c then Ok (stack_set_last (parent_after_value c) s, cl + 1, i + 2)
         else Err (parse_error_new QJSON_PARSE_ERROR pos)))"
    unfolding eager_dispatch_def Let_def cl_def r_def by (simp only: simp_thms if_True if_False) simp
  consider "i + 1 \<ge> length idxs" | "cl \<le> pos \<or> cl \<ge> length buf \<or> buf ! cl \<noteq> 34"
    | "i + 1 < length idxs" "\<not> (cl \<le> pos \<or> cl \<ge> length buf \<or> buf ! cl \<noteq> 34)" by linarith
  then show ?thesis
  proof cases
    case 3
    from span[of "slice (pos + 1) cl buf", folded r_def] show ?thesis
    proof (elim disjE exE conjE)
      fix u assume "r = Ok u"
      then have "eager_dispatch tgt buf idxs m s c pos 34 i =
        (if c = ObjAfterOpen \<or> c = ObjAfterComma then Ok (stack_set_last ObjAfterKey s, cl + 1, i + 2)
         else if expects_value c then Ok (stack_set_last (parent_after_value c) s, cl + 1, i + 2)
         else Err (parse_error_new QJSON_PARSE_ERROR pos))"
        using 3 by (simp add: run)
      then show ?thesis
        using 3 rep'[of ObjAfterKey] rep'[of "parent_after_value c"] pos
        by (cases "c = ObjAfterOpen \<or> c = ObjAfterComma"; cases "expects_value c") (auto simp: cl_def)
    qed (use 3 pos in \<open>simp add: run\<close>)
  qed (use pos in \<open>simp_all add: run\<close>)
qed

lemma step_sound:
  assumes rep: "represents s (c # st)" and pos: "pos < length buf" and b: "b \<noteq> 34"
  shows "case eager_dispatch tgt buf idxs m s c pos b i of
      Ok (s', e', i') \<Rightarrow> e' = pos + 1 \<and> i' = i + 1 \<and> (\<exists>c' st'. represents s' (c' # st'))
    | Err e \<Rightarrow> error_within (length buf) e
    | Panic \<Rightarrow> False"
proof (cases "walk_token (unat m) pos b (c # st)")
  case (Ok st')
  then obtain c' st'' where "st' = c' # st''" using walk_token_no_panic(2)[OF Ok] by (cases st') auto
  with eager_dispatch_walk[OF rep b, where max_depth = m and pos = pos and tgt = tgt and buf = buf and indices = idxs and i = i] Ok show ?thesis by (auto simp del: walk_token.simps) blast
next
  case (Err e)
  with eager_dispatch_walk[OF rep b, where max_depth = m and pos = pos and tgt = tgt and buf = buf and indices = idxs and i = i] walk_token_errors[OF Err] pos show ?thesis
    by (auto simp del: walk_token.simps intro: error_within_mono)
qed (use walk_token_no_panic(1) in blast)

lemma finish_sound:
  assumes "represents s (c # st)" "e \<le> length buf"
  shows "sound_result (length buf) (eager_finish buf s e)"
proof -
  have "stack_last s = (Ok (Some c) :: (_, parse_error) outcome)"
    using assms(1) stack_last_frames by (auto simp: represents_def)
  then show ?thesis
    unfolding eager_finish_def unwrap_def Let_def
    by (intro sound_then gap_sound(1)[OF assms(2)]) auto
qed

lemma eager_loop_sound:
  assumes len: "length buf < 2 ^ 32" and ord: "ordered_index buf ks"
    and rep: "represents s (c # st)" and e: "e \<le> length buf" "\<forall>x \<in> set (drop i ks). e \<le> unat x" and i: "i \<le> length ks"
  shows "sound_result (length buf) (eager_loop tgt buf (ks @ [U32_MAX]) m s e i)"
  using rep e i
proof (induction "length ks - i" arbitrary: s c st e i rule: less_induct)
  case less
  note loop = eager_loop.simps[of tgt buf "ks @ [U32_MAX]" m s e i]
  show ?case
  proof (cases "i < length ks \<and> ks ! i \<noteq> U32_MAX")
    case False
    then have "eager_loop tgt buf (ks @ [U32_MAX]) m s e i = eager_finish buf s e"
      using less.prems(4) by (subst loop) (auto simp: nth_append)
    then show ?thesis using finish_sound[OF less.prems(1,2)] by simp
  next
    case True
    then have i: "i < length ks" by simp
    define pos where "pos = unat (ks ! i)"
    have pos: "pos < length buf" using ord i by (simp add: ordered_index_def pos_def)
    have e: "e \<le> pos" using less.prems(3) i by (simp add: pos_def Cons_nth_drop_Suc[symmetric])
    have later: "unat (ks ! k) < unat (ks ! l)" if "k < l" "l < length ks" for k l
      using ord that by (simp add: ordered_index_def sorted_wrt_iff_nth_less)
    have after: "\<forall>x \<in> set (drop l ks). Suc (unat (ks ! k)) \<le> unat x" if "k < l" for k l
    proof
      fix x assume "x \<in> set (drop l ks)"
      then obtain n where "n < length ks - l" "x = ks ! (l + n)" by (auto simp: in_set_conv_nth)
      then have n: "l + n < length ks" "x = ks ! (l + n)" by simp_all
      with later[of k "l + n"] that show "Suc (unat (ks ! k)) \<le> unat x" by simp
    qed
    have step: "eager_loop tgt buf (ks @ [U32_MAX]) m s e i =
      (case eager_step tgt buf (ks @ [U32_MAX]) m s e i of
         Ok (s', e', i') \<Rightarrow> eager_loop tgt buf (ks @ [U32_MAX]) m s' e' i' | Err x \<Rightarrow> Err x | Panic \<Rightarrow> Panic)"
      using True by (subst loop) (simp add: nth_append)
    have last: "stack_last s = (Ok (Some c) :: (_, parse_error) outcome)"
      using less.prems(1) stack_last_frames by (auto simp: represents_def)
    show ?thesis
    proof (cases "consume_scalar_gap buf e pos c")
      case (Ok c1)
      define s1 where "s1 = stack_set_last c1 s"
      have rep1: "represents s1 (c1 # st)"
        unfolding s1_def using gap_sound(2)[OF e less_imp_le[OF pos] Ok] by (intro represents_gap[OF less.prems(1)])
      have run: "eager_step tgt buf (ks @ [U32_MAX]) m s e i = eager_dispatch tgt buf (ks @ [U32_MAX]) m s1 c1 pos (buf ! pos) i"
        using i Ok pos by (simp add: eager_step_def pos_def[symmetric] nth_append last unwrap_def at_def s1_def)
      show ?thesis
      proof (cases "eager_dispatch tgt buf (ks @ [U32_MAX]) m s1 c1 pos (buf ! pos) i")
        case (Ok r)
        obtain s' e' i' where r: "r = (s', e', i')" by (cases r)
        have "(\<exists>c' st'. represents s' (c' # st')) \<and> e' \<le> length buf \<and> (\<forall>x \<in> set (drop i' ks). e' \<le> unat x) \<and> i < i' \<and> i' \<le> length ks"
        proof (cases "buf ! pos = 34")
          case True
          with quote_sound[OF rep1 pos, where tgt = tgt and idxs = "ks @ [U32_MAX]" and m = m and i = i] Ok r
          have q: "i + 1 < length (ks @ [U32_MAX])" "unat ((ks @ [U32_MAX]) ! (i + 1)) < length buf"
            "e' = unat ((ks @ [U32_MAX]) ! (i + 1)) + 1" "i' = i + 2" "\<exists>c'. represents s' (c' # st)" by simp_all
          show ?thesis
          proof (cases "i + 1 < length ks")
            case True
            with q after[of "i + 1" "i + 2"] show ?thesis by (auto simp: nth_append)
          next
            case False
            with q len show ?thesis by (auto simp: nth_append unat_U32_MAX)
          qed
        next
          case False
          with step_sound[OF rep1 pos False, where tgt = tgt and idxs = "ks @ [U32_MAX]" and m = m and i = i] Ok r after[of i "i + 1"] i pos
          show ?thesis by (auto simp: pos_def)
        qed
        with less.hyps[of i' s' _ _ e'] i show ?thesis by (auto simp: step run Ok r)
      next
        case (Err x)
        with quote_sound[OF rep1 pos, where tgt = tgt and idxs = "ks @ [U32_MAX]" and m = m and i = i] step_sound[OF rep1 pos, where b = "buf ! pos" and tgt = tgt and idxs = "ks @ [U32_MAX]" and m = m and i = i]
        show ?thesis by (cases "buf ! pos = 34") (simp_all add: step run)
      next
        case Panic
        with quote_sound[OF rep1 pos, where tgt = tgt and idxs = "ks @ [U32_MAX]" and m = m and i = i] step_sound[OF rep1 pos, where b = "buf ! pos" and tgt = tgt and idxs = "ks @ [U32_MAX]" and m = m and i = i]
        show ?thesis by (cases "buf ! pos = 34") simp_all
      qed
    next
      case (Err x)
      with gap_sound(1)[OF e less_imp_le[OF pos], of c] i pos show ?thesis
        by (simp add: step eager_step_def pos_def[symmetric] nth_append last unwrap_def at_def)
    next
      case Panic
      with gap_sound(1)[OF e less_imp_le[OF pos], of c] show ?thesis by simp
    qed
  qed
qed

lemma eager_sound:
  assumes "length buf < 2 ^ 32" "ordered_index buf ks"
  shows "sound_result (length buf) (validate_eager_values_with_offset tgt buf (ks @ [U32_MAX]) m)"
proof -
  have "represents stack_init [Top]" using stack_init_frames by (simp add: represents_def frames_ok_def is_root_def)
  then show ?thesis
    unfolding validate_eager_values_with_offset_def using assms by (intro eager_loop_sound) auto
qed

section \<open>Parsing\<close>

lemma parse_sound:
  assumes len: "length buf < 2 ^ 32" and safe: "is_eager opts \<or> \<not> debug_build tgt"
  shows "parse_with_options_detailed (scan memchr2_ref tgt) tgt buf opts \<noteq> Panic"
    "parse_with_options_detailed (scan memchr2_ref tgt) tgt buf opts = Err e \<Longrightarrow>
      pe_code e \<in> parse_codes \<and> (pe_offset e \<le> length buf \<or> pe_offset e = QJSON_NO_OFFSET)"
proof -
  define P where "P r \<longleftrightarrow> (case r of Ok (d :: document) \<Rightarrow> True
    | Err (e :: parse_error) \<Rightarrow> pe_code e \<in> parse_codes \<and> (pe_offset e \<le> length buf \<or> pe_offset e = QJSON_NO_OFFSET) | Panic \<Rightarrow> False)" for r
  have P: "sound_result (length buf) r \<Longrightarrow> P r" for r by (cases r) (auto simp: P_def error_within_def)
  obtain r idxs where scan: "scan memchr2_ref tgt buf [] = (r, idxs)" by force
  note ord = scan_orderly[OF len, of tgt, unfolded scan orderly_def, simplified]
  define m where "m = effective_max_depth opts"
  have passes: "sound_result (length buf) (validate_eager_values_with_offset tgt buf (idxs @ [U32_MAX]) m)"
    "sound_result (length buf) (validate_trailing_with_offset buf (idxs @ [U32_MAX]))"
    "\<not> debug_build tgt \<Longrightarrow> sound_result (length buf) (validate_depth_with_offset tgt buf (idxs @ [U32_MAX]) m)"
    if "ordered_index buf idxs"
    using that eager_sound[OF len that] trailing_sound[of "idxs @ [U32_MAX]" buf] depth_sound[of tgt "idxs @ [U32_MAX]" buf]
    by (auto simp: ordered_index_def validate_depth_with_offset_def)
  have "P (parse_with_options_detailed (scan memchr2_ref tgt) tgt buf opts)"
  proof (cases "list_all is_ws buf")
    case True
    then show ?thesis by (simp add: parse_with_options_detailed_def P_def parse_error_no_offset_def parse_error_new_def)
  next
    case nws: False
    note def = parse_with_options_detailed_def[of "scan memchr2_ref tgt" tgt buf opts, folded m_def]
    show ?thesis
    proof (cases r)
      case (Ok u)
      with ord have o: "ordered_index buf idxs" by simp
      show ?thesis
        using passes[OF o] safe nws unfolding def
        by (intro P) (auto simp: scan Ok Let_def intro!: sound_then)
    next
      case (Err p)
      with ord have p: "p \<le> length buf" "p = length buf \<Longrightarrow> ordered_index buf idxs" by auto
      show ?thesis
      proof (cases "p = length buf \<and> \<not> scan_error_ended_inside_string buf idxs")
        case True
        with passes[OF p(2)] safe nws show ?thesis
          unfolding def by (intro P) (auto simp: scan Err Let_def intro!: sound_then split: outcome.split)
      next
        case False
        with nws p(1) show ?thesis unfolding def by (intro P) (auto simp: scan Err)
      qed
    qed (use ord in simp)
  qed
  then show "parse_with_options_detailed (scan memchr2_ref tgt) tgt buf opts \<noteq> Panic"
    "parse_with_options_detailed (scan memchr2_ref tgt) tgt buf opts = Err e \<Longrightarrow>
      pe_code e \<in> parse_codes \<and> (pe_offset e \<le> length buf \<or> pe_offset e = QJSON_NO_OFFSET)"
    by (auto simp: P_def split: outcome.splits)
qed

text \<open>
  Parsing returns on every buffer in eager mode and in release builds; where a debug build checks the
  depth counter, on the buffers without a backslash outside strings.
\<close>

lemma parse_returns:
  assumes len: "length buf < 2 ^ 32" and safe: "is_eager opts \<or> \<not> debug_build tgt \<or> no_stray buf"
  shows "parse_with_options_detailed (scan memchr2_ref tgt) tgt buf opts \<noteq> Panic"
    "parse_with_options_detailed (scan memchr2_ref tgt) tgt buf opts = Err e \<Longrightarrow>
      pe_code e \<in> parse_codes \<and> (pe_offset e \<le> length buf \<or> pe_offset e = QJSON_NO_OFFSET)"
  using safe parse_sound[OF len, where opts = opts and tgt = tgt] dispatch.parse_no_panic[OF _ len, of tgt tgt opts]
    dispatch.parse_errors[OF _ len, of tgt tgt opts] by blast+

section \<open>A backslash before a quote, outside strings\<close>

definition vector_build :: "target \<Rightarrow> bool" where
  "vector_build tgt \<longleftrightarrow> x86_64_avx2_build tgt \<and> cpu_avx2 tgt \<and> cpu_pclmulqdq tgt \<or> aarch64_build tgt \<and> cpu_aes tgt"

text \<open>Without such a backslash, and with the scalar scanner in any case, lazy parsing is exact.\<close>

lemma lazy_accepts:
  assumes len: "length buf < 2 ^ 32" and safe: "no_stray buf \<or> \<not> vector_build tgt" and lazy: "\<not> is_eager opts"
  shows "parse_with_options_detailed (scan memchr2_ref tgt) tgt buf opts = Ok d \<longleftrightarrow>
    \<not> list_all is_ws buf \<and> well_bracketed buf \<and> max_nesting 0 (tokens buf) \<le> unat (effective_max_depth opts) \<and>
    d = document_new buf (offsets (tokens buf) @ [U32_MAX]) False"
proof (cases "no_stray buf")
  case True
  show ?thesis by (rule dispatch.parse_lazy[OF True len lazy])
next
  case False
  with safe have "scan memchr2_ref tgt = scalar_scan" by (auto simp: fun_eq_iff scan_def vector_build_def)
  with scalar.parse_lazy[OF _ len lazy, of tgt d] show ?thesis by simp
qed

lemma unquoted_lex:
  assumes "list_all (\<lambda>b. b \<noteq> 34 \<and> b \<noteq> 92) xs"
  shows "lex_run Outside xs = Outside" "simd_run (False, False) xs = (False, False)"
    "simd_tokens (False, False) n xs = lex_tokens Outside n xs" "(p, b) \<in> set (lex_tokens Outside n xs) \<Longrightarrow> b \<in> set xs"
proof -
  have "clean Outside xs \<and> lex_run Outside xs = Outside" using assms by (induction xs) auto
  with clean_simd[of Outside xs n] show "lex_run Outside xs = Outside" "simd_run (False, False) xs = (False, False)"
    "simd_tokens (False, False) n xs = lex_tokens Outside n xs" by simp_all
  show "b \<in> set xs" if "(p, b) \<in> set (lex_tokens Outside n xs)"
    using lex_tokens_range[OF that] lex_tokens_nth[OF that] by (auto intro!: nth_mem)
qed

lemma brackets_in_string:
  assumes "\<forall>x \<in> set idxs. unat x < length buf \<and> buf ! unat x \<noteq> 34"
  shows "validate_brackets_loop buf [] True idxs = Ok ()"
  using assms by (induction idxs) (auto simp: at_def)

lemma escaped_rest:
  assumes len: "length buf < 2 ^ 32" and buf: "buf = pre @ 92 # 34 # rest"
    and tok: "(p, b) \<in> set (lex_tokens Outside (length pre + 2) rest)"
  shows "p < length buf \<and> buf ! p = b \<and> unat (of_nat p :: u32) = p"
proof -
  from lex_tokens_range[OF tok] lex_tokens_nth[OF tok] have p: "length pre + 2 \<le> p" "p < length buf" "rest ! (p - (length pre + 2)) = b"
    by (auto simp: buf)
  then have "buf ! p = b" by (simp add: buf nth_append nth_Cons')
  then show ?thesis using p(2) offset_unat(1)[OF len p(2)] by simp
qed

text \<open>The index the vectorised scanners build: the quote does not open a string.\<close>

lemma vector_scan_escaped:
  assumes len: "length buf < 2 ^ 32" and buf: "buf = pre @ 92 # 34 # rest" and vec: "vector_build tgt"
    and pre: "list_all (\<lambda>b. b \<noteq> 34 \<and> b \<noteq> 92 \<and> \<not> is_structural b) pre"
    and rest: "list_all (\<lambda>b. b \<noteq> 34 \<and> b \<noteq> 92) rest" "63 \<le> length rest"
  defines "idxs \<equiv> offsets ((Suc (length pre), 34) # lex_tokens Outside (length pre + 2) rest)"
  shows "scan memchr2_ref tgt buf [] = (Ok (), idxs)"
proof -
  have pre': "list_all (\<lambda>b. b \<noteq> 34 \<and> b \<noteq> 92) pre" using pre by (auto simp: list_all_iff)
  note plain = unquoted_lex[OF pre'] and rest' = unquoted_lex[OF rest(1)]
  have no_tokens: "lex_tokens Outside n pre = []" for n using pre by (induction pre arbitrary: n) auto
  note in_rest = escaped_rest[OF len buf]
  have no_quote: "b \<noteq> 34" if "(p, b) \<in> set (lex_tokens Outside (length pre + 2) rest)" for p b
    using rest(1) rest'(4)[OF that] by (auto simp: list_all_iff)
  have quote: "Suc (length pre) < length buf" "buf ! Suc (length pre) = 34" by (simp_all add: buf nth_append)
  then have vb: "validate_brackets buf idxs = Ok ()"
    using in_rest no_quote offset_unat(1)[OF len quote(1)]
    by (fastforce simp: validate_brackets_def idxs_def at_def offsets_def simp del: of_nat_Suc intro!: brackets_in_string)
  have tail: "scan_tail buf r = (Ok (), idxs)" if r: "loop_result buf 0 False False [] r" for r
  proof -
    from r obtain j s' e' where r: "r = (j, of_bool e', of_bool s', offsets (simd_tokens (False, False) 0 (take j buf)))"
      "j \<le> length buf" "length buf < j + 64" "simd_run (False, False) (take j buf) = (s', e')"
      by (auto simp: loop_result_def slice_def)
    define xs where "xs = take (j - (length pre + 2)) rest"
    have j: "length pre + 2 \<le> j" using r(3) rest(2) by (simp add: buf)
    then have tk: "take j buf = pre @ 92 # 34 # xs" by (simp add: buf xs_def take_Cons' numeral_2_eq_2)
    have dr: "drop j buf = drop (j - (length pre + 2)) rest" using j by (simp add: buf drop_Cons' numeral_2_eq_2)
    have xs: "list_all (\<lambda>b. b \<noteq> 34 \<and> b \<noteq> 92) xs" using rest(1) by (auto simp: xs_def list_all_iff dest: in_set_takeD)
    have dr': "list_all (\<lambda>b. b \<noteq> 34 \<and> b \<noteq> 92) (drop j buf)" using rest(1) by (auto simp: dr list_all_iff dest: in_set_dropD)
    have run: "\<not> s'" "\<not> e'" using r(4) by (simp_all add: tk plain(2) unquoted_lex(2)[OF xs])
    have toks: "simd_tokens (False, False) 0 (take j buf) = (Suc (length pre), 34) # lex_tokens Outside (length pre + 2) xs"
      by (simp add: tk simd_tokens_append plain(2,3) no_tokens unquoted_lex(3)[OF xs] is_structural_def)
    have len_xs: "length pre + 2 + length xs = j" using j r(2) by (simp add: xs_def buf)
    have "lex_tokens Outside (length pre + 2) rest = lex_tokens Outside (length pre + 2) xs @ lex_tokens Outside j (drop j buf)"
    proof -
      have "rest = xs @ drop j buf" by (simp add: dr xs_def)
      with lex_tokens_append[of Outside "length pre + 2" xs "drop j buf"] unquoted_lex(1)[OF xs] len_xs show ?thesis by metis
    qed
    then have "idxs = offsets (simd_tokens (False, False) 0 (take j buf)) @ offsets (lex_tokens Outside j (drop j buf))"
      by (simp add: idxs_def toks)
    then show ?thesis
      using vb r(2) run by (auto simp: scan_tail_def r(1) scan_emit_resume_eq unquoted_lex(1)[OF dr'] Let_def)
  qed
  have ref: "finds_first memchr2_ref" by (simp add: finds_first_ref)
  have "buf \<noteq> []" by (simp add: buf)
  with vec tail[OF scan_avx2_loop_ok[OF ref, of 0 buf False False "[]", simplified]]
    tail[OF scan_neon_loop_ok[OF ref, of 0 buf False False "[]", simplified]] show ?thesis
    by (auto simp: scan_def vector_build_def avx2_scan_def neon_scan_def)
qed

definition has_closer :: "(nat \<times> u8) list \<Rightarrow> bool" where
  "has_closer ts \<longleftrightarrow> list_ex (\<lambda>t. snd t = 125 \<or> snd t = 93) ts"

lemma depth_closers:
  assumes "\<forall>(p, b) \<in> set ts. p < length buf \<and> buf ! p = b \<and> b \<noteq> 123 \<and> b \<noteq> 91" "length buf < 2 ^ 32"
  shows "\<not> debug_build tgt \<Longrightarrow> validate_depth_loop tgt buf m (offsets ts @ [U32_MAX]) depth = Ok ()"
    "debug_build tgt \<Longrightarrow> validate_depth_loop tgt buf m (offsets ts @ [U32_MAX]) 0 = (if has_closer ts then Panic else Ok ())"
proof -
  define good where "good t \<longleftrightarrow> fst t < length buf \<and> buf ! fst t = snd t \<and> snd t \<noteq> 123 \<and> snd t \<noteq> 91 \<and>
    unat (of_nat (fst t) :: u32) = fst t \<and> (of_nat (fst t) :: u32) \<noteq> U32_MAX" for t
  have good: "list_all good ts"
    using assms(1) offset_unat[OF assms(2)] by (fastforce simp: list_all_iff good_def)
  show "\<not> debug_build tgt \<Longrightarrow> validate_depth_loop tgt buf m (offsets ts @ [U32_MAX]) depth = Ok ()"
    using good by (induction ts arbitrary: depth) (auto simp: at_def sub_u32_def good_def)
  show "debug_build tgt \<Longrightarrow> validate_depth_loop tgt buf m (offsets ts @ [U32_MAX]) 0 = (if has_closer ts then Panic else Ok ())"
    using good by (induction ts) (auto simp: at_def sub_u32_def has_closer_def good_def)
qed

lemma has_closer_rest:
  "list_all (\<lambda>b. b \<noteq> 34 \<and> b \<noteq> 92) xs \<Longrightarrow> has_closer (lex_tokens Outside n xs) \<longleftrightarrow> 125 \<in> set xs \<or> 93 \<in> set xs"
  by (induction xs arbitrary: n) (auto simp: has_closer_def is_structural_def)

text \<open>
  What lazy parsing makes of it: the vectorised builds accept, or panic on an unpaired closing bracket
  if arithmetic is checked; the scalar build finds the string unclosed. Eager parsing rejects.
\<close>

lemma stray_parse:
  assumes len: "length buf < 2 ^ 32" and buf: "buf = pre @ 92 # 34 # rest"
    and pre: "list_all (\<lambda>b. b \<noteq> 34 \<and> b \<noteq> 92 \<and> \<not> is_structural b) pre"
    and rest: "list_all (\<lambda>b. b \<noteq> 34 \<and> b \<noteq> 92 \<and> b \<noteq> 123 \<and> b \<noteq> 91) rest" "63 \<le> length rest"
  defines "parse \<equiv> \<lambda>tgt opts. parse_with_options_detailed (scan memchr2_ref tgt) tgt buf opts"
  shows "vector_build tgt \<Longrightarrow> \<not> is_eager opts \<Longrightarrow> parse tgt opts =
      (if debug_build tgt \<and> (125 \<in> set rest \<or> 93 \<in> set rest) then Panic
       else Ok (document_new buf (offsets ((Suc (length pre), 34) # lex_tokens Outside (length pre + 2) rest) @ [U32_MAX]) False))"
    "\<not> vector_build tgt \<Longrightarrow> parse tgt opts = Err (parse_error_new QJSON_PARSE_ERROR (length buf))"
    "is_eager opts \<Longrightarrow> \<exists>e. parse tgt opts = Err e"
proof -
  have rest': "list_all (\<lambda>b. b \<noteq> 34 \<and> b \<noteq> 92) rest" using rest(1) by (auto simp: list_all_iff)
  have pre': "list_all (\<lambda>b. b \<noteq> 34 \<and> b \<noteq> 92) pre" using pre by (auto simp: list_all_iff)
  note plain = unquoted_lex[OF pre']
  have no_tokens: "lex_tokens Outside n pre = []" for n using pre by (induction pre arbitrary: n) auto
  have nws: "\<not> list_all is_ws buf" by (simp add: buf is_ws_def)
  let ?ts = "(Suc (length pre), 34) # lex_tokens Outside (length pre + 2) rest"
  have quote: "Suc (length pre) < length buf" "buf ! Suc (length pre) = 34" by (simp_all add: buf nth_append)
  have toks: "\<forall>(p, b) \<in> set ?ts. p < length buf \<and> buf ! p = b \<and> b \<noteq> 123 \<and> b \<noteq> 91"
    using escaped_rest[OF len buf] unquoted_lex(4)[OF rest'] rest(1) quote by (fastforce simp: list_all_iff)
  have hc: "has_closer ?ts \<longleftrightarrow> 125 \<in> set rest \<or> 93 \<in> set rest"
    using has_closer_rest[OF rest'] by (simp add: has_closer_def)
  show "parse tgt opts =
      (if debug_build tgt \<and> (125 \<in> set rest \<or> 93 \<in> set rest) then Panic
       else Ok (document_new buf (offsets ?ts @ [U32_MAX]) False))" if "vector_build tgt" "\<not> is_eager opts"
    using nws vector_scan_escaped[OF len buf that(1) pre rest' rest(2)] depth_closers[OF toks len, of tgt "effective_max_depth opts"] hc that(2)
    unfolding parse_def parse_with_options_detailed_def validate_depth_with_offset_def
    by (cases "debug_build tgt") (simp_all add: Let_def del: offsets_simps)
  have inside: "lex_run Inside xs = Inside" "lex_tokens Inside n xs = []" if "list_all (\<lambda>b. b \<noteq> 34 \<and> b \<noteq> 92) xs" for n xs
    using that by (induction xs arbitrary: n) auto
  have lex: "lex_run Outside buf = Inside" "tokens buf = [(Suc (length pre), 34)]"
    using inside[OF rest'] by (simp_all add: buf lex_run_append lex_tokens_append tokens_def plain(1) no_tokens is_structural_def)
  show "parse tgt opts = Err (parse_error_new QJSON_PARSE_ERROR (length buf))" if "\<not> vector_build tgt"
  proof -
    have "scan memchr2_ref tgt buf [] = scalar_scan buf []" using that by (auto simp: scan_def vector_build_def)
    also have "\<dots> = (Err (length buf), offsets (tokens buf))"
      using lex by (simp add: scalar_scan_def scan_and_validate_eq fused_result_def tokens_def)
    finally show ?thesis
      using nws scan_error_ended_inside_string_tokens[OF len] lex(1)
      unfolding parse_def parse_with_options_detailed_def by (simp add: Let_def)
  qed
  show "\<exists>e. parse tgt opts = Err e" if "is_eager opts"
  proof (cases "parse tgt opts")
    case (Ok d)
    with parse_eager_scan[OF len that, of tgt d] have "json_text (unat (effective_max_depth opts)) buf" by (simp add: parse_def)
    then have "lex_run Outside buf = Outside" using json_text_well_bracketed by (auto simp: well_bracketed_def)
    with lex(1) show ?thesis by simp
  qed (use parse_returns(1)[OF len, of opts tgt] that in \<open>simp_all add: parse_def\<close>)
qed

section \<open>The contract of parsing\<close>

text \<open>
  What the clients of the library rely on: eager parsing of any bytes returns, and gives a document
  exactly for JSON; lazy parsing of a JSON text returns and gives the same document unvalidated.
\<close>

locale json_parser =
  fixes scan :: scanner and tgt :: target
  assumes returns: "length buf < 2 ^ 32 \<Longrightarrow> is_eager opts \<or> json_text n buf \<Longrightarrow>
      parse_with_options_detailed scan tgt buf opts \<noteq> Panic"
    and codes: "length buf < 2 ^ 32 \<Longrightarrow> is_eager opts \<or> json_text n buf \<Longrightarrow>
      parse_with_options_detailed scan tgt buf opts = Err e \<Longrightarrow> pe_code e \<in> parse_codes"
    and document: "length buf < 2 ^ 32 \<Longrightarrow> is_eager opts \<or> json_text n buf \<Longrightarrow>
      parse_with_options_detailed scan tgt buf opts = Ok d \<Longrightarrow>
      (\<exists>m. json_text m buf) \<and> d = document_new buf (offsets (tokens buf) @ [U32_MAX]) (is_eager opts)"

interpretation parser: json_parser "scan memchr2_ref tgt" tgt for tgt
proof
  fix buf opts n e d
  assume len: "length buf < 2 ^ 32" and adm: "is_eager opts \<or> json_text n buf"
  then have safe: "is_eager opts \<or> \<not> debug_build tgt \<or> no_stray buf" using json_text_no_stray by blast
  show "parse_with_options_detailed (scan memchr2_ref tgt) tgt buf opts \<noteq> Panic" by (rule parse_returns(1)[OF len safe])
  show "pe_code e \<in> parse_codes" if "parse_with_options_detailed (scan memchr2_ref tgt) tgt buf opts = Err e"
    using parse_returns(2)[OF len safe that] by blast
  show "(\<exists>m. json_text m buf) \<and> d = document_new buf (offsets (tokens buf) @ [U32_MAX]) (is_eager opts)"
    if "parse_with_options_detailed (scan memchr2_ref tgt) tgt buf opts = Ok d"
  proof (cases "is_eager opts")
    case True
    with parse_eager_scan[OF len True, of tgt d] that show ?thesis by auto
  next
    case False
    with adm have json: "json_text n buf" by blast
    with dispatch.parse_lazy[OF json_text_no_stray[OF json] len False, of tgt tgt d] that False show ?thesis by auto
  qed
qed

end
