(* ===== verification/Cursor.thy ===== *)
theory Cursor
  imports Document Path
begin

text \<open>
  \<open>src/cursor.rs\<close> and the container operations of \<open>src/doc.rs\<close>: resolving a path against the
  structural index, with the skip cache, and reading the children of a container by number.

  A position of the structural index is a \<open>u32\<close> in the code and a \<^typ>\<open>nat\<close> here, except in the
  skip cache, which stores and is keyed by 32-bit words. \<open>Navigate.thy\<close> shows that every position
  the cache receives for a JSON text fits, so storing it loses nothing.
\<close>

section \<open>Cursors\<close>

definition cursor_at :: "nat \<Rightarrow> nat \<Rightarrow> cursor" where
  "cursor_at s e = \<lparr>idx_start = s, idx_end = e\<rparr>"

text \<open>\<open>Cursor::root\<close>; the document has at least the sentinel in its index.\<close>

definition cursor_root :: "document \<Rightarrow> cursor" where
  "cursor_root d =
     (if slice_get (indices d) 0 = Some U32_MAX then cursor_at 0 1
      else
        (let n = length (indices d) in
         if n = 1 then cursor_at 0 1 else cursor_at 0 (n - 2)))"

text \<open>\<open>container_opener_byte\<close>.\<close>

definition container_opener_byte :: "document \<Rightarrow> cursor \<Rightarrow> u8 option" where
  "container_opener_byte d cur =
     (if idx_start cur \<ge> length (indices d) then None
      else
        (case slice_get (doc_buf d) (unat (indices d ! idx_start cur)) of
           None \<Rightarrow> None
         | Some b \<Rightarrow> if b = 123 \<or> b = 91 then Some b else None))"

section \<open>The span of a value\<close>

text \<open>The loop that counts brackets up to the matching closer.\<close>

function span_loop :: "document \<Rightarrow> u8 \<Rightarrow> int \<Rightarrow> nat \<Rightarrow> (nat \<times> nat, qjson_err) outcome" where
  "span_loop d want_close depth k =
     (if k < length (indices d) then
        (let cb_pos = unat (indices d ! k) in
         if cb_pos \<ge> length (doc_buf d) then Err QJSON_PARSE_ERROR
         else
           (let cb = doc_buf d ! cb_pos in
            if cb = 123 \<or> cb = 91 then span_loop d want_close (depth + 1) (k + 1)
            else if cb = 125 \<or> cb = 93 then
              (if depth - 1 = 0 then
                 (if cb \<noteq> want_close then Err QJSON_PARSE_ERROR else Ok (k, k + 1))
               else span_loop d want_close (depth - 1) (k + 1))
            else span_loop d want_close depth (k + 1)))
      else Err QJSON_PARSE_ERROR)"
  by pat_completeness auto
termination
  by (relation "measure (\<lambda>(d, w, depth, k). length (indices d) - k)") auto

declare span_loop.simps [simp del]

text \<open>The result is \<open>(cursor_end, skip_end)\<close>.\<close>

definition find_value_span :: "document \<Rightarrow> nat \<Rightarrow> (nat \<times> nat, qjson_err) outcome" where
  "find_value_span d start =
     and_then (at (indices d) start) (\<lambda>pos.
     and_then (ok_or QJSON_PARSE_ERROR (slice_get (doc_buf d) (unat pos))) (\<lambda>b.
       if b = 123 \<or> b = 91 then span_loop d (if b = 123 then 125 else 93) 1 (start + 1)
       else if b = 34 then Ok (start + 1, start + 2)
       else Ok (start + 1, start)))"

lemma span_loop_progress: "span_loop d w depth k = Ok (ce, se) \<Longrightarrow> k < se"
proof (induction d w depth k rule: span_loop.induct)
  case (1 d w depth k)
  then show ?case
    by (auto simp: span_loop.simps[of d w depth k] Let_def split: if_splits dest: Suc_lessD)
qed

lemma find_value_span_progress: "find_value_span d start = Ok (ce, se) \<Longrightarrow> start \<le> se"
  by (auto simp: find_value_span_def split: if_splits dest: span_loop_progress)

section \<open>Walking the children\<close>

text \<open>\<open>doc.buf.get(key_open) != Some('"')\<close> is an error on the cold path only.\<close>

definition key_bytes :: "document \<Rightarrow> bool \<Rightarrow> nat \<Rightarrow> (bytes, qjson_err) outcome" where
  "key_bytes d checked i =
     and_then (at (indices d) i) (\<lambda>key_open.
     and_then (at (indices d) (i + 1)) (\<lambda>key_close.
       if checked \<and> slice_get (doc_buf d) (unat key_open) \<noteq> Some 34 then Err QJSON_PARSE_ERROR
       else slice_at (doc_buf d) (unat key_open + 1) (unat key_close)))"

definition child_matches ::
  "document \<Rightarrow> bool \<Rightarrow> path_seg \<Rightarrow> nat \<Rightarrow> u32 \<Rightarrow> (bool, qjson_err) outcome" where
  "child_matches d checked seg i n =
     (case seg of
        Key want \<Rightarrow> and_then (key_bytes d checked i) (\<lambda>k. Ok (k = want))
      | Idx want \<Rightarrow> Ok (n = want))"

definition is_key :: "path_seg \<Rightarrow> bool" where
  "is_key seg = (case seg of Key _ \<Rightarrow> True | Idx _ \<Rightarrow> False)"

function walk_loop ::
  "document \<Rightarrow> path_seg \<Rightarrow> nat \<Rightarrow> nat \<Rightarrow> u32 \<Rightarrow> nat list \<Rightarrow> nat list \<Rightarrow> cursor option \<Rightarrow>
     (nat list \<times> nat list \<times> cursor option, qjson_err) outcome" where
  "walk_loop d seg end_idx i arr_idx starts ends result =
     (if i \<le> end_idx then
        (let value_idx_start = (if is_key seg then i + 3 else i) in
         and_then (find_value_span d value_idx_start) (\<lambda>(cursor_end, skip_end).
         and_then
           (if result = None then
              and_then (child_matches d True seg i arr_idx) (\<lambda>matched.
                Ok (if matched then Some (cursor_at value_idx_start cursor_end) else None))
            else Ok result) (\<lambda>result.
         and_then (at (indices d) skip_end) (\<lambda>after_pos.
           if unat after_pos \<ge> length (doc_buf d) then Ok (starts @ [i], ends @ [cursor_end], result)
           else
             (let c = doc_buf d ! unat after_pos in
              if c = 44 then
                walk_loop d seg end_idx (skip_end + 1) (arr_idx + 1) (starts @ [i]) (ends @ [cursor_end]) result
              else if c = 125 \<or> c = 93 then Ok (starts @ [i], ends @ [cursor_end], result)
              else Err QJSON_PARSE_ERROR)))))
      else Ok (starts, ends, result))"
  by pat_completeness auto
termination
  by (relation "measure (\<lambda>(d, seg, end_idx, i, _). Suc end_idx - i)")
    (auto dest!: find_value_span_progress split: if_splits)

declare walk_loop.simps [simp del]

fun resolve_in_known_children_loop ::
  "document \<Rightarrow> path_seg \<Rightarrow> nat \<Rightarrow> (nat \<times> nat) list \<Rightarrow> (cursor, qjson_err) outcome" where
  "resolve_in_known_children_loop d seg k [] = Err QJSON_NOT_FOUND"
| "resolve_in_known_children_loop d seg k ((i, cursor_end) # children) =
     and_then (child_matches d False seg i (of_nat k)) (\<lambda>matched.
       if matched then Ok (cursor_at (if is_key seg then i + 3 else i) cursor_end)
       else resolve_in_known_children_loop d seg (k + 1) children)"

definition resolve_in_known_children ::
  "document \<Rightarrow> nat list \<Rightarrow> nat list \<Rightarrow> path_seg \<Rightarrow> (cursor, qjson_err) outcome" where
  "resolve_in_known_children d starts ends seg =
     resolve_in_known_children_loop d seg 0 (zip starts ends)"

text \<open>\<open>while p < closer && is_ws(buf[p])\<close> from the opener reaches the closer: no child.\<close>

definition empty_container :: "document \<Rightarrow> cursor \<Rightarrow> (bool, qjson_err) outcome" where
  "empty_container d cur =
     and_then (at (indices d) (idx_start cur)) (\<lambda>opener.
     and_then (at (indices d) (idx_end cur)) (\<lambda>closer.
     and_then (skip_ws_to (doc_buf d) (unat opener + 1) (unat closer)) (\<lambda>p.
       Ok (p = unat closer))))"

text \<open>A result that may come with a changed document.\<close>

type_synonym 'a with_doc = "('a, qjson_err) outcome \<times> document"

definition store_children :: "document \<Rightarrow> nat \<Rightarrow> nat list \<Rightarrow> nat list \<Rightarrow> cursor option \<Rightarrow> cursor with_doc" where
  "store_children d opener starts ends result =
     (case cache_insert (skip d) (of_nat opener) (map of_nat starts) (map of_nat ends) of
        Ok cache \<Rightarrow>
          (case result of Some c \<Rightarrow> Ok c | None \<Rightarrow> Err QJSON_NOT_FOUND, d\<lparr>skip := cache\<rparr>)
      | Err e \<Rightarrow> (Err e, d)
      | Panic \<Rightarrow> (Panic, d))"

definition walk_children :: "document \<Rightarrow> cursor \<Rightarrow> path_seg \<Rightarrow> cursor with_doc" where
  "walk_children d cur seg =
     (case cache_get (skip d) (of_nat (idx_start cur)) of
        Some slot_n \<Rightarrow>
          (and_then (cache_slot (skip d) slot_n) (\<lambda>slot.
             resolve_in_known_children d (map unat (child_starts slot)) (map unat (child_ends slot)) seg), d)
      | None \<Rightarrow>
          (case empty_container d cur of
             Ok True \<Rightarrow> store_children d (idx_start cur) [] [] None
           | Ok False \<Rightarrow>
               (case walk_loop d seg (idx_end cur) (idx_start cur + 1) 0 [] [] None of
                  Ok (starts, ends, result) \<Rightarrow> store_children d (idx_start cur) starts ends result
                | Err e \<Rightarrow> (Err e, d)
                | Panic \<Rightarrow> (Panic, d))
           | Err e \<Rightarrow> (Err e, d)
           | Panic \<Rightarrow> (Panic, d)))"

definition step :: "document \<Rightarrow> cursor \<Rightarrow> path_seg \<Rightarrow> cursor with_doc" where
  "step d cur seg =
     (case container_opener_byte d cur of
        None \<Rightarrow> (Err QJSON_TYPE_MISMATCH, d)
      | Some opener \<Rightarrow>
          if is_key seg \<and> opener = 123 \<or> \<not> is_key seg \<and> opener = 91 then walk_children d cur seg
          else (Err QJSON_TYPE_MISMATCH, d))"

text \<open>\<open>Cursor::resolve\<close>: the iterator is advanced one segment at a time.\<close>

function resolve :: "document \<Rightarrow> cursor \<Rightarrow> bytes \<Rightarrow> cursor with_doc" where
  "resolve d cur path =
     (case path_next path of
        (None, _) \<Rightarrow> (Ok cur, d)
      | (Some (Ok seg), rest) \<Rightarrow>
          (case step d cur seg of
             (Ok cur, d) \<Rightarrow> resolve d cur rest
           | (Err e, d) \<Rightarrow> (Err e, d)
           | (Panic, d) \<Rightarrow> (Panic, d))
      | (Some (Err e), _) \<Rightarrow> (Err e, d)
      | (Some Panic, _) \<Rightarrow> (Panic, d))"
  by pat_completeness auto
termination
  by (relation "measure (\<lambda>(d, cur, path). length path)") (auto dest: path_next_progress[OF sym])

declare resolve.simps [simp del]

definition resolve_single_key :: "document \<Rightarrow> cursor \<Rightarrow> bytes \<Rightarrow> cursor with_doc" where
  "resolve_single_key d cur key = step d cur (Key key)"

definition resolve_single_idx :: "document \<Rightarrow> cursor \<Rightarrow> u32 \<Rightarrow> cursor with_doc" where
  "resolve_single_idx d cur idx = step d cur (Idx idx)"

section \<open>Counting and numbering children\<close>

text \<open>The loop of \<open>cursor_len\<close>. The end of the container bounds it only after a comma.\<close>

function len_loop :: "document \<Rightarrow> bool \<Rightarrow> nat \<Rightarrow> nat \<Rightarrow> nat \<Rightarrow> (nat, qjson_err) outcome" where
  "len_loop d is_obj end_idx count i =
     (let count = count + 1;
          value_idx_start = (if is_obj then i + 3 else i) in
      and_then (find_value_span d value_idx_start) (\<lambda>(cursor_end, skip_end).
      and_then (at (indices d) skip_end) (\<lambda>after_pos.
        if unat after_pos \<ge> length (doc_buf d) then Err QJSON_PARSE_ERROR
        else
          (let c = doc_buf d ! unat after_pos in
           if c = 44 then
             (if skip_end + 1 > end_idx then Err QJSON_PARSE_ERROR
              else len_loop d is_obj end_idx count (skip_end + 1))
           else if c = 125 \<or> c = 93 then Ok count
           else Err QJSON_PARSE_ERROR))))"
  by pat_completeness auto
termination
  by (relation "measure (\<lambda>(d, is_obj, end_idx, count, i). Suc end_idx - i)")
    (auto dest!: find_value_span_progress split: if_splits)

declare len_loop.simps [simp del]

definition cursor_len :: "document \<Rightarrow> cursor \<Rightarrow> (nat, qjson_err) outcome" where
  "cursor_len d cur =
     (if is_root_scalar_cursor d cur then Err QJSON_TYPE_MISMATCH
      else
        and_then (at (indices d) (idx_start cur)) (\<lambda>pos.
        and_then (ok_or QJSON_PARSE_ERROR (slice_get (doc_buf d) (unat pos))) (\<lambda>b.
          if b \<noteq> 123 \<and> b \<noteq> 91 then Err QJSON_TYPE_MISMATCH
          else and_then (empty_container d cur) (\<lambda>empty.
            if empty then Ok 0
            else len_loop d (b = 123) (idx_end cur) 0 (idx_start cur + 1)))))"

function entry_loop ::
  "document \<Rightarrow> nat \<Rightarrow> nat \<Rightarrow> nat \<Rightarrow> nat \<Rightarrow> (nat \<times> cursor, qjson_err) outcome" where
  "entry_loop d end_idx n count i =
     (let value_idx_start = i + 3 in
      and_then (find_value_span d value_idx_start) (\<lambda>(cursor_end, skip_end).
        if count = n then Ok (i, cursor_at value_idx_start cursor_end)
        else and_then (at (indices d) skip_end) (\<lambda>after_pos.
          if unat after_pos \<ge> length (doc_buf d) then Err QJSON_PARSE_ERROR
          else
            (let c = doc_buf d ! unat after_pos in
             if c = 44 then
               (if skip_end + 1 > end_idx then Err QJSON_NOT_FOUND
                else entry_loop d end_idx n (count + 1) (skip_end + 1))
             else if c = 125 then Err QJSON_NOT_FOUND
             else Err QJSON_PARSE_ERROR))))"
  by pat_completeness auto
termination
  by (relation "measure (\<lambda>(d, end_idx, n, count, i). Suc end_idx - i)")
    (auto dest!: find_value_span_progress)

declare entry_loop.simps [simp del]

definition nth_object_entry :: "document \<Rightarrow> cursor \<Rightarrow> nat \<Rightarrow> (nat \<times> cursor, qjson_err) outcome" where
  "nth_object_entry d cur n =
     (if is_root_scalar_cursor d cur then Err QJSON_TYPE_MISMATCH
      else
        and_then (at (indices d) (idx_start cur)) (\<lambda>pos.
        and_then (ok_or QJSON_PARSE_ERROR (slice_get (doc_buf d) (unat pos))) (\<lambda>b.
          if b \<noteq> 123 then Err QJSON_TYPE_MISMATCH
          else and_then (empty_container d cur) (\<lambda>empty.
            if empty then Err QJSON_NOT_FOUND
            else entry_loop d (idx_end cur) n 0 (idx_start cur + 1)))))"

end
