(* ===== verification/Json_Tree.thy ===== *)
theory Json_Tree
  imports Json_Grammar Path
begin

text \<open>
  What a JSON text denotes: a tree whose leaves keep the bytes of scalars and the raw interior of
  strings. \<open>tree t v\<close> reads the grammar with its meaning; \<open>lookup\<close> is the abstract specification
  of path access.
\<close>

section \<open>Trees\<close>

datatype json = JScalar bytes | JString bytes | JArray "json list" | JObject "(bytes \<times> json) list"

inductive tree :: "bytes \<Rightarrow> json \<Rightarrow> bool"
  and elements :: "bytes \<Rightarrow> json list \<Rightarrow> bool"
  and members :: "bytes \<Rightarrow> (bytes \<times> json) list \<Rightarrow> bool" where
  tree_scalar: "json_scalar s \<Longrightarrow> tree s (JScalar s)"
| tree_string: "json_string (34 # body @ [34]) \<Longrightarrow> tree (34 # body @ [34]) (JString body)"
| tree_empty_array: "ws w \<Longrightarrow> tree (91 # w @ [93]) (JArray [])"
| tree_array: "elements es vs \<Longrightarrow> tree (91 # es @ [93]) (JArray vs)"
| tree_empty_object: "ws w \<Longrightarrow> tree (123 # w @ [125]) (JObject [])"
| tree_object: "members ms kvs \<Longrightarrow> tree (123 # ms @ [125]) (JObject kvs)"
| elements_one: "ws w \<Longrightarrow> tree t v \<Longrightarrow> ws w' \<Longrightarrow> elements (w @ t @ w') [v]"
| elements_more: "ws w \<Longrightarrow> tree t v \<Longrightarrow> ws w' \<Longrightarrow> elements es vs \<Longrightarrow>
     elements (w @ t @ w' @ 44 # es) (v # vs)"
| members_one: "ws w \<Longrightarrow> json_string (34 # k @ [34]) \<Longrightarrow> ws w' \<Longrightarrow> ws w'' \<Longrightarrow> tree t v \<Longrightarrow> ws w''' \<Longrightarrow>
     members (w @ (34 # k @ [34]) @ w' @ 58 # w'' @ t @ w''') [(k, v)]"
| members_more: "ws w \<Longrightarrow> json_string (34 # k @ [34]) \<Longrightarrow> ws w' \<Longrightarrow> ws w'' \<Longrightarrow> tree t v \<Longrightarrow> ws w''' \<Longrightarrow>
     members ms kvs \<Longrightarrow> members (w @ (34 # k @ [34]) @ w' @ 58 # w'' @ t @ w''' @ 44 # ms) ((k, v) # kvs)"

definition json_doc :: "bytes \<Rightarrow> json \<Rightarrow> bool" where
  "json_doc buf v \<longleftrightarrow> (\<exists>w t w'. buf = w @ t @ w' \<and> ws w \<and> tree t v \<and> ws w')"

text \<open>Levels of containers.\<close>

fun tree_depth :: "json \<Rightarrow> nat" where
  "tree_depth (JScalar s) = 0"
| "tree_depth (JString s) = 0"
| "tree_depth (JArray vs) = Suc (fold max (map tree_depth vs) 0)"
| "tree_depth (JObject kvs) = Suc (fold max (map (\<lambda>kv. tree_depth (snd kv)) kvs) 0)"

lemma fold_max_le: "fold max xs (m :: nat) \<le> d \<longleftrightarrow> m \<le> d \<and> (\<forall>x \<in> set xs. x \<le> d)"
  by (induction xs arbitrary: m) auto

section \<open>A text is grammatical iff it denotes a tree\<close>

lemma json_value_tree:
  "json_value d t \<Longrightarrow> \<exists>v. tree t v \<and> tree_depth v \<le> d"
  "json_elements d es \<Longrightarrow> \<exists>vs. elements es vs \<and> (\<forall>v \<in> set vs. tree_depth v \<le> d)"
  "json_members d ms \<Longrightarrow> \<exists>kvs. members ms kvs \<and> (\<forall>kv \<in> set kvs. tree_depth (snd kv) \<le> d)"
proof (induction rule: json_value_json_elements_json_members.inducts)
  case (jv_literal s d)
  then show ?case by (intro exI[of _ "JScalar s"]) (simp add: tree_scalar json_scalar_def)
next
  case (jv_number s d)
  then show ?case by (intro exI[of _ "JScalar s"]) (simp add: tree_scalar json_scalar_def)
next
  case (jv_string s d)
  then obtain body where "s = 34 # body @ [34]" by (auto simp: json_string_def)
  with jv_string show ?case by (intro exI[of _ "JString body"]) (simp add: tree_string)
next
  case (jv_empty_array w d)
  then show ?case by (intro exI[of _ "JArray []"]) (simp add: tree_empty_array)
next
  case (jv_array d es)
  then obtain vs where "elements es vs" "\<forall>v \<in> set vs. tree_depth v \<le> d" by blast
  then show ?case by (intro exI[of _ "JArray vs"]) (simp add: tree_array fold_max_le)
next
  case (jv_empty_object w d)
  then show ?case by (intro exI[of _ "JObject []"]) (simp add: tree_empty_object)
next
  case (jv_object d ms)
  then obtain kvs where "members ms kvs" "\<forall>kv \<in> set kvs. tree_depth (snd kv) \<le> d" by blast
  then show ?case by (intro exI[of _ "JObject kvs"]) (simp add: tree_object fold_max_le)
next
  case (je_one w d t w')
  then obtain v where "tree t v" "tree_depth v \<le> d" by blast
  with je_one show ?case by (intro exI[of _ "[v]"]) (simp add: elements_one)
next
  case (je_more w d t w' es)
  then obtain v vs where "tree t v" "tree_depth v \<le> d" "elements es vs" "\<forall>v \<in> set vs. tree_depth v \<le> d"
    by blast
  with je_more show ?case by (intro exI[of _ "v # vs"]) (simp add: elements_more)
next
  case (jm_one w k w' w'' d t w''')
  then obtain v where v: "tree t v" "tree_depth v \<le> d" by blast
  from jm_one obtain body where k: "k = 34 # body @ [34]" by (auto simp: json_string_def)
  with jm_one members_one[of w body w' w'' t v w'''] v show ?case
    by (intro exI[of _ "[(body, v)]"]) simp
next
  case (jm_more w k w' w'' d t w''' ms)
  then obtain v kvs where v: "tree t v" "tree_depth v \<le> d" "members ms kvs"
    "\<forall>kv \<in> set kvs. tree_depth (snd kv) \<le> d" by blast
  from jm_more obtain body where k: "k = 34 # body @ [34]" by (auto simp: json_string_def)
  with jm_more members_more[of w body w' w'' t v w''' ms kvs] v show ?case
    by (intro exI[of _ "(body, v) # kvs"]) simp
qed

lemma tree_json_value:
  "tree t v \<Longrightarrow> tree_depth v \<le> d \<Longrightarrow> json_value d t"
  "elements es vs \<Longrightarrow> \<forall>v \<in> set vs. tree_depth v \<le> d \<Longrightarrow> json_elements d es"
  "members ms kvs \<Longrightarrow> \<forall>kv \<in> set kvs. tree_depth (snd kv) \<le> d \<Longrightarrow> json_members d ms"
proof (induction arbitrary: d and d and d rule: tree_elements_members.inducts)
  case (tree_scalar s)
  then show ?case by (auto simp: json_scalar_def intro: jv_literal jv_number)
next
  case (tree_string body)
  then show ?case by (simp add: jv_string)
next
  case (tree_empty_array w)
  then show ?case by (cases d) (auto intro: jv_empty_array)
next
  case (tree_array es vs)
  then obtain e where e: "d = Suc e" by (cases d) auto
  with tree_array have "json_elements e es" by (simp add: fold_max_le)
  then show ?case by (simp add: e jv_array)
next
  case (tree_empty_object w)
  then show ?case by (cases d) (auto intro: jv_empty_object)
next
  case (tree_object ms kvs)
  then obtain e where e: "d = Suc e" by (cases d) auto
  with tree_object have "json_members e ms" by (simp add: fold_max_le)
  then show ?case by (simp add: e jv_object)
next
  case (elements_one w t v w')
  then show ?case by (simp add: je_one)
next
  case (elements_more w t v w' es vs)
  then show ?case by (simp add: je_more)
next
  case (members_one w k w' w'' t v w''')
  then show ?case using jm_one[of w "34 # k @ [34]" w' w'' d t w'''] by simp
next
  case (members_more w k w' w'' t v w''' ms kvs)
  then show ?case using jm_more[of w "34 # k @ [34]" w' w'' d t w''' ms] by simp
qed

lemma json_text_iff_tree: "json_text d buf \<longleftrightarrow> (\<exists>v. json_doc buf v \<and> tree_depth v \<le> d)"
proof
  assume "json_text d buf"
  then obtain w t w' where t: "buf = w @ t @ w'" "ws w" "ws w'" and v: "json_value d t"
    by (auto simp: json_text_def)
  from json_value_tree(1)[OF v] obtain v where "tree t v" "tree_depth v \<le> d" by auto
  with t show "\<exists>v. json_doc buf v \<and> tree_depth v \<le> d" unfolding json_doc_def by blast
next
  assume "\<exists>v. json_doc buf v \<and> tree_depth v \<le> d"
  then obtain v w t w' where t: "buf = w @ t @ w'" "ws w" "ws w'" and v: "tree t v" "tree_depth v \<le> d"
    unfolding json_doc_def by blast
  from tree_json_value(1)[OF v] t show "json_text d buf" unfolding json_text_def by blast
qed

lemma tree_balanced: "tree t v \<Longrightarrow> balanced t"
  by (rule json_balanced(1)[OF tree_json_value(1)[OF _ order_refl]])

section \<open>Children\<close>

text \<open>The children of a container, with the key of a member.\<close>

fun children :: "json \<Rightarrow> (bytes option \<times> json) list" where
  "children (JArray vs) = map (\<lambda>v. (None, v)) vs"
| "children (JObject kvs) = map (\<lambda>(k, v). (Some k, v)) kvs"
| "children _ = []"

fun is_container :: "json \<Rightarrow> bool" where
  "is_container (JArray _) = True"
| "is_container (JObject _) = True"
| "is_container _ = False"

inductive item :: "bytes \<Rightarrow> bytes option \<times> json \<Rightarrow> bool" where
  item_element: "ws w \<Longrightarrow> tree t v \<Longrightarrow> ws w' \<Longrightarrow> item (w @ t @ w') (None, v)"
| item_member: "ws w \<Longrightarrow> json_string (34 # k @ [34]) \<Longrightarrow> ws w' \<Longrightarrow> ws w'' \<Longrightarrow> tree t v \<Longrightarrow> ws w''' \<Longrightarrow>
    item (w @ (34 # k @ [34]) @ w' @ 58 # w'' @ t @ w''') (Some k, v)"

inductive items :: "bytes \<Rightarrow> (bytes option \<times> json) list \<Rightarrow> bool" where
  items_one: "item t c \<Longrightarrow> items t [c]"
| items_more: "item t c \<Longrightarrow> items es cs \<Longrightarrow> items (t @ 44 # es) (c # cs)"

lemma elements_members_items:
  "tree t v \<Longrightarrow> True"
  "elements es vs \<Longrightarrow> items es (map (\<lambda>v. (None, v)) vs)"
  "members ms kvs \<Longrightarrow> items ms (map (\<lambda>(k, v). (Some k, v)) kvs)"
proof (induction rule: tree_elements_members.inducts)
  case (elements_one w t v w')
  then show ?case by (auto intro: items_one item_element)
next
  case (elements_more w t v w' es vs)
  then show ?case using items_more[OF item_element[of w t v w']] by fastforce
next
  case (members_one w k w' w'' t v w''')
  then show ?case using items_one[OF item_member[of w k w' w'' t v w''']] by fastforce
next
  case (members_more w k w' w'' t v w''' ms kvs)
  then show ?case using items_more[OF item_member[of w k w' w'' t v w''']] by fastforce
qed auto

definition opener :: "json \<Rightarrow> u8" where
  "opener v = (case v of JObject _ \<Rightarrow> 123 | _ \<Rightarrow> 91)"

definition closer :: "json \<Rightarrow> u8" where
  "closer v = (case v of JObject _ \<Rightarrow> 125 | _ \<Rightarrow> 93)"

lemma tree_container:
  assumes "tree t v" "is_container v"
  obtains inner where "t = opener v # inner @ [closer v]"
    "ws inner \<and> children v = [] \<or> items inner (children v)"
  using assms
  by (cases rule: tree.cases)
    (auto simp: opener_def closer_def dest: elements_members_items)

section \<open>Path access on trees\<close>

fun child :: "json \<Rightarrow> path_seg \<Rightarrow> (json, qjson_err) outcome" where
  "child (JObject kvs) (Key k) = (case map_of kvs k of Some v \<Rightarrow> Ok v | None \<Rightarrow> Err QJSON_NOT_FOUND)"
| "child (JArray vs) (Idx n) = (if unat n < length vs then Ok (vs ! unat n) else Err QJSON_NOT_FOUND)"
| "child _ _ = Err QJSON_TYPE_MISMATCH"

fun lookup :: "json \<Rightarrow> path_seg list \<Rightarrow> (json, qjson_err) outcome" where
  "lookup v [] = Ok v"
| "lookup v (seg # segs) = and_then (child v seg) (\<lambda>w. lookup w segs)"

lemma lookup_append: "lookup v (p @ q) = and_then (lookup v p) (\<lambda>w. lookup w q)"
proof (induction p arbitrary: v)
  case (Cons seg p)
  then show ?case by (cases "child v seg") simp_all
qed simp

end
