(* ===== verification/Layout.thy ===== *)
theory Layout
  imports Cursor Json_Tree Parse
begin

text \<open>
  Where the tree of a document sits in its structural index. A value whose first byte follows the
  text \<open>pre\<close> starts at the position of the index that counts the tokens of \<open>pre\<close>; a scalar has no
  token of its own and starts at the separator or closer that follows it.
\<close>

section \<open>Token counts\<close>

definition count :: "bytes \<Rightarrow> nat" where
  "count t = length (lex_tokens Outside 0 t)"

lemma length_lex_tokens: "length (lex_tokens s n t) = length (lex_tokens s 0 t)"
  using lex_tokens_shift[of s 0 n t] by simp

lemma count_append: "lex_run Outside a = Outside \<Longrightarrow> count (a @ b) = count a + count b"
  by (simp add: count_def lex_tokens_append length_lex_tokens[of _ "length a"])

lemma count_ws [simp]: "ws w \<Longrightarrow> count w = 0"
  using lex_gap(1)[OF ws_no_structural, of w 0 "[]"] by (simp add: count_def)

lemma run_ws [simp]: "ws w \<Longrightarrow> lex_run Outside w = Outside"
  using lex_gap(2)[OF ws_no_structural, of w "[]"] by simp

lemma count_Nil [simp]: "count [] = 0"
  by (simp add: count_def)

lemma count_structural:
  "is_structural b \<Longrightarrow> b \<noteq> 34 \<Longrightarrow> count (b # t) = Suc (count t)"
  by (simp add: count_def length_lex_tokens[of _ "Suc 0"])

lemma count_string:
  "unquoted body \<Longrightarrow> count (34 # body @ [34]) = 2 \<and> lex_run Outside (34 # body @ [34]) = Outside"
  by (simp add: count_def lex_tokens_append unquoted_tokens) (simp add: unquoted_def)

lemma json_string_unquoted: "json_string (34 # k @ [34]) \<Longrightarrow> unquoted k"
  by (auto simp: json_string_def)

lemma balanced_run: "balanced t \<Longrightarrow> lex_run Outside t = Outside"
  by (simp add: balanced_def)

definition pad :: "bytes option \<Rightarrow> nat" where
  "pad k = (case k of None \<Rightarrow> 0 | Some _ \<Rightarrow> 3)"

lemma pad_simps [simp]: "pad None = 0" "pad (Some k) = 3"
  by (simp_all add: pad_def)

fun ntoks :: "json \<Rightarrow> nat" where
  "ntoks (JScalar s) = 0"
| "ntoks (JString s) = 2"
| "ntoks (JArray vs) = 2 + (length vs - 1) + sum_list (map ntoks vs)"
| "ntoks (JObject kvs) = 2 + (length kvs - 1) + sum_list (map (\<lambda>kv. 3 + ntoks (snd kv)) kvs)"

fun width :: "(bytes option \<times> json) list \<Rightarrow> nat" where
  "width [] = 0"
| "width ((k, v) # cs) = pad k + ntoks v + (if cs = [] then 0 else 1 + width cs)"

lemma width_elements: "width (map (\<lambda>v. (None, v)) vs) = (length vs - 1) + sum_list (map ntoks vs)"
  by (induction vs) (auto simp: Suc_leI)

lemma width_members:
  "width (map (\<lambda>(k, v). (Some k, v)) kvs) = (length kvs - 1) + sum_list (map (\<lambda>kv. 3 + ntoks (snd kv)) kvs)"
  by (induction kvs) (auto simp: Suc_leI)

lemma ntoks_container: "is_container v \<Longrightarrow> ntoks v = 2 + width (children v)"
  by (cases v) (simp_all add: width_elements width_members)

lemma item_balanced: "item t c \<Longrightarrow> balanced t"
proof (induction rule: item.induct)
  case (item_element w t v w')
  then show ?case by (simp add: balanced_append balanced_ws tree_balanced)
next
  case (item_member w k w' w'' t v w3)
  then have "balanced (w' @ 58 # w'' @ t @ w3)"
    by (simp add: balanced_append balanced_sep balanced_ws tree_balanced)
  with item_member show ?case
    using balanced_append[OF balanced_ws balanced_append[OF balanced_string]] by blast
qed

lemma items_balanced: "items t cs \<Longrightarrow> balanced t"
  by (induction rule: items.induct) (auto intro: item_balanced balanced_append balanced_sep(1))

lemmas item_run = balanced_run[OF item_balanced]
lemmas items_balanced_run = balanced_run[OF items_balanced]

lemma count_item:
  assumes "item t (k, v)" "\<And>t. tree t v \<Longrightarrow> count t = ntoks v"
  shows "count t = pad k + ntoks v"
  using assms(1)
proof (cases rule: item.cases)
  case (item_element w t' w')
  then show ?thesis by (simp add: count_append balanced_run[OF tree_balanced] assms(2))
next
  case (item_member w k' w' w'' t' w3)
  note s = count_string[OF json_string_unquoted[OF item_member(4)]]
  from s have "count t = 2 + count (w' @ 58 # w'' @ t' @ w3)"
    using item_member(1) count_append[OF run_ws[OF item_member(3)], of "(34 # k' @ [34]) @ w' @ 58 # w'' @ t' @ w3"]
      count_append[of "34 # k' @ [34]" "w' @ 58 # w'' @ t' @ w3"] item_member(3) by simp
  then show ?thesis
    using item_member by (simp add: count_append count_structural balanced_run[OF tree_balanced] assms(2))
qed

lemma count_items:
  "items t cs \<Longrightarrow> (\<And>k v t. (k, v) \<in> set cs \<Longrightarrow> tree t v \<Longrightarrow> count t = ntoks v) \<Longrightarrow> count t = width cs"
proof (induction rule: items.induct)
  case (items_one t c)
  then show ?case by (cases c) (simp add: count_item)
next
  case (items_more t c es cs)
  obtain k v where c: "c = (k, v)" by (cases c)
  have "count (t @ 44 # es) = count t + Suc (count es)"
    using item_run[OF items_more(1)] by (simp add: count_append count_structural)
  moreover have "cs \<noteq> []" using items_more(2) by (cases rule: items.cases) auto
  moreover have "count t = pad k + ntoks v"
    using items_more(1,4) c by (intro count_item) auto
  moreover have "count es = width cs"
    using items_more(3,4) by auto
  ultimately show ?case
    by (simp add: c)
qed

lemma children_size: "(k, w) \<in> set (children v) \<Longrightarrow> size w < size v"
proof (cases v)
  case (JArray vs)
  assume "(k, w) \<in> set (children v)"
  with JArray show ?thesis by (auto intro: size_list_estimation' le_imp_less_Suc)
next
  case (JObject kvs)
  assume "(k, w) \<in> set (children v)"
  with JObject obtain key where kv: "(key, w) \<in> set kvs" by auto
  have "size w \<le> size_list (size_prod (\<lambda>_. 0) size) kvs"
    by (rule size_list_estimation'[OF kv]) simp
  with JObject show ?thesis by simp
qed simp_all

lemma tree_count: "tree t v \<Longrightarrow> count t = ntoks v"
proof (induction "size v" arbitrary: t v rule: less_induct)
  case less
  show ?case
  proof (cases "is_container v")
    case True
    from less.prems True show ?thesis
    proof (cases rule: tree_container)
      case (1 inner)
      have "is_structural (opener v)" "opener v \<noteq> 34" "is_structural (closer v)" "closer v \<noteq> 34"
        by (auto simp: opener_def closer_def split: json.splits)
      moreover have "count inner = width (children v) \<and> lex_run Outside inner = Outside"
        using 1(2) count_items[of inner "children v"] less.hyps[OF children_size] items_balanced_run by auto
      ultimately show ?thesis
        using True by (simp add: 1 count_structural count_append ntoks_container)
    qed
  next
    case False
    from less.prems False show ?thesis
    proof (cases rule: tree.cases)
      case tree_scalar
      then show ?thesis
        using lex_gap(1)[OF json_scalar_no_structural(1), of t 0 "[]"] by (simp add: count_def)
    next
      case (tree_string body)
      then show ?thesis using count_string[OF json_string_unquoted] by simp
    qed auto
  qed
qed

lemmas item_count = count_item[OF _ tree_count]

lemma items_count: "items t cs \<Longrightarrow> count t = width cs"
  by (rule count_items[OF _ tree_count])

section \<open>The index of a document\<close>

definition indexed :: "document \<Rightarrow> bool" where
  "indexed d \<longleftrightarrow> length (doc_buf d) < 2 ^ 32 \<and> indices d = offsets (tokens (doc_buf d)) @ [U32_MAX]"

text \<open>The entry of a structural byte after the text \<open>pre\<close>.\<close>

lemma index_entry:
  assumes "indexed d" "doc_buf d = pre @ b # post" "lex_emits (lex_run Outside pre) b"
  shows "count pre < length (indices d)" "unat (indices d ! count pre) = length pre"
    "indices d ! count pre \<noteq> U32_MAX" "slice_get (doc_buf d) (length pre) = Some b"
proof -
  have toks: "tokens (doc_buf d) = lex_tokens Outside 0 pre @
      (length pre, b) # lex_tokens (lex_step (lex_run Outside pre) b) (Suc (length pre)) post"
    using assms by (simp add: tokens_def lex_tokens_append)
  have len: "length pre < length (doc_buf d)" "length (doc_buf d) < 2 ^ 32"
    using assms by (simp_all add: indexed_def)
  have ix: "indices d ! count pre = of_nat (length pre)" "count pre < length (indices d)"
    using assms(1) by (simp_all add: indexed_def toks count_def nth_append)
  show "count pre < length (indices d)" by (rule ix(2))
  show "unat (indices d ! count pre) = length pre" "indices d ! count pre \<noteq> U32_MAX"
    unfolding ix(1) using offset_unat[OF len(2,1)] by simp_all
  show "slice_get (doc_buf d) (length pre) = Some b"
    using len by (simp add: slice_get_def assms(2))
qed

section \<open>Values in a document\<close>

text \<open>
  \<open>placed buf s v\<close>: a value \<open>v\<close> inside a container starts at position \<open>s\<close> of the index;
  \<open>located\<close> adds the root.
\<close>

definition opens_value :: "bytes \<Rightarrow> bool" where
  "opens_value pre \<longleftrightarrow>
     (\<exists>p b w. pre = p @ b # w \<and> lex_run Outside p = Outside \<and> (b = 91 \<or> b = 44 \<or> b = 58) \<and> ws w)"

definition closes_value :: "bytes \<Rightarrow> bool" where
  "closes_value post \<longleftrightarrow> (\<exists>w c r. post = w @ c # r \<and> ws w \<and> (c = 44 \<or> c = 93 \<or> c = 125))"

definition placed :: "bytes \<Rightarrow> nat \<Rightarrow> json \<Rightarrow> bool" where
  "placed buf s v \<longleftrightarrow> (\<exists>pre t post. buf = pre @ t @ post \<and> opens_value pre \<and> tree t v \<and>
     closes_value post \<and> s = count pre)"

definition located :: "bytes \<Rightarrow> nat \<Rightarrow> json \<Rightarrow> bool" where
  "located buf s v \<longleftrightarrow> placed buf s v \<or> s = 0 \<and> json_doc buf v"

text \<open>\<open>cend s v\<close>: the \<open>idx_end\<close> of a cursor for \<open>v\<close>.\<close>

definition cend :: "nat \<Rightarrow> json \<Rightarrow> nat" where
  "cend s v = (if is_container v then s + ntoks v - 1 else s + 1)"

definition denotes :: "document \<Rightarrow> cursor \<Rightarrow> json \<Rightarrow> bool" where
  "denotes d cur v \<longleftrightarrow> located (doc_buf d) (idx_start cur) v \<and> idx_end cur = cend (idx_start cur) v"

lemma opens_value_run: "opens_value pre \<Longrightarrow> lex_run Outside pre = Outside"
  by (auto simp: opens_value_def)

lemma located_text:
  assumes "located buf s v"
  obtains pre t post where "buf = pre @ t @ post" "tree t v" "lex_run Outside pre = Outside" "s = count pre"
  using assms unfolding located_def placed_def json_doc_def
  by (metis count_ws opens_value_run run_ws)

section \<open>Spans\<close>

text \<open>Text that pairs its brackets leaves the bracket count of the span loop as it was.\<close>

lemma span_skip:
  assumes "drop k (indices d) = offsets ts @ rest" "length (doc_buf d) < 2 ^ 32"
    "\<forall>(p, b) \<in> set ts. p < length (doc_buf d) \<and> doc_buf d ! p = b" "pair_brackets st ts = Inr st'"
  shows "span_loop d w (1 + int (length st)) k = span_loop d w (1 + int (length st')) (k + length ts)"
  using assms(1,3,4)
proof (induction ts arbitrary: k st)
  case Nil
  then show ?case by simp
next
  case (Cons t ts)
  obtain p b where t: "t = (p, b)" by (cases t)
  from Cons.prems(1) t have "drop k (indices d) = of_nat p # offsets ts @ rest" by simp
  from drop_eq_ConsD[OF this]
  have k: "k < length (indices d)" "indices d ! k = of_nat p" "drop (Suc k) (indices d) = offsets ts @ rest"
    by auto
  from Cons.prems(2) t have p: "p < length (doc_buf d)" "doc_buf d ! p = b"
    and rest: "\<forall>(p, b) \<in> set ts. p < length (doc_buf d) \<and> doc_buf d ! p = b" by auto
  note un = offset_unat(1)[OF assms(2) p(1)]
  note IH = Cons.IH[OF k(3) rest]
  note loop = span_loop.simps[of d w _ k]
  consider "b = 125 \<or> b = 93" | "b = 123 \<or> b = 91" | "b \<noteq> 125 \<and> b \<noteq> 93 \<and> b \<noteq> 123 \<and> b \<noteq> 91" by blast
  then show ?case
  proof cases
    case 1
    with Cons.prems(3) t obtain x st1 where st: "st = x # st1" and pb: "pair_brackets st1 ts = Inr st'"
      by (auto split: list.splits if_splits)
    have "span_loop d w (1 + int (length st)) k = span_loop d w (1 + int (length st1)) (Suc k)"
      using 1 k un p by (subst loop) (auto simp: st)
    then show ?thesis using IH[OF pb] by simp
  next
    case 2
    have "span_loop d w (1 + int (length st)) k = span_loop d w (1 + int (length (b # st))) (Suc k)"
      using 2 k un p by (subst loop) (auto simp: add.commute)
    also have "\<dots> = span_loop d w (1 + int (length st')) (Suc k + length ts)"
      using 2 Cons.prems(3) t by (intro IH) auto
    finally show ?thesis by simp
  next
    case 3
    have "span_loop d w (1 + int (length st)) k = span_loop d w (1 + int (length st)) (Suc k)"
      using 3 k un p by (subst loop) auto
    also have "\<dots> = span_loop d w (1 + int (length st')) (Suc k + length ts)"
      using 3 Cons.prems(3) t by (intro IH) auto
    finally show ?thesis by simp
  qed
qed

lemma bracket_bytes:
  "is_structural (opener v)" "opener v \<noteq> 34" "opener v = 123 \<or> opener v = 91"
  "is_structural (closer v)" "closer v \<noteq> 34" "closer v = 125 \<or> closer v = 93" "closer v \<noteq> 44"
  "closer v \<noteq> 123" "closer v \<noteq> 91"
  "(if opener v = 123 then 125 else 93) = closer v"
  by (auto simp: opener_def closer_def split: json.splits)

lemma indexed_drop:
  assumes "indexed d" "doc_buf d = pre @ post" "lex_run Outside pre = Outside"
  shows "drop (count pre) (indices d) = offsets (lex_tokens Outside (length pre) post) @ [U32_MAX]"
  using assms by (simp add: indexed_def tokens_def lex_tokens_append count_def)

lemma container_span:
  assumes ix: "indexed d" and buf: "doc_buf d = pre @ t @ post" and run: "lex_run Outside pre = Outside"
    and t: "tree t v" "is_container v"
  shows "find_value_span d (count pre) = Ok (count pre + ntoks v - 1, count pre + ntoks v)"
proof -
  from t obtain inner where inner: "t = opener v # inner @ [closer v]"
    "ws inner \<and> children v = [] \<or> items inner (children v)" by (rule tree_container)
  from tree_balanced[OF t(1)] have bal: "balanced t" .
  have irun: "lex_run Outside inner = Outside"
    using inner(2) items_balanced_run by auto
  define m where "m = Suc (length pre)"
  have cnt: "count inner + 2 = ntoks v"
    using tree_count[OF t(1)] irun inner(1) bracket_bytes[of v]
    by (simp add: count_structural count_append)
  have "balanced inner"
    using inner(2) items_balanced balanced_ws by auto
  then have pair: "pair_brackets [] (lex_tokens Outside m inner) = Inr []"
    by (simp add: balanced_def)
  define n where "n = length (lex_tokens Outside m inner)"
  have n: "n = count inner" by (simp add: n_def count_def length_lex_tokens[of _ m])
  have buf1: "doc_buf d = pre @ opener v # inner @ closer v # post"
    and buf2: "doc_buf d = (pre @ opener v # inner) @ closer v # post"
    by (simp_all add: buf inner(1))
  have run2: "lex_run Outside (pre @ opener v # inner) = Outside"
    using run irun bracket_bytes[of v] by simp
  have cnt2: "count (pre @ opener v # inner) = count pre + 1 + n"
    using run bracket_bytes[of v] by (simp add: count_append count_structural n)
  note opn = index_entry[OF ix buf1, simplified run lex_emits.simps, OF bracket_bytes(1)]
  note close = index_entry[OF ix buf2, simplified run2 lex_emits.simps, OF bracket_bytes(4), unfolded cnt2]
  have len: "length (doc_buf d) < 2 ^ 32" using ix by (simp add: indexed_def)
  have toks: "drop (count pre + 1) (indices d) =
      offsets (lex_tokens Outside m inner) @ offsets (lex_tokens Outside (m + length inner) (closer v # post)) @ [U32_MAX]"
    using indexed_drop[OF ix buf1 run] irun bracket_bytes[of v]
    by (auto dest!: drop_eq_ConsD simp: m_def lex_tokens_append)
  have valid: "\<forall>(p, b) \<in> set (lex_tokens Outside m inner). p < length (doc_buf d) \<and> doc_buf d ! p = b"
  proof safe
    fix p b assume pb: "(p, b) \<in> set (lex_tokens Outside m inner)"
    from lex_tokens_range[OF pb] lex_tokens_nth[OF pb]
    show "p < length (doc_buf d)" "doc_buf d ! p = b"
      by (auto simp: buf1 m_def nth_append nth_Cons' split: if_splits)
  qed
  from span_skip[OF toks len valid pair]
  have "span_loop d (closer v) 1 (count pre + 1) = span_loop d (closer v) 1 (count pre + 1 + n)"
    by (simp add: n_def)
  also have "\<dots> = Ok (count pre + 1 + n, count pre + 1 + n + 1)"
    using close bracket_bytes(6)[of v] bracket_bytes(8,9)[of v]
    by (subst span_loop.simps) (auto simp: slice_get_def split: if_splits)
  finally show ?thesis
    using opn cnt n bracket_bytes(3)[of v] bracket_bytes(10)[of v]
    by (auto simp: find_value_span_def at_def ok_or_def split: if_splits)
qed

lemma index_at:
  assumes "indexed d" "doc_buf d = pre @ b # post" "lex_emits (lex_run Outside pre) b"
  shows "\<exists>w. at (indices d) (count pre) = Ok w \<and> unat w = length pre \<and>
    length pre < length (doc_buf d) \<and> doc_buf d ! length pre = b"
  using index_entry[OF assms] by (auto simp: at_def slice_get_def split: if_splits)

lemma placed_span:
  assumes ix: "indexed d" and "placed (doc_buf d) s v"
  shows "find_value_span d s = Ok (cend s v, s + ntoks v)"
proof -
  from assms(2) obtain pre t post where buf: "doc_buf d = pre @ t @ post" and pre: "opens_value pre"
    and t: "tree t v" and post: "closes_value post" and s: "s = count pre"
    unfolding placed_def by blast
  from pre have run: "lex_run Outside pre = Outside" by (rule opens_value_run)
  show ?thesis
  proof (cases "is_container v")
    case True
    with container_span[OF ix buf run t] show ?thesis by (simp add: cend_def s)
  next
    case False
    from t False show ?thesis
    proof (cases rule: tree.cases)
      case tree_scalar
      from post obtain w c r where c: "post = w @ c # r" "ws w" "c = 44 \<or> c = 93 \<or> c = 125"
        unfolding closes_value_def by blast
      have gap: "count (pre @ t @ w) = count pre" "lex_run Outside (pre @ t @ w) = Outside"
        using run c(2) tree_count[OF t] balanced_run[OF tree_balanced[OF t]] tree_scalar(1) by (simp_all add: count_append)
      have "doc_buf d = (pre @ t @ w) @ c # r" by (simp add: buf c)
      from index_entry[OF ix this, unfolded gap, simplified] c(3)
      show ?thesis using tree_scalar(1)
        by (auto simp: find_value_span_def at_def ok_or_def cend_def s simp del: and_then_eq_Ok)
    next
      case (tree_string body)
      have "doc_buf d = pre @ 34 # body @ 34 # post" by (simp add: buf tree_string)
      from index_entry[OF ix this, unfolded run, simplified] show ?thesis using tree_string(2)
        by (auto simp: find_value_span_def at_def ok_or_def cend_def s)
    qed auto
  qed
qed

section \<open>Children in a document\<close>

text \<open>
  \<open>children_at d obj i cs c\<close>: the text of the items \<open>cs\<close>, up to the closer \<open>c\<close>, starts at
  position \<open>i\<close> of the index.
\<close>

definition children_at :: "document \<Rightarrow> bool \<Rightarrow> nat \<Rightarrow> (bytes option \<times> json) list \<Rightarrow> u8 \<Rightarrow> bool" where
  "children_at d obj i cs c \<longleftrightarrow>
     (\<exists>p b t post. doc_buf d = (p @ [b]) @ t @ c # post \<and> lex_run Outside p = Outside \<and>
       (b = 44 \<or> b = (if obj then 123 else 91)) \<and> items t cs \<and> (\<forall>(k, v) \<in> set cs. (k \<noteq> None) = obj) \<and>
       i = count (p @ [b]) \<and> (c = 93 \<or> c = 125))"

lemma key_bytes_placed:
  assumes ix: "indexed d" and buf: "doc_buf d = pre @ (34 # k @ [34]) @ post"
    and run: "lex_run Outside pre = Outside" and k: "unquoted k"
  shows "key_bytes d checked (count pre) = Ok k"
proof -
  have buf1: "doc_buf d = pre @ 34 # k @ 34 # post" and buf2: "doc_buf d = (pre @ 34 # k) @ 34 # post"
    by (simp_all add: buf)
  have "count (34 # k) = 1"
    using unquoted_tokens[OF k] by (simp add: count_def)
  then have cnt: "count (pre @ 34 # k) = Suc (count pre)"
    using run by (simp add: count_append)
  have "lex_run Outside (pre @ 34 # k) = Inside"
    using run k by (simp add: unquoted_def)
  with index_entry[OF ix buf2] have close: "Suc (count pre) < length (indices d)"
      "unat (indices d ! Suc (count pre)) = Suc (length pre + length k)"
    by (simp_all add: cnt)
  from index_entry[OF ix buf1] run have open_q: "count pre < length (indices d)"
      "unat (indices d ! count pre) = length pre" "slice_get (doc_buf d) (length pre) = Some 34"
    by simp_all
  have sl: "slice (Suc (length pre)) (Suc (length pre + length k)) (doc_buf d) = k"
    by (simp add: buf slice_def)
  have "Suc (length pre + length k) \<le> length (doc_buf d)" by (simp add: buf)
  with open_q close sl show ?thesis
    by (simp add: key_bytes_def at_def slice_at_def)
qed


text \<open>One item: where its value is, its key, and the separator or closer after it.\<close>

lemma item_placed:
  assumes ix: "indexed d" and buf: "doc_buf d = (p @ [b]) @ t @ c # post"
    and run: "lex_run Outside p = Outside" and b: "b = 44 \<or> b = (if k \<noteq> None then 123 else 91)"
    and it: "item t (k, v)" and c: "c = 44 \<or> c = 93 \<or> c = 125"
  shows "placed (doc_buf d) (count (p @ [b]) + pad k) v"
    "\<And>key checked. k = Some key \<Longrightarrow> key_bytes d checked (count (p @ [b])) = Ok key"
    "count ((p @ [b]) @ t) = count (p @ [b]) + pad k + ntoks v"
    "lex_run Outside ((p @ [b]) @ t) = Outside"
proof -
  have run_b: "lex_run Outside (p @ [b]) = Outside"
    using run b by (auto split: if_splits)
  show run_t: "lex_run Outside ((p @ [b]) @ t) = Outside"
    using run_b item_run[OF it] by simp
  show "count ((p @ [b]) @ t) = count (p @ [b]) + pad k + ntoks v"
    using count_append[OF run_b, of t] item_count[OF it] by simp
  have pl: "placed (doc_buf d) (count (p @ [b]) + pad k) v \<and>
    (\<forall>key checked. k = Some key \<longrightarrow> key_bytes d checked (count (p @ [b])) = Ok key)"
    using it
  proof (cases rule: item.cases)
    case (item_element w t' w')
    have "opens_value (p @ b # w)"
      unfolding opens_value_def using run b item_element by (intro exI[of _ p] exI[of _ b] exI[of _ w]) auto
    moreover have "closes_value (w' @ c # post)"
      unfolding closes_value_def using c item_element by blast
    moreover have "count (p @ b # w) = count (p @ [b])"
      using count_append[OF run_b, of w] item_element by simp
    ultimately show ?thesis
      unfolding placed_def using item_element buf
      by (intro conjI exI[of _ "p @ b # w"] exI[of _ t'] exI[of _ "w' @ c # post"]) auto
  next
    case (item_member w key w' w'' t' w3)
    let ?q = "(p @ [b]) @ w @ (34 # key @ [34]) @ w'"
    note key = count_string[OF json_string_unquoted[OF item_member(4)]]
    have run_q: "lex_run Outside ?q = Outside"
      using run_b item_member(3,5) key by simp
    have run_w: "lex_run Outside ((p @ [b]) @ w) = Outside"
      using run_b item_member(3) by simp
    have cnt_w: "count ((p @ [b]) @ w) = count (p @ [b])"
      using count_append[OF run_b, of w] item_member(3) by simp
    have "count ?q = count (p @ [b]) + 2"
      using count_append[OF run_w, of "(34 # key @ [34]) @ w'"] count_append[of "34 # key @ [34]" w'] key cnt_w item_member(5)
      by simp
    then have cnt: "count (?q @ 58 # w'') = count (p @ [b]) + 3"
      using count_append[OF run_q, of "58 # w''"] item_member(6) by (simp add: count_structural)
    have "opens_value (?q @ 58 # w'')"
      unfolding opens_value_def using run_q item_member(6) by blast
    moreover have "closes_value (w3 @ c # post)"
      unfolding closes_value_def using c item_member by blast
    moreover have "doc_buf d = (?q @ 58 # w'') @ t' @ (w3 @ c # post)"
      by (simp add: buf item_member(1))
    ultimately have "placed (doc_buf d) (count (p @ [b]) + pad k) v"
      unfolding placed_def using item_member(2,7) cnt by (metis pad_simps(2))
    moreover have "key_bytes d checked (count (p @ [b])) = Ok key" for checked
      using key_bytes_placed[OF ix _ run_w json_string_unquoted[OF item_member(4)],
          of "w' @ 58 # w'' @ t' @ w3 @ c # post" checked] cnt_w
      by (simp add: buf item_member(1))
    ultimately show ?thesis using item_member(2) by auto
  qed
  then show "placed (doc_buf d) (count (p @ [b]) + pad k) v" by blast
  from pl show "key_bytes d checked (count (p @ [b])) = Ok key" if "k = Some key" for key checked
    using that by blast
qed

text \<open>Position \<open>j\<close> of the index is the structural byte \<open>b\<close>.\<close>

definition token_at :: "document \<Rightarrow> nat \<Rightarrow> u8 \<Rightarrow> bool" where
  "token_at d j b \<longleftrightarrow> j < length (indices d) \<and> unat (indices d ! j) < length (doc_buf d) \<and>
     doc_buf d ! unat (indices d ! j) = b"

lemma token_atI:
  assumes "indexed d" "doc_buf d = pre @ b # post" "lex_run Outside pre = Outside" "is_structural b" "j = count pre"
  shows "token_at d j b"
  using index_entry[OF assms(1,2)] assms(3-) by (auto simp: token_at_def slice_get_def split: if_splits)

lemma items_Nil [simp]: "\<not> items t []"
  by (auto elim: items.cases)

lemma children_at_step:
  assumes ix: "indexed d" and ch: "children_at d obj i ((k, v) # cs) c"
  shows "(k \<noteq> None) = obj" "placed (doc_buf d) (i + pad k) v"
    "\<And>key checked. k = Some key \<Longrightarrow> key_bytes d checked i = Ok key"
    "token_at d (i + pad k + ntoks v) (if cs = [] then c else 44)"
    "cs \<noteq> [] \<Longrightarrow> children_at d obj (i + pad k + ntoks v + 1) cs c"
proof -
  from ch obtain p b t post where buf: "doc_buf d = (p @ [b]) @ t @ c # post"
    and run: "lex_run Outside p = Outside" and b: "b = 44 \<or> b = (if obj then 123 else 91)"
    and it: "items t ((k, v) # cs)" and keys: "\<forall>(k, v) \<in> set ((k, v) # cs). (k \<noteq> None) = obj"
    and i: "i = count (p @ [b])" and c: "c = 93 \<or> c = 125"
    unfolding children_at_def by blast
  from keys show obj: "(k \<noteq> None) = obj" by simp
  from b have b': "b = 44 \<or> b = (if k \<noteq> None then 123 else 91)" using obj by simp
  have "\<exists>t1 c1 post1. doc_buf d = (p @ [b]) @ t1 @ c1 # post1 \<and> item t1 (k, v) \<and> c1 = (if cs = [] then c else 44) \<and>
    (cs \<noteq> [] \<longrightarrow> (\<exists>t2. post1 = t2 @ c # post \<and> items t2 cs))"
    using it
  proof (cases rule: items.cases)
    case items_one
    then show ?thesis
      using buf by (intro exI[of _ t] exI[of _ c] exI[of _ post]) simp
  next
    case (items_more t1 es)
    then have "cs \<noteq> []" by auto
    then show ?thesis
      using items_more buf by (intro exI[of _ t1] exI[of _ 44] exI[of _ "es @ c # post"]) auto
  qed
  then obtain t1 c1 post1 where t1: "doc_buf d = (p @ [b]) @ t1 @ c1 # post1" "item t1 (k, v)"
    "c1 = (if cs = [] then c else 44)"
    and rest: "cs \<noteq> [] \<longrightarrow> (\<exists>t2. post1 = t2 @ c # post \<and> items t2 cs)" by blast
  have c1: "c1 = 44 \<or> c1 = 93 \<or> c1 = 125" using t1(3) c by auto
  note pl = item_placed[OF ix t1(1) run b' t1(2) c1]
  from pl(1) show "placed (doc_buf d) (i + pad k) v" by (simp add: i)
  from pl(2) show "\<And>key checked. k = Some key \<Longrightarrow> key_bytes d checked i = Ok key" by (simp add: i)
  have "doc_buf d = ((p @ [b]) @ t1) @ c1 # post1" using t1(1) by simp
  then show "token_at d (i + pad k + ntoks v) (if cs = [] then c else 44)"
    using pl(3,4) c1 unfolding t1(3)[symmetric]
    by (intro token_atI[OF ix, where pre = "(p @ [b]) @ t1"]) (auto simp: i)
  show "children_at d obj (i + pad k + ntoks v + 1) cs c" if ne: "cs \<noteq> []"
  proof -
    from rest ne obtain t2 where t2: "post1 = t2 @ c # post" "items t2 cs" by blast
    have "doc_buf d = (((p @ [b]) @ t1) @ [44]) @ t2 @ c # post"
      using t1 t2 ne by simp
    moreover have "count (((p @ [b]) @ t1) @ [44]) = i + pad k + ntoks v + 1"
      using count_append[OF pl(4), of "[44]"] pl(3) by (simp add: i count_structural)
    ultimately show ?thesis
      unfolding children_at_def using pl(4) t2(2) keys c by (metis (no_types, lifting) list.set_intros(2))
  qed
qed

text \<open>The tokens of a key and its colon.\<close>

lemma children_at_key:
  assumes ix: "indexed d" and ch: "children_at d obj i ((Some key, v) # cs) c"
  shows "token_at d i 34" "token_at d (i + 1) 34" "token_at d (i + 2) 58" "json_string (34 # key @ [34])"
proof -
  from ch obtain p b t post where buf: "doc_buf d = (p @ [b]) @ t @ c # post"
    and run: "lex_run Outside p = Outside" and b: "b = 44 \<or> b = (if obj then 123 else 91)"
    and it: "items t ((Some key, v) # cs)" and i: "i = count (p @ [b])"
    unfolding children_at_def by blast
  from it obtain t1 r1 where t1: "item t1 (Some key, v)" "t = t1 @ r1"
    by (cases rule: items.cases) auto
  from t1(1) obtain w w' w'' t' w3 where m: "t1 = w @ (34 # key @ [34]) @ w' @ 58 # w'' @ t' @ w3"
    "ws w" "json_string (34 # key @ [34])" "ws w'"
    by (cases rule: item.cases) auto
  show "json_string (34 # key @ [34])" by (rule m(3))
  note key = json_string_unquoted[OF m(3)]
  define pre where "pre = (p @ [b]) @ w"
  define rest where "rest = w' @ 58 # w'' @ t' @ w3 @ r1 @ c # post"
  have run_b: "lex_run Outside (p @ [b]) = Outside" using run b by (auto split: if_splits)
  then have run_pre: "lex_run Outside pre = Outside" and cnt: "count pre = i"
    using m(2) count_append[OF run_b, of w] by (simp_all add: pre_def i)
  have buf1: "doc_buf d = pre @ 34 # (key @ 34 # rest)" and buf2: "doc_buf d = (pre @ 34 # key) @ 34 # rest"
    and buf3: "doc_buf d = (pre @ (34 # key @ [34]) @ w') @ 58 # w'' @ t' @ w3 @ r1 @ c # post"
    by (simp_all add: buf pre_def rest_def t1(2) m(1))
  have in_key: "lex_run Outside (pre @ 34 # key) = Inside" "count (pre @ 34 # key) = i + 1"
    using run_pre key unquoted_tokens[OF key] count_append[OF run_pre, of "34 # key"] cnt
    by (simp_all add: unquoted_def) (simp add: count_def)
  have after_key: "lex_run Outside (pre @ (34 # key @ [34]) @ w') = Outside" "count (pre @ (34 # key @ [34]) @ w') = i + 2"
    using count_append[OF run_pre, of "(34 # key @ [34]) @ w'"] count_append[of "34 # key @ [34]" w']
      count_string[OF key] run_pre m(4) cnt by simp_all
  from index_entry[OF ix buf1] run_pre cnt show "token_at d i 34"
    by (auto simp: token_at_def slice_get_def split: if_splits)
  from index_entry[OF ix buf2] in_key show "token_at d (i + 1) 34"
    by (auto simp: token_at_def slice_get_def split: if_splits)
  show "token_at d (i + 2) 58"
    using token_atI[OF ix buf3 after_key(1)] after_key(2) by simp
qed

lemma item_not_ws: "item t c \<Longrightarrow> \<not> ws t"
proof (induction rule: item.induct)
  case (item_element w t v w')
  from item_element(2) have "\<not> ws t"
  proof (cases rule: tree.cases)
    case tree_scalar
    then show ?thesis
      using json_scalar_no_structural(2) json_scalar_nonempty by (cases t) auto
  qed (auto simp: is_ws_def)
  then show ?case by simp
qed (auto simp: is_ws_def)

lemma items_not_ws: "items t cs \<Longrightarrow> \<not> ws t"
  by (induction rule: items.induct) (auto dest: item_not_ws)

lemma container_layout:
  assumes ix: "indexed d" and loc: "located (doc_buf d) s v" and con: "is_container v"
  shows "token_at d s (opener v)" "token_at d (cend s v) (closer v)"
    "empty_container d (cursor_at s (cend s v)) = Ok (children v = [])"
    "children v \<noteq> [] \<Longrightarrow> children_at d (opener v = 123) (s + 1) (children v) (closer v)"
    "find_value_span d s = Ok (cend s v, s + ntoks v)"
    "cend s v = s + 1 + width (children v)"
proof -
  from loc obtain pre t post where buf: "doc_buf d = pre @ t @ post" and t: "tree t v"
    and run: "lex_run Outside pre = Outside" and s: "s = count pre" by (rule located_text)
  from t con obtain inner where inner: "t = opener v # inner @ [closer v]"
    "ws inner \<and> children v = [] \<or> items inner (children v)" by (rule tree_container)
  show cend: "cend s v = s + 1 + width (children v)"
    using con by (simp add: cend_def ntoks_container)
  show "find_value_span d s = Ok (cend s v, s + ntoks v)"
    using container_span[OF ix buf run t con] con by (simp add: s cend_def)
  have irun: "lex_run Outside inner = Outside"
    using inner(2) items_balanced_run by auto
  have icount: "count inner = width (children v)"
    using inner(2) items_count by auto
  have buf1: "doc_buf d = pre @ opener v # inner @ closer v # post"
    and buf2: "doc_buf d = (pre @ opener v # inner) @ closer v # post"
    by (simp_all add: buf inner(1))
  have run2: "lex_run Outside (pre @ opener v # inner) = Outside"
    using run irun bracket_bytes[of v] by simp
  have cnt2: "count (pre @ opener v # inner) = cend s v"
    using run bracket_bytes[of v] cend s by (simp add: count_append count_structural icount)
  show open_tok: "token_at d s (opener v)"
    using buf1 run bracket_bytes(1) s by (rule token_atI[OF ix])
  show close_tok: "token_at d (cend s v) (closer v)"
    using buf2 run2 bracket_bytes(4) cnt2[symmetric] by (rule token_atI[OF ix])
  have pos: "unat (indices d ! s) = length pre" "unat (indices d ! cend s v) = length pre + 1 + length inner"
    using index_entry(2)[OF ix buf1] index_entry(2)[OF ix buf2] run run2 bracket_bytes[of v]
    by (simp_all add: s cnt2)
  have "takeWhile is_ws inner = inner \<longleftrightarrow> ws inner"
    by (simp add: takeWhile_eq_all_conv ws_def list_all_iff)
  moreover have "length (takeWhile is_ws inner) = length inner \<longleftrightarrow> takeWhile is_ws inner = inner"
    by (metis takeWhile_eq_take take_all_iff length_take min.cobounded1 linorder_le_cases order_refl takeWhile_dropWhile_id append_eq_conv_conj)
  moreover have "ws inner \<longleftrightarrow> children v = []"
    using inner(2) items_not_ws by auto
  ultimately have emp: "length (takeWhile is_ws inner) = length inner \<longleftrightarrow> children v = []" by simp
  have dr: "drop (length pre + 1) (doc_buf d) = inner @ closer v # post"
    by (simp add: buf1)
  show "empty_container d (cursor_at s (cend s v)) = Ok (children v = [])"
    using open_tok close_tok emp
    by (auto simp: empty_container_def token_at_def at_def pos cursor_at_def
        skip_ws_to_drop[OF dr, simplified] simp del: and_then_eq_Ok)
  show "children_at d (opener v = 123) (s + 1) (children v) (closer v)" if ne: "children v \<noteq> []"
  proof -
    have it: "items inner (children v)" using inner(2) ne by simp
    have cnt: "count (pre @ [opener v]) = s + 1"
      using run bracket_bytes[of v] by (simp add: count_append count_structural s)
    have keys: "\<forall>(k, w) \<in> set (children v). (k \<noteq> None) = (opener v = 123)"
      using con by (cases v) (auto simp: opener_def)
    show ?thesis
      unfolding children_at_def
      using buf1 run it keys cnt bracket_bytes(3,6)[of v] by (intro exI[of _ pre] exI[of _ "opener v"] exI[of _ inner] exI[of _ post]) auto
  qed
qed

end
