(* ===== verification/Navigate.thy ===== *)
theory Navigate
  imports Layout
begin

text \<open>
  The cursor operations implement path access on the tree of the document, with a warm or a cold
  skip cache, and never panic on the index of a JSON text.
\<close>

section \<open>Walking the children\<close>

fun starts_of :: "nat \<Rightarrow> (bytes option \<times> json) list \<Rightarrow> nat list" where
  "starts_of i [] = []"
| "starts_of i ((k, v) # cs) = i # starts_of (i + pad k + ntoks v + 1) cs"

fun ends_of :: "nat \<Rightarrow> (bytes option \<times> json) list \<Rightarrow> nat list" where
  "ends_of i [] = []"
| "ends_of i ((k, v) # cs) = cend (i + pad k) v # ends_of (i + pad k + ntoks v + 1) cs"

definition selects :: "path_seg \<Rightarrow> u32 \<Rightarrow> bytes option \<Rightarrow> bool" where
  "selects seg n k = (case seg of Key want \<Rightarrow> k = Some want | Idx want \<Rightarrow> n = want)"

text \<open>The cursor of the first child a segment selects.\<close>

fun pick :: "path_seg \<Rightarrow> u32 \<Rightarrow> nat \<Rightarrow> (bytes option \<times> json) list \<Rightarrow> cursor option" where
  "pick seg n i [] = None"
| "pick seg n i ((k, v) # cs) =
     (if selects seg n k then Some (cursor_at (i + pad k) (cend (i + pad k) v))
      else pick seg (n + 1) (i + pad k + ntoks v + 1) cs)"

text \<open>The cursor of a child by its number, and the first child with a key.\<close>

fun child_cursor :: "nat \<Rightarrow> (bytes option \<times> json) list \<Rightarrow> nat \<Rightarrow> cursor" where
  "child_cursor i [] n = cursor_at i i"
| "child_cursor i ((k, v) # cs) 0 = cursor_at (i + pad k) (cend (i + pad k) v)"
| "child_cursor i ((k, v) # cs) (Suc n) = child_cursor (i + pad k + ntoks v + 1) cs n"

lemma pick_key:
  "j < length cs \<Longrightarrow> fst (cs ! j) = Some k \<Longrightarrow> \<forall>l < j. fst (cs ! l) \<noteq> Some k \<Longrightarrow>
    pick (Key k) n i cs = Some (child_cursor i cs j)"
proof (induction cs arbitrary: n i j)
  case (Cons kv cs)
  obtain k' v where kv: "kv = (k', v)" by (cases kv)
  show ?case
  proof (cases j)
    case 0
    with Cons.prems show ?thesis by (simp add: kv selects_def)
  next
    case (Suc m)
    with Cons.prems(3) have "k' \<noteq> Some k" "\<forall>l < m. fst (cs ! l) \<noteq> Some k" by (fastforce simp: kv)+
    with Cons Suc show ?thesis by (simp add: kv selects_def)
  qed
qed simp

lemma token_at_outcome:
  assumes "token_at d j b"
  shows "at (indices d) j = Ok (indices d ! j)" "\<not> length (doc_buf d) \<le> unat (indices d ! j)"
    "doc_buf d ! unat (indices d ! j) = b" "slice_get (doc_buf d) (unat (indices d ! j)) = Some b"
  using assms by (simp_all add: token_at_def at_def slice_get_def)

lemma child_matches_selects:
  assumes ix: "indexed d" and ch: "children_at d (is_key seg) i ((k, v) # cs) c"
  shows "child_matches d checked seg i n = Ok (selects seg n k)"
proof (cases seg)
  case (Key want)
  with children_at_step(1)[OF ix ch] obtain key where "k = Some key" by (auto simp: is_key_def)
  with children_at_step(3)[OF ix ch this] Key show ?thesis
    by (simp add: child_matches_def selects_def del: and_then_eq_Ok)
qed (simp add: child_matches_def selects_def)

lemma is_key_pad: "(k \<noteq> None) = obj \<Longrightarrow> (if obj then i + 3 else i) = i + pad k"
  by (cases k) auto

lemma walk_loop_children:
  assumes ix: "indexed d"
  shows "children_at d (is_key seg) i cs c \<Longrightarrow> cs \<noteq> [] \<Longrightarrow> end_idx = i + width cs \<Longrightarrow>
    walk_loop d seg end_idx i n starts ends result =
      Ok (starts @ starts_of i cs, ends @ ends_of i cs, case result of Some r \<Rightarrow> Some r | None \<Rightarrow> pick seg n i cs)"
proof (induction cs arbitrary: i n starts ends result)
  case (Cons kv cs)
  obtain k v where kv: "kv = (k, v)" by (cases kv)
  note ch = Cons.prems(1)[unfolded kv]
  note st = children_at_step[OF ix ch]
  have vi: "(if is_key seg then i + 3 else i) = i + pad k"
    using st(1) by (rule is_key_pad)
  note sp = placed_span[OF ix st(2)]
  note cm = child_matches_selects[OF ix ch]
  have i_le: "i \<le> end_idx" using Cons.prems(3) by simp
  define r where "r = (case result of Some x \<Rightarrow> Some x
    | None \<Rightarrow> if selects seg n k then Some (cursor_at (i + pad k) (cend (i + pad k) v)) else None)"
  have res: "(if result = None then and_then (child_matches d True seg i n) (\<lambda>matched.
      Ok (if matched then Some (cursor_at (i + pad k) (cend (i + pad k) v)) else None)) else Ok result) = Ok r"
    by (cases result) (simp_all add: r_def cm del: and_then_eq_Ok)
  show ?case
  proof (cases "cs = []")
    case True
    with st(4) have tok: "token_at d (i + pad k + ntoks v) c" by simp
    from ch have c: "c \<noteq> 44" "c = 125 \<or> c = 93" by (auto simp: children_at_def)
    show ?thesis
      using i_le c True
      by (subst walk_loop.simps)
        (simp add: Let_def vi sp res kv token_at_outcome[OF tok] r_def del: and_then_eq_Ok split: option.split)
  next
    case False
    with st(4) have tok: "token_at d (i + pad k + ntoks v) 44" by simp
    have step: "walk_loop d seg end_idx i n starts ends result =
        walk_loop d seg end_idx (i + pad k + ntoks v + 1) (n + 1) (starts @ [i]) (ends @ [cend (i + pad k) v]) r"
      using i_le
      by (subst walk_loop.simps) (simp add: Let_def vi sp res token_at_outcome[OF tok] del: and_then_eq_Ok)
    have "end_idx = i + pad k + ntoks v + 1 + width cs"
      using Cons.prems(3) False by (simp add: kv)
    from Cons.IH[OF st(5)[OF False] False this] show ?thesis
      unfolding step by (cases result) (auto simp: kv r_def)
  qed
qed simp

lemma known_children:
  assumes ix: "indexed d"
  shows "cs = [] \<or> children_at d (is_key seg) i cs c \<Longrightarrow>
    resolve_in_known_children_loop d seg n (zip (starts_of i cs) (ends_of i cs)) =
      (case pick seg (of_nat n) i cs of Some cur \<Rightarrow> Ok cur | None \<Rightarrow> Err QJSON_NOT_FOUND)"
proof (induction cs arbitrary: i n)
  case (Cons kv cs)
  obtain k v where kv: "kv = (k, v)" by (cases kv)
  from Cons.prems kv have ch: "children_at d (is_key seg) i ((k, v) # cs) c" by simp
  note st = children_at_step[OF ix ch]
  have vi: "(if is_key seg then i + 3 else i) = i + pad k"
    using st(1) by (rule is_key_pad)
  have "cs = [] \<or> children_at d (is_key seg) (i + pad k + ntoks v + 1) cs c"
    using st(5) by blast
  from Cons.IH[OF this, of "n + 1"] show ?case
    using child_matches_selects[OF ix ch, of False "of_nat n"]
    by (simp add: kv vi add.commute del: and_then_eq_Ok)
qed simp

section \<open>The picked child\<close>

lemma pick_child:
  assumes ix: "indexed d"
  shows "cs = [] \<or> children_at d (is_key seg) i cs c \<Longrightarrow>
    (case pick seg (of_nat m) i cs of
       Some cur \<Rightarrow> \<exists>j < length cs. selects seg (of_nat (m + j)) (fst (cs ! j)) \<and>
         (\<forall>l < j. \<not> selects seg (of_nat (m + l)) (fst (cs ! l))) \<and> denotes d cur (snd (cs ! j))
     | None \<Rightarrow> \<forall>j < length cs. \<not> selects seg (of_nat (m + j)) (fst (cs ! j)))"
proof (induction cs arbitrary: i m)
  case (Cons kv cs)
  obtain k v where kv: "kv = (k, v)" by (cases kv)
  from Cons.prems kv have ch: "children_at d (is_key seg) i ((k, v) # cs) c" by simp
  note st = children_at_step[OF ix ch]
  show ?case
  proof (cases "selects seg (of_nat m) k")
    case True
    then show ?thesis
      using st(2) by (auto simp: kv denotes_def located_def cursor_at_def intro!: exI[of _ 0])
  next
    case False
    have "cs = [] \<or> children_at d (is_key seg) (i + pad k + ntoks v + 1) cs c"
      using st(5) by blast
    from Cons.IH[OF this, of "Suc m"]
    have IH: "case pick seg (of_nat m + 1) (i + pad k + ntoks v + 1) cs of
       Some cur \<Rightarrow> \<exists>j < length cs. selects seg (of_nat (Suc m + j)) (fst (cs ! j)) \<and>
         (\<forall>l < j. \<not> selects seg (of_nat (Suc m + l)) (fst (cs ! l))) \<and> denotes d cur (snd (cs ! j))
     | None \<Rightarrow> \<forall>j < length cs. \<not> selects seg (of_nat (Suc m + j)) (fst (cs ! j))"
      by (simp add: add.commute)
    show ?thesis
    proof (cases "pick seg (of_nat m + 1) (i + pad k + ntoks v + 1) cs")
      case None
      with IH False show ?thesis
        by (auto simp: kv less_Suc_eq_0_disj add_ac)
    next
      case (Some cur)
      with IH obtain j where j: "j < length cs" "selects seg (of_nat (Suc m + j)) (fst (cs ! j))"
        "\<forall>l < j. \<not> selects seg (of_nat (Suc m + l)) (fst (cs ! l))" "denotes d cur (snd (cs ! j))" by auto
      have "\<forall>l < Suc j. \<not> selects seg (of_nat (m + l)) (fst (((k, v) # cs) ! l))"
        using j(3) False by (auto simp: less_Suc_eq_0_disj add_ac)
      with j Some False show ?thesis
        by (auto simp: kv add_ac intro!: exI[of _ "Suc j"])
    qed
  qed
qed simp

lemma lex_tokens_length: "length (lex_tokens s n xs) \<le> length xs"
  by (induction xs arbitrary: s n) (auto intro: le_SucI)

lemma width_length: "length cs \<le> width cs + 1"
proof (induction cs)
  case (Cons kv cs)
  then show ?case by (cases kv) auto
qed simp

lemma children_bound:
  assumes "indexed d" "located (doc_buf d) s v" "is_container v"
  shows "length (children v) < 2 ^ 32"
proof -
  have "cend s v < length (indices d)"
    using container_layout(2)[OF assms] by (simp add: token_at_def)
  moreover have "length (indices d) \<le> length (doc_buf d) + 1"
    using assms(1) lex_tokens_length by (simp add: indexed_def tokens_def)
  ultimately show ?thesis
    using container_layout(6)[OF assms] width_length[of "children v"] assms(1)
    by (simp add: indexed_def)
qed

lemma map_of_first:
  assumes "j < length kvs" "fst (kvs ! j) = k" "\<forall>l < j. fst (kvs ! l) \<noteq> k"
  shows "map_of kvs k = Some (snd (kvs ! j))"
  using assms
proof (induction kvs arbitrary: j)
  case (Cons kv kvs)
  show ?case
  proof (cases j)
    case 0
    with Cons.prems show ?thesis by (cases kv) auto
  next
    case (Suc i)
    with Cons.prems(3) have "fst kv \<noteq> k" "\<forall>l < i. fst (kvs ! l) \<noteq> k" by auto
    with Suc Cons show ?thesis by (cases kv) auto
  qed
qed simp

lemma map_of_none: "\<forall>j < length kvs. fst (kvs ! j) \<noteq> k \<Longrightarrow> map_of kvs k = None"
  by (fastforce simp: map_of_eq_None_iff in_set_conv_nth)

text \<open>Segments fit the container: keys an object, indices an array.\<close>

definition fits :: "path_seg \<Rightarrow> json \<Rightarrow> bool" where
  "fits seg v \<longleftrightarrow> is_container v \<and> is_key seg = (opener v = 123)"

lemma pick_is_child:
  assumes ix: "indexed d" and loc: "located (doc_buf d) s v" and fit: "fits seg v"
  shows "case child v seg of
      Ok w \<Rightarrow> \<exists>cur. pick seg 0 (s + 1) (children v) = Some cur \<and> denotes d cur w
    | Err e \<Rightarrow> e = QJSON_NOT_FOUND \<and> pick seg 0 (s + 1) (children v) = None
    | Panic \<Rightarrow> False"
proof -
  have con: "is_container v" and op: "is_key seg = (opener v = 123)"
    using fit by (auto simp: fits_def)
  have "children v = [] \<or> children_at d (is_key seg) (s + 1) (children v) (closer v)"
    using container_layout(4)[OF ix loc con] op by auto
  note pk = pick_child[OF ix this, of 0, simplified]
  show ?thesis
  proof (cases v)
    case (JObject kvs)
    then obtain want where seg: "seg = Key want"
      using op by (cases seg) (auto simp: is_key_def opener_def)
    have sel: "selects seg n (fst (children v ! j)) \<longleftrightarrow> fst (kvs ! j) = want" if "j < length kvs" for n j
      using that by (auto simp: selects_def seg JObject split: prod.splits)
    show ?thesis
    proof (cases "pick seg 0 (s + 1) (children v)")
      case None
      with pk sel have "map_of kvs want = None"
        by (intro map_of_none) (auto simp: JObject)
      with None show ?thesis by (simp add: JObject seg)
    next
      case (Some cur)
      with pk obtain j where j: "j < length kvs" "selects seg (of_nat j) (fst (children v ! j))"
        "\<forall>l < j. \<not> selects seg (of_nat l) (fst (children v ! l))" "denotes d cur (snd (children v ! j))"
        by (auto simp: JObject)
      from j sel have "map_of kvs want = Some (snd (kvs ! j))"
        by (intro map_of_first) auto
      moreover have "snd (children v ! j) = snd (kvs ! j)"
        using j(1) by (simp add: JObject split_beta)
      ultimately show ?thesis using Some j(4) by (simp add: JObject seg)
    qed
  next
    case (JArray vs)
    then obtain want where seg: "seg = Idx want"
      using op by (cases seg) (auto simp: is_key_def opener_def)
    have len: "length vs < 2 ^ 32"
      using children_bound[OF ix loc con] by (simp add: JArray)
    have sel: "selects seg (of_nat j) k \<longleftrightarrow> j = unat want" if "j < length vs" for j k
      using that len unat_of_nat32[of j] by (auto simp: selects_def seg)
    show ?thesis
    proof (cases "pick seg 0 (s + 1) (children v)")
      case None
      with pk sel have "\<not> unat want < length vs" by (auto simp: JArray)
      with None show ?thesis by (simp add: JArray seg)
    next
      case (Some cur)
      with pk obtain j where j: "j < length vs" "selects seg (of_nat j) (fst (children v ! j))"
        "denotes d cur (snd (children v ! j))"
        by (auto simp: JArray)
      from j sel have "j = unat want" by auto
      with Some j show ?thesis by (simp add: JArray seg)
    qed
  qed (use con in auto)
qed

section \<open>Leaves\<close>

text \<open>A leaf in a document: the bytes its position points to.\<close>

lemma string_layout:
  assumes ix: "indexed d" and loc: "located (doc_buf d) s (JString body)"
  shows "token_at d s 34" "token_at d (s + 1) 34"
    "unat (indices d ! s) + 1 + length body = unat (indices d ! (s + 1))"
    "slice (unat (indices d ! s) + 1) (unat (indices d ! (s + 1))) (doc_buf d) = body"
    "json_string (34 # body @ [34])"
proof -
  from loc obtain pre t post where buf: "doc_buf d = pre @ t @ post" and t: "tree t (JString body)"
    and run: "lex_run Outside pre = Outside" and s: "s = count pre" by (rule located_text)
  from t have str: "json_string (34 # body @ [34])" and t: "t = 34 # body @ [34]"
    by (cases rule: tree.cases; simp)+
  show "json_string (34 # body @ [34])" by (rule str)
  have body: "unquoted body" using str by (rule json_string_unquoted)
  have buf1: "doc_buf d = pre @ 34 # body @ 34 # post" and buf2: "doc_buf d = (pre @ 34 # body) @ 34 # post"
    by (simp_all add: buf t)
  have "count (34 # body) = 1"
    using unquoted_tokens[OF body] by (simp add: count_def)
  then have cnt: "count (pre @ 34 # body) = s + 1"
    using run by (simp add: count_append s)
  have run2: "lex_run Outside (pre @ 34 # body) = Inside"
    using run body by (simp add: unquoted_def)
  note e1 = index_entry[OF ix buf1, unfolded run, simplified, folded s]
  note e2 = index_entry[OF ix buf2, unfolded run2 cnt, simplified]
  from e1 e2 show "token_at d s 34" "token_at d (s + 1) 34"
    by (auto simp: token_at_def slice_get_def split: if_splits)
  from e1 e2 show "unat (indices d ! s) + 1 + length body = unat (indices d ! (s + 1))" by simp
  from e1 e2 show "slice (unat (indices d ! s) + 1) (unat (indices d ! (s + 1))) (doc_buf d) = body"
    by (simp add: buf1 slice_def)
qed

text \<open>A scalar is the root, or sits before the token at its position.\<close>

lemma scalar_layout:
  assumes ix: "indexed d" and loc: "located (doc_buf d) s (JScalar t)"
  obtains (root) w w' where "doc_buf d = w @ t @ w'" "ws w" "ws w'" "json_scalar t" "s = 0" "indices d = [U32_MAX]"
    | (inner) p b w w' c r where "doc_buf d = p @ b # w @ t @ w' @ c # r" "ws w" "ws w'" "json_scalar t" "0 < s"
        "token_at d s c" "c = 44 \<or> c = 93 \<or> c = 125" "unat (indices d ! s) = length (p @ b # w @ t @ w')"
        "s - 1 < length (indices d)" "unat (indices d ! (s - 1)) = length p"
proof (cases "placed (doc_buf d) s (JScalar t)")
  case True
  then obtain pre t' post where buf: "doc_buf d = pre @ t' @ post" and pre: "opens_value pre"
    and tr: "tree t' (JScalar t)" and post: "closes_value post" and s: "s = count pre"
    unfolding placed_def by blast
  from tr have t: "t' = t" "json_scalar t" by (cases rule: tree.cases; simp)+
  from pre obtain p b w where p: "pre = p @ b # w" "lex_run Outside p = Outside" "b = 91 \<or> b = 44 \<or> b = 58" "ws w"
    unfolding opens_value_def by blast
  from post obtain w' c r where c: "post = w' @ c # r" "ws w'" "c = 44 \<or> c = 93 \<or> c = 125"
    unfolding closes_value_def by blast
  have run: "lex_run Outside (p @ b # w @ t @ w') = Outside"
    using p c(2) balanced_run[OF tree_balanced[OF tr]] t by auto
  have b: "is_structural b" "b \<noteq> 34" using p(3) by auto
  have cp: "count pre = Suc (count p)"
    using p b by (simp add: count_append count_structural)
  have "count (p @ b # w @ t @ w') = count pre"
    using p b c(2) t tree_count[OF tr] balanced_run[OF tree_balanced[OF tr]] by (simp add: count_append count_structural)
  moreover have buf2: "doc_buf d = (p @ b # w @ t @ w') @ c # r"
    by (simp add: buf p c t)
  ultimately have "token_at d s c" "unat (indices d ! s) = length (p @ b # w @ t @ w')"
    using token_atI[OF ix buf2 run, of s] index_entry(2)[OF ix buf2] run c(3) s by auto
  moreover have "doc_buf d = p @ b # (w @ t @ w' @ c # r)" by (simp add: buf2)
  from index_entry[OF ix this] p(2) b
  have "count p < length (indices d)" "unat (indices d ! count p) = length p" by simp_all
  ultimately show thesis
    using inner[of p b w w' c r] p(4) c(2,3) t(2) cp s buf2 by simp
next
  case False
  with loc have s: "s = 0" and "json_doc (doc_buf d) (JScalar t)" by (auto simp: located_def)
  then obtain w t' w' where buf: "doc_buf d = w @ t' @ w'" "ws w" "ws w'" and tr: "tree t' (JScalar t)"
    unfolding json_doc_def by blast
  from tr have t: "t' = t" "json_scalar t" by (cases rule: tree.cases; simp)+
  have "count (doc_buf d) = 0"
    using buf tree_count[OF tr] balanced_run[OF tree_balanced[OF tr]] by (simp add: count_append)
  then have "indices d = [U32_MAX]"
    using ix by (simp add: indexed_def count_def tokens_def)
  with root[of w w'] buf s t show thesis by simp
qed

lemma opener_of_located:
  assumes ix: "indexed d" and den: "denotes d cur v"
  shows "container_opener_byte d cur = (if is_container v then Some (opener v) else None)"
proof -
  from den have loc: "located (doc_buf d) (idx_start cur) v" by (simp add: denotes_def)
  have at_token: "container_opener_byte d cur = (if b = 123 \<or> b = 91 then Some b else None)"
    if "token_at d (idx_start cur) b" for b
    using token_at_outcome[OF that] that by (simp add: container_opener_byte_def token_at_def)
  show ?thesis
  proof (cases v)
    case (JScalar t)
    from ix loc[unfolded JScalar] show ?thesis
    proof (cases rule: scalar_layout)
      case root
      with ix have "\<not> unat U32_MAX < length (doc_buf d)" by (simp add: indexed_def)
      with root show ?thesis by (simp add: container_opener_byte_def slice_get_def JScalar)
    next
      case (inner p b w w' c r)
      from at_token[OF inner(6)] inner(7) show ?thesis by (auto simp: JScalar)
    qed
  next
    case (JString body)
    from at_token[OF string_layout(1)[OF ix loc[unfolded JString]]] show ?thesis by (simp add: JString)
  next
    case (JArray vs)
    from at_token[OF container_layout(1)[OF ix loc]] show ?thesis by (simp add: JArray opener_def)
  next
    case (JObject kvs)
    from at_token[OF container_layout(1)[OF ix loc]] show ?thesis by (simp add: JObject opener_def)
  qed
qed

section \<open>Documents with a consistent cache\<close>

text \<open>The children of \<open>v\<close> at position \<open>s\<close> as the cache stores them.\<close>

definition stored :: "nat \<Rightarrow> json \<Rightarrow> u32 list \<times> u32 list" where
  "stored s v = (map of_nat (starts_of (s + 1) (children v)), map of_nat (ends_of (s + 1) (children v)))"

definition cached_children :: "document \<Rightarrow> u32 \<Rightarrow> u32 list \<times> u32 list \<Rightarrow> bool" where
  "cached_children d k se \<longleftrightarrow> (\<forall>v. located (doc_buf d) (unat k) v \<and> is_container v \<longrightarrow> se = stored (unat k) v)"

text \<open>Positions of the index fit 32 bits.\<close>

lemma count_le: "count t \<le> length t"
  unfolding count_def by (rule lex_tokens_length)

lemma token_at_bound:
  assumes "indexed d" "token_at d j b"
  shows "j + 1 < 2 ^ 32"
proof -
  have "j \<noteq> count (doc_buf d)"
  proof
    assume "j = count (doc_buf d)"
    with assms have "indices d ! j = U32_MAX"
      by (simp add: indexed_def nth_append count_def tokens_def)
    with assms show False by (simp add: token_at_def indexed_def)
  qed
  moreover have "j < count (doc_buf d) + 1"
    using assms by (simp add: token_at_def indexed_def count_def tokens_def)
  ultimately show ?thesis
    using count_le[of "doc_buf d"] assms(1) by (simp add: indexed_def)
qed

lemma starts_ends_bound:
  "\<forall>x \<in> set (starts_of i cs) \<union> set (ends_of i cs). x \<le> i + width cs + 1"
  "length (starts_of i cs) = length cs" "length (ends_of i cs) = length cs"
proof -
  show "\<forall>x \<in> set (starts_of i cs) \<union> set (ends_of i cs). x \<le> i + width cs + 1"
  proof (induction cs arbitrary: i)
    case (Cons kv cs)
    obtain k v where kv: "kv = (k, v)" by (cases kv)
    have "cend (i + pad k) v \<le> i + pad k + ntoks v + 1" by (auto simp: cend_def)
    moreover have "\<forall>x \<in> set (starts_of (i + pad k + ntoks v + 1) cs) \<union> set (ends_of (i + pad k + ntoks v + 1) cs).
        x \<le> i + width (kv # cs) + 1" if "cs \<noteq> []"
      using Cons.IH[of "i + pad k + ntoks v + 1"] that by (simp add: kv add.assoc)
    ultimately show ?case by (cases "cs = []") (auto simp: kv)
  qed simp
  show "length (starts_of i cs) = length cs" "length (ends_of i cs) = length cs"
    by (induction cs arbitrary: i) auto
qed

lemma stored_length: "length (fst (stored s v)) = length (snd (stored s v))"
  by (simp add: stored_def starts_ends_bound)

lemma stored_exact:
  assumes ix: "indexed d" and loc: "located (doc_buf d) s v" and con: "is_container v"
  shows "unat (of_nat s :: u32) = s" "(of_nat s :: u32) \<noteq> U32_MAX"
    "map unat (fst (stored s v)) = starts_of (s + 1) (children v)"
    "map unat (snd (stored s v)) = ends_of (s + 1) (children v)"
proof -
  have s: "s + 1 < 2 ^ 32" by (rule token_at_bound[OF ix container_layout(1)[OF ix loc con]])
  then show *: "unat (of_nat s :: u32) = s" by (simp add: unat_of_nat32)
  show "(of_nat s :: u32) \<noteq> U32_MAX"
  proof
    assume "(of_nat s :: u32) = U32_MAX"
    then have "s = unat U32_MAX" using * by simp
    with s show False by simp
  qed
  have "cend s v + 1 < 2 ^ 32" by (rule token_at_bound[OF ix container_layout(2)[OF ix loc con]])
  with container_layout(6)[OF ix loc con] have "s + 1 + width (children v) + 1 < 2 ^ 32" by simp
  with starts_ends_bound(1)[of "s + 1" "children v"]
  have "\<forall>x \<in> set (starts_of (s + 1) (children v)) \<union> set (ends_of (s + 1) (children v)). x < 2 ^ 32"
    by (meson le_less_trans)
  then have "\<forall>x \<in> set (starts_of (s + 1) (children v)) \<union> set (ends_of (s + 1) (children v)). unat (of_nat x :: u32) = x"
    by (simp add: unat_of_nat32)
  then show "map unat (fst (stored s v)) = starts_of (s + 1) (children v)"
    "map unat (snd (stored s v)) = ends_of (s + 1) (children v)"
    by (auto simp: stored_def intro!: map_idI)
qed

definition doc_inv :: "document \<Rightarrow> bool" where
  "doc_inv d \<longleftrightarrow> indexed d \<and> skip.entries (cached_children d) (skip d)"

text \<open>Only the cache may differ.\<close>

definition same_text :: "document \<Rightarrow> document \<Rightarrow> bool" where
  "same_text d d' \<longleftrightarrow> d' = d\<lparr>skip := skip d'\<rparr>"

lemma same_text_refl [simp]: "same_text d d"
  by (simp add: same_text_def)

lemma same_text_trans: "same_text d d' \<Longrightarrow> same_text d' d'' \<Longrightarrow> same_text d d''"
  by (cases d; cases d'; cases d'') (auto simp: same_text_def)

lemma same_text_sel:
  assumes "same_text d d'"
  shows "doc_buf d' = doc_buf d" "indices d' = indices d" "eager_validated d' = eager_validated d"
    "scratch d' = scratch d" "last_error_offset d' = last_error_offset d"
  using assms by (cases d; cases d'; auto simp: same_text_def)+

lemma same_text_denotes: "same_text d d' \<Longrightarrow> denotes d' cur v = denotes d cur v"
  by (simp add: denotes_def same_text_sel)

lemma doc_new_inv: "length buf < 2 ^ 32 \<Longrightarrow> doc_inv (document_new buf (offsets (tokens buf) @ [U32_MAX]) e)"
  by (simp add: doc_inv_def indexed_def document_new_def skip.entries_empty)

lemma store_children_ok:
  assumes inv: "doc_inv d" and loc: "located (doc_buf d) s v" "is_container v"
    and se: "cached_children d (of_nat s) (stored s v)"
  shows "\<exists>d'. store_children d s (starts_of (s + 1) (children v)) (ends_of (s + 1) (children v)) r =
      (case r of Some c \<Rightarrow> Ok c | None \<Rightarrow> Err QJSON_NOT_FOUND, d') \<and>
    doc_inv d' \<and> same_text d d'"
proof -
  from inv have ent: "cache_inv (skip d)" "\<And>j x. cache_lookup (skip d) j = Some x \<Longrightarrow> cached_children d j x"
    and ix: "indexed d" by (auto simp: doc_inv_def skip.entries_def)
  from cache_insert_lookup[OF ent(1) stored_exact(2)[OF ix loc] stored_length[of s v], where ?'a = qjson_err]
  obtain c where c: "cache_insert (skip d) (of_nat s) (fst (stored s v)) (snd (stored s v)) = (Ok c :: (skip_cache, qjson_err) outcome)"
    "cache_inv c" "\<forall>j. cache_lookup c j = (if j = of_nat s then Some (stored s v) else cache_lookup (skip d) j)" by auto
  have "cached_children (d\<lparr>skip := c\<rparr>) = cached_children d"
    by (simp add: cached_children_def fun_eq_iff)
  with c ent se have "skip.entries (cached_children (d\<lparr>skip := c\<rparr>)) c"
    by (auto simp: skip.entries_def split: if_splits)
  with c(1) inv show ?thesis
    by (auto simp: store_children_def doc_inv_def indexed_def same_text_def stored_def)
qed

text \<open>What a cold walk stores is what any tree at that position has as children.\<close>

lemma cold_walk:
  assumes ix: "indexed d" and loc: "located (doc_buf d) s v" and fit: "fits seg v" and ne: "children v \<noteq> []"
  shows "walk_loop d seg (cend s v) (s + 1) 0 [] [] None =
    Ok (starts_of (s + 1) (children v), ends_of (s + 1) (children v), pick seg 0 (s + 1) (children v))"
proof -
  from fit have con: "is_container v" and op: "is_key seg = (opener v = 123)" by (auto simp: fits_def)
  from container_layout(4)[OF ix loc con ne] op
  have "children_at d (is_key seg) (s + 1) (children v) (closer v)" by simp
  from walk_loop_children[OF ix this ne container_layout(6)[OF ix loc con], of 0 "[]" "[]" None]
  show ?thesis by simp
qed

lemma token_at_unique: "token_at d s b \<Longrightarrow> token_at d s b' \<Longrightarrow> b = b'"
  by (simp add: token_at_def)

lemma opener_injective:
  assumes ix: "indexed d" and v: "located (doc_buf d) s v" "is_container v" and w: "located (doc_buf d) s w" "is_container w"
  shows "opener w = opener v" "cend s w = cend s v" "(children w = []) = (children v = [])"
proof -
  show "opener w = opener v"
    using container_layout(1)[OF ix v] container_layout(1)[OF ix w] by (rule token_at_unique[symmetric])
  show ce: "cend s w = cend s v"
    using container_layout(5)[OF ix v] container_layout(5)[OF ix w] by simp
  show "(children w = []) = (children v = [])"
    using container_layout(3)[OF ix v] container_layout(3)[OF ix w] by (simp add: ce)
qed

lemma cold_walk_cached:
  assumes ix: "indexed d" and loc: "located (doc_buf d) s v" and fit: "fits seg v"
  shows "cached_children d (of_nat s) (stored s v)"
  unfolding cached_children_def
proof (intro allI impI)
  from fit have con: "is_container v" by (simp add: fits_def)
  fix w assume "located (doc_buf d) (unat (of_nat s :: u32)) w \<and> is_container w"
  then have w: "located (doc_buf d) s w" "is_container w" by (simp_all add: stored_exact(1)[OF ix loc con])
  note same = opener_injective[OF ix loc con w]
  have fitw: "fits seg w" using fit w same(1) by (simp add: fits_def)
  have "stored s v = stored s w"
  proof (cases "children v = []")
    case True
    with same(3) show ?thesis by (simp add: stored_def)
  next
    case False
    with same(3) have "children w \<noteq> []" by simp
    from cold_walk[OF ix w(1) fitw this] cold_walk[OF ix loc fit False] same(2)
    show ?thesis by (simp add: stored_def)
  qed
  then show "stored s v = stored (unat (of_nat s :: u32)) w" by (simp add: stored_exact(1)[OF ix loc con])
qed

section \<open>One step\<close>

definition agrees :: "document \<Rightarrow> (json, qjson_err) outcome \<Rightarrow> (cursor, qjson_err) outcome \<Rightarrow> bool" where
  "agrees d spec r \<longleftrightarrow>
     (case spec of Ok w \<Rightarrow> \<exists>cur. r = Ok cur \<and> denotes d cur w | Err e \<Rightarrow> r = Err e | Panic \<Rightarrow> False)"

lemma agrees_pick:
  assumes "indexed d" "located (doc_buf d) s v" "fits seg v"
  shows "agrees d (child v seg)
    (case pick seg 0 (s + 1) (children v) of Some cur \<Rightarrow> Ok cur | None \<Rightarrow> Err QJSON_NOT_FOUND)"
  using pick_is_child[OF assms] by (auto simp: agrees_def split: outcome.splits)

lemma walk_children_pick:
  assumes inv: "doc_inv d" and den: "denotes d cur v" and fit: "fits seg v"
  shows "\<exists>d'. walk_children d cur seg =
      (case pick seg 0 (idx_start cur + 1) (children v) of Some c \<Rightarrow> Ok c | None \<Rightarrow> Err QJSON_NOT_FOUND, d') \<and>
    doc_inv d' \<and> same_text d d'"
proof -
  define s where "s = idx_start cur"
  have ix: "indexed d" and ent: "skip.entries (cached_children d) (skip d)"
    using inv by (simp_all add: doc_inv_def)
  have loc: "located (doc_buf d) s v" and ce: "idx_end cur = cend s v"
    using den by (simp_all add: denotes_def s_def)
  have con: "is_container v" and op: "is_key seg = (opener v = 123)" using fit by (simp_all add: fits_def)
  have cur: "cur = cursor_at s (cend s v)" by (simp add: cursor_at_def s_def ce[unfolded s_def, symmetric])
  note emp = container_layout(3)[OF ix loc con, folded cur]
  show ?thesis
  proof (cases "cache_get (skip d) (of_nat s)")
    case None
    note store = store_children_ok[OF inv loc con cold_walk_cached[OF ix loc fit]]
    show ?thesis
    proof (cases "children v = []")
      case True
      with store[of None] obtain d' where
        "store_children d s [] [] None = (Err QJSON_NOT_FOUND, d')" "doc_inv d'" "same_text d d'" by auto
      with None emp True show ?thesis
        by (simp add: walk_children_def s_def[symmetric])
    next
      case False
      from store[of "pick seg 0 (s + 1) (children v)"]
      obtain d' where "store_children d s (starts_of (s + 1) (children v)) (ends_of (s + 1) (children v))
          (pick seg 0 (s + 1) (children v)) =
          (case pick seg 0 (s + 1) (children v) of Some c \<Rightarrow> Ok c | None \<Rightarrow> Err QJSON_NOT_FOUND, d')"
        "doc_inv d'" "same_text d d'" by blast
      with None emp False cold_walk[OF ix loc fit False] show ?thesis
        by (simp add: walk_children_def s_def[symmetric] ce)
    qed
  next
    case (Some n)
    have ci: "cache_inv (skip d)" using ent by (simp add: skip.entries_def)
    from cache_slot_lookup[OF ci Some, where ?'a = qjson_err] obtain slot where
      slot: "cache_slot (skip d) n = (Ok slot :: (skip_slot, qjson_err) outcome)"
        "cache_lookup (skip d) (of_nat s) = Some (child_starts slot, child_ends slot)" by blast
    note exact = stored_exact[OF ix loc con]
    from ent slot(2) have "cached_children d (of_nat s) (child_starts slot, child_ends slot)"
      by (auto simp: skip.entries_def)
    with loc con exact(1) have "stored s v = (child_starts slot, child_ends slot)"
      by (simp add: cached_children_def)
    with exact(3,4) have se: "map unat (child_starts slot) = starts_of (s + 1) (children v)"
      "map unat (child_ends slot) = ends_of (s + 1) (children v)" by simp_all
    have "children v = [] \<or> children_at d (is_key seg) (s + 1) (children v) (closer v)"
      using container_layout(4)[OF ix loc con] op by auto
    from known_children[OF ix this, of 0] Some slot(1) se inv show ?thesis
      by (simp add: walk_children_def resolve_in_known_children_def s_def[symmetric] del: and_then_eq_Ok)
  qed
qed

lemma step_pick:
  assumes inv: "doc_inv d" and den: "denotes d cur v" and fit: "fits seg v"
  shows "\<exists>d'. step d cur seg =
      (case pick seg 0 (idx_start cur + 1) (children v) of Some c \<Rightarrow> Ok c | None \<Rightarrow> Err QJSON_NOT_FOUND, d') \<and>
    doc_inv d' \<and> same_text d d'"
proof -
  have ix: "indexed d" using inv by (simp add: doc_inv_def)
  have "step d cur seg = walk_children d cur seg"
    using opener_of_located[OF ix den] fit bracket_bytes(3)[of v] by (auto simp: step_def fits_def)
  with walk_children_pick[OF assms] show ?thesis by simp
qed

lemma child_mismatch: "\<not> fits seg v \<Longrightarrow> child v seg = Err QJSON_TYPE_MISMATCH"
  by (cases v; cases seg) (auto simp: fits_def is_key_def opener_def)

lemma step_ok:
  assumes inv: "doc_inv d" and den: "denotes d cur v"
  shows "\<exists>r d'. step d cur seg = (r, d') \<and> agrees d (child v seg) r \<and> doc_inv d' \<and> same_text d d'"
proof -
  have ix: "indexed d" using inv by (simp add: doc_inv_def)
  note op = opener_of_located[OF ix den]
  show ?thesis
  proof (cases "fits seg v")
    case True
    have "located (doc_buf d) (idx_start cur) v" using den by (simp add: denotes_def)
    from step_pick[OF inv den True] agrees_pick[OF ix this True] show ?thesis by auto
  next
    case False
    then have "step d cur seg = (Err QJSON_TYPE_MISMATCH, d)"
      using op bracket_bytes(3)[of v] by (auto simp: step_def fits_def)
    with child_mismatch[OF False] inv show ?thesis by (simp add: agrees_def)
  qed
qed

section \<open>Paths\<close>

text \<open>Path access on trees, reading the path one segment at a time like the code.\<close>

function lookup_path :: "json \<Rightarrow> bytes \<Rightarrow> (json, qjson_err) outcome" where
  "lookup_path v path =
     (case path_next path of
        (None, _) \<Rightarrow> Ok v
      | (Some (Ok seg), rest) \<Rightarrow> and_then (child v seg) (\<lambda>w. lookup_path w rest)
      | (Some (Err e), _) \<Rightarrow> Err e
      | (Some Panic, _) \<Rightarrow> Panic)"
  by pat_completeness auto
termination
  by (relation "measure (\<lambda>(v, path). length path)") (auto dest: path_next_progress[OF sym])

declare lookup_path.simps [simp del]

lemma lookup_path_segs: "parse_path path = Ok segs \<Longrightarrow> lookup_path v path = lookup v segs"
proof (induction v path arbitrary: segs rule: lookup_path.induct)
  case (1 v path)
  from "1.prems" show ?case
    by (auto simp: parse_path.simps[of path] lookup_path.simps[of v path] intro!: and_then_cong "1.IH"
        split: prod.splits option.splits outcome.splits)
qed

lemma resolve_ok:
  assumes "doc_inv d" "denotes d cur v"
  shows "\<exists>r d'. resolve d cur path = (r, d') \<and> agrees d (lookup_path v path) r \<and> doc_inv d' \<and> same_text d d'"
  using assms
proof (induction d cur path arbitrary: v rule: resolve.induct)
  case (1 d cur path)
  note unfold = resolve.simps[of d cur path] lookup_path.simps[of v path]
  obtain x rest where next_seg: "path_next path = (x, rest)" by (cases "path_next path")
  consider "x = None" | e where "x = Some (Err e)" | seg where "x = Some (Ok seg)"
    using path_next_no_panic[of path rest] next_seg by (metis option.exhaust outcome.exhaust)
  then show ?case
  proof cases
    case 1
    with next_seg "1.prems" show ?thesis by (simp add: unfold agrees_def)
  next
    case (2 e)
    with next_seg "1.prems" show ?thesis by (simp add: unfold agrees_def)
  next
    case (3 seg)
    from step_ok[OF "1.prems"] obtain r d1 where st: "step d cur seg = (r, d1)" "agrees d (child v seg) r"
      "doc_inv d1" "same_text d d1" by blast
    show ?thesis
    proof (cases "child v seg")
      case (Ok w)
      with st(2) obtain cur1 where r: "r = Ok cur1" "denotes d cur1 w" by (auto simp: agrees_def)
      with st(4) have den: "denotes d1 cur1 w" by (simp add: same_text_denotes)
      have "resolve d cur path = resolve d1 cur1 rest"
        using next_seg 3 st(1) r(1) by (simp add: unfold)
      moreover have "lookup_path v path = lookup_path w rest"
        using next_seg 3 Ok by (simp add: unfold)
      moreover from "1.IH"[OF next_seg[symmetric] 3 refl st(1)[unfolded r(1), symmetric] refl st(3) den]
      obtain r' d' where "resolve d1 cur1 rest = (r', d')" "agrees d1 (lookup_path w rest) r'" "doc_inv d'" "same_text d1 d'"
        by blast
      moreover have "agrees d1 spec r' = agrees d spec r'" for spec r'
        by (simp add: agrees_def same_text_denotes[OF st(4)] split: outcome.split)
      ultimately show ?thesis
        using same_text_trans[OF st(4)] by auto
    next
      case (Err e)
      with st next_seg 3 show ?thesis by (simp add: unfold agrees_def)
    next
      case Panic
      with st(2) show ?thesis by (simp add: agrees_def)
    qed
  qed
qed

text \<open>The root cursor denotes the root of the tree.\<close>

lemma indices_length: "indexed d \<Longrightarrow> length (indices d) = count (doc_buf d) + 1"
  by (simp add: indexed_def count_def tokens_def)

lemma json_doc_count:
  assumes "json_doc buf v"
  shows "count buf = ntoks v" "lex_run Outside buf = Outside"
  using assms unfolding json_doc_def
  by (auto simp: count_append tree_count balanced_run[OF tree_balanced])

lemma root_denotes:
  assumes ix: "indexed d" and doc: "json_doc (doc_buf d) v"
  shows "denotes d (cursor_root d) v"
proof -
  from doc have loc: "located (doc_buf d) 0 v" by (simp add: located_def)
  have len: "length (indices d) = ntoks v + 1"
    using indices_length[OF ix] json_doc_count(1)[OF doc] by simp
  have small: "length (doc_buf d) < 2 ^ 32" using ix by (simp add: indexed_def)
  have not_max: "slice_get (indices d) 0 \<noteq> Some U32_MAX" if "token_at d 0 b" for b
  proof
    assume "slice_get (indices d) 0 = Some U32_MAX"
    then have "indices d ! 0 = U32_MAX" by (simp add: slice_get_def split: if_splits)
    with that small show False by (simp add: token_at_def)
  qed
  show ?thesis
  proof (cases v)
    case (JScalar t)
    from ix loc[unfolded JScalar] show ?thesis
    proof (cases rule: scalar_layout)
      case root
      with loc JScalar show ?thesis
        by (simp add: cursor_root_def slice_get_def denotes_def cursor_at_def cend_def)
    qed simp
  next
    case (JString body)
    from not_max[OF string_layout(1)[OF ix loc[unfolded JString]]] loc len JString show ?thesis
      by (simp add: cursor_root_def denotes_def cursor_at_def cend_def)
  next
    case (JArray vs)
    from JArray have "is_container v" by simp
    from not_max[OF container_layout(1)[OF ix loc this]] loc len JArray show ?thesis
      by (simp add: cursor_root_def denotes_def cursor_at_def cend_def)
  next
    case (JObject kvs)
    from JObject have "is_container v" by simp
    from not_max[OF container_layout(1)[OF ix loc this]] loc len JObject show ?thesis
      by (simp add: cursor_root_def denotes_def cursor_at_def cend_def)
  qed
qed

section \<open>Counting and numbering children\<close>

lemma len_loop_children:
  assumes ix: "indexed d"
  shows "children_at d obj i cs c \<Longrightarrow> cs \<noteq> [] \<Longrightarrow> end_idx = i + width cs \<Longrightarrow>
    len_loop d obj end_idx n i = Ok (n + length cs)"
proof (induction cs arbitrary: i n)
  case (Cons kv cs)
  obtain k v where kv: "kv = (k, v)" by (cases kv)
  note ch = Cons.prems(1)[unfolded kv]
  note st = children_at_step[OF ix ch]
  have vi: "(if obj then i + 3 else i) = i + pad k"
    using st(1) by (rule is_key_pad)
  note sp = placed_span[OF ix st(2)]
  show ?case
  proof (cases "cs = []")
    case True
    with st(4) have tok: "token_at d (i + pad k + ntoks v) c" by simp
    from ch have c: "c \<noteq> 44" "c = 125 \<or> c = 93" by (auto simp: children_at_def)
    show ?thesis
      using c True by (subst len_loop.simps) (simp add: Let_def vi sp token_at_outcome[OF tok] kv del: and_then_eq_Ok)
  next
    case False
    with st(4) have tok: "token_at d (i + pad k + ntoks v) 44" by simp
    have e: "end_idx = i + pad k + ntoks v + 1 + width cs"
      using Cons.prems(3) False by (simp add: kv)
    have "len_loop d obj end_idx n i = len_loop d obj end_idx (n + 1) (i + pad k + ntoks v + 1)"
      using e by (subst len_loop.simps) (simp add: Let_def vi sp token_at_outcome[OF tok] del: and_then_eq_Ok)
    with Cons.IH[OF st(5)[OF False] False e, of "n + 1"] show ?thesis by simp
  qed
qed simp

lemma entry_loop_children:
  assumes ix: "indexed d"
  shows "children_at d True i cs c \<Longrightarrow> cs \<noteq> [] \<Longrightarrow> c = 125 \<Longrightarrow> end_idx = i + width cs \<Longrightarrow> m \<le> n \<Longrightarrow>
    (if n - m < length cs
     then \<exists>p cur key w. entry_loop d end_idx n m i = Ok (p, cur) \<and> cs ! (n - m) = (Some key, w) \<and>
       (\<forall>checked. key_bytes d checked p = Ok key) \<and> denotes d cur w \<and> cur = child_cursor i cs (n - m)
     else entry_loop d end_idx n m i = Err QJSON_NOT_FOUND)"
proof (induction cs arbitrary: i m)
  case (Cons kv cs)
  obtain k v where kv: "kv = (k, v)" by (cases kv)
  note ch = Cons.prems(1)[unfolded kv]
  note st = children_at_step[OF ix ch]
  from st(1) obtain key where key: "k = Some key" by auto
  then have vi: "i + 3 = i + pad k" by simp
  note sp = placed_span[OF ix st(2)]
  show ?case
  proof (cases "m = n")
    case True
    then have "entry_loop d end_idx n m i = Ok (i, cursor_at (i + pad k) (cend (i + pad k) v))"
      by (subst entry_loop.simps) (simp add: Let_def vi sp del: and_then_eq_Ok)
    moreover have "denotes d (cursor_at (i + pad k) (cend (i + pad k) v)) v"
      using st(2) by (simp add: denotes_def cursor_at_def located_def)
    moreover have "key_bytes d checked i = Ok key" for checked
      using key by (rule st(3))
    ultimately show ?thesis
      using True by (simp add: kv key)
  next
    case ne: False
    show ?thesis
    proof (cases "cs = []")
      case True
      with st(4) have tok: "token_at d (i + pad k + ntoks v) c" by simp
      from True ne Cons.prems(3,5) show ?thesis
        by (subst entry_loop.simps) (simp add: Let_def vi sp token_at_outcome[OF tok] kv del: and_then_eq_Ok)
    next
      case False
      with st(4) have tok: "token_at d (i + pad k + ntoks v) 44" by simp
      have e: "end_idx = i + pad k + ntoks v + 1 + width cs"
        using Cons.prems(4) False by (simp add: kv)
      have step: "entry_loop d end_idx n m i = entry_loop d end_idx n (m + 1) (i + pad k + ntoks v + 1)"
        using e ne by (subst entry_loop.simps) (simp add: Let_def vi sp token_at_outcome[OF tok] del: and_then_eq_Ok)
      have n: "n - m = Suc (n - (m + 1))" and le: "m + 1 \<le> n"
        using Cons.prems(5) ne by simp_all
      from n Cons.IH[OF st(5)[OF False] False Cons.prems(3) e le] show ?thesis
        by (simp only: step kv nth_Cons_Suc child_cursor.simps list.size(4) add_Suc_right Suc_less_eq add_0_right One_nat_def)
    qed
  qed
qed simp

lemma not_root_scalar:
  assumes "indexed d" "located (doc_buf d) (idx_start cur) v" "token_at d (idx_start cur) b"
  shows "\<not> is_root_scalar_cursor d cur"
proof
  assume r: "is_root_scalar_cursor d cur"
  then have "indices d ! idx_start cur = U32_MAX" by (simp add: is_root_scalar_cursor_def)
  with assms(1,3) show False by (simp add: token_at_def indexed_def)
qed

text \<open>The token a denoting cursor points to, or the sentinel of a root scalar.\<close>

lemma denoted_token:
  assumes ix: "indexed d" and den: "denotes d cur v"
  obtains (root_scalar) t where "v = JScalar t" "idx_start cur = 0" "indices d = [U32_MAX]" "is_root_scalar_cursor d cur"
    | (token) b where "token_at d (idx_start cur) b" "\<not> is_root_scalar_cursor d cur"
        "b = (case v of JScalar _ \<Rightarrow> b | JString _ \<Rightarrow> 34 | _ \<Rightarrow> opener v)" "\<not> is_container v \<Longrightarrow> b \<noteq> 123 \<and> b \<noteq> 91"
        "\<exists>t. v = JScalar t \<Longrightarrow> b = 44 \<or> b = 93 \<or> b = 125"
proof -
  from den have loc: "located (doc_buf d) (idx_start cur) v" by (simp add: denotes_def)
  show thesis
  proof (cases v)
    case (JScalar t)
    from ix loc[unfolded JScalar] show thesis
    proof (cases rule: scalar_layout)
      case root
      then show thesis by (intro root_scalar[OF JScalar]) (simp_all add: is_root_scalar_cursor_def)
    next
      case (inner p b w w' c r)
      from not_root_scalar[OF ix loc inner(6)] inner(6,7) JScalar show thesis by (intro token[of c]) auto
    qed
  next
    case (JString body)
    note tok = string_layout(1)[OF ix loc[unfolded JString]]
    from not_root_scalar[OF ix loc tok] tok JString show thesis by (intro token[of 34]) auto
  next
    case (JArray vs)
    then have "is_container v" by simp
    note tok = container_layout(1)[OF ix loc this]
    from not_root_scalar[OF ix loc tok] tok JArray show thesis by (intro token[of "opener v"]) auto
  next
    case (JObject vs)
    then have "is_container v" by simp
    note tok = container_layout(1)[OF ix loc this]
    from not_root_scalar[OF ix loc tok] tok JObject show thesis by (intro token[of "opener v"]) auto
  qed
qed

lemma cursor_len_ok:
  assumes ix: "indexed d" and den: "denotes d cur v"
  shows "cursor_len d cur = (if is_container v then Ok (length (children v)) else Err QJSON_TYPE_MISMATCH)"
  using ix den
proof (cases rule: denoted_token)
  case (token b)
  from den have loc: "located (doc_buf d) (idx_start cur) v" and ce: "idx_end cur = cend (idx_start cur) v"
    by (simp_all add: denotes_def)
  have cur: "cur = cursor_at (idx_start cur) (cend (idx_start cur) v)" by (simp add: cursor_at_def ce[symmetric])
  note tok = token_at_outcome[OF token(1)]
  show ?thesis
  proof (cases "is_container v")
    case False
    with token show ?thesis by (simp add: cursor_len_def ok_or_def tok del: and_then_eq_Ok)
  next
    case con: True
    with token(3) have b: "b = opener v" by (cases v) auto
    note lay = container_layout[OF ix loc con]
    note emp = lay(3)[folded cur]
    show ?thesis
    proof (cases "children v = []")
      case True
      with token(2) b emp con bracket_bytes(3)[of v] show ?thesis
        by (auto simp: cursor_len_def ok_or_def tok simp del: and_then_eq_Ok)
    next
      case False
      from len_loop_children[OF ix lay(4)[OF False] False, of "cend (idx_start cur) v" 0] lay(6)
      have "len_loop d (opener v = 123) (idx_end cur) 0 (idx_start cur + 1) = Ok (length (children v))"
        by (simp add: ce)
      with token(2) b emp con False bracket_bytes(3)[of v] show ?thesis
        by (auto simp: cursor_len_def ok_or_def tok simp del: and_then_eq_Ok)
    qed
  qed
qed (simp add: cursor_len_def)

lemma nth_object_entry_ok:
  assumes ix: "indexed d" and den: "denotes d cur v"
  shows "case v of
      JObject kvs \<Rightarrow>
        if n < length kvs
        then \<exists>p c. nth_object_entry d cur n = Ok (p, c) \<and>
          (\<forall>checked. key_bytes d checked p = Ok (fst (kvs ! n))) \<and> denotes d c (snd (kvs ! n)) \<and>
          c = child_cursor (idx_start cur + 1) (children v) n
        else nth_object_entry d cur n = Err QJSON_NOT_FOUND
    | _ \<Rightarrow> nth_object_entry d cur n = Err QJSON_TYPE_MISMATCH"
  using ix den
proof (cases rule: denoted_token)
  case (token b)
  from den have loc: "located (doc_buf d) (idx_start cur) v" and ce: "idx_end cur = cend (idx_start cur) v"
    by (simp_all add: denotes_def)
  have cur: "cur = cursor_at (idx_start cur) (cend (idx_start cur) v)" by (simp add: cursor_at_def ce[symmetric])
  note tok = token_at_outcome[OF token(1)]
  show ?thesis
  proof (cases v)
    case (JObject kvs)
    then have con: "is_container v" and op: "opener v = 123" and b: "b = 123"
      using token(3) by (simp_all add: opener_def)
    note lay = container_layout[OF ix loc con]
    note emp = lay(3)[folded cur]
    have entry: "nth_object_entry d cur n = (if kvs = [] then Err QJSON_NOT_FOUND
        else entry_loop d (idx_end cur) n 0 (idx_start cur + 1))"
      using token(2) b emp JObject by (simp add: nth_object_entry_def ok_or_def tok del: and_then_eq_Ok)
    show ?thesis
    proof (cases "kvs = []")
      case True
      with entry JObject show ?thesis by simp
    next
      case False
      then have ne: "children v \<noteq> []" using JObject by simp
      have ch: "children_at d True (idx_start cur + 1) (children v) (closer v)" "closer v = 125"
        using lay(4)[OF ne] op by (simp_all add: JObject closer_def)
      from entry_loop_children[OF ix ch(1) ne ch(2), of "idx_end cur" 0 n] lay(6) False
      show ?thesis by (auto simp: ce JObject entry split_beta)
    qed
  qed (use token in \<open>auto simp: nth_object_entry_def ok_or_def opener_def tok simp del: and_then_eq_Ok\<close>)
qed (simp add: nth_object_entry_def)

end
