(* ===== verification/Ffi.thy ===== *)
theory Ffi
  imports Cursor Decode_String Errors
begin

text \<open>
  \<open>src/ffi.rs\<close>, the C interface. A \<open>qjson_doc*\<close> is an address or null; the live documents are a
  heap. An operation returns the code, what it wrote through its out pointers (\<open>None\<close>: nothing)
  and the heap. A pointer that is neither null nor live breaks the caller's contract; the model
  then has no meaningful result (it returns \<open>Panic\<close>).

  An out pointer is null or writable, a \<open>bool\<close> argument. A path is null with a length or points
  to its bytes.
\<close>

section \<open>Codes and messages\<close>

definition err_from_i32 :: "int \<Rightarrow> qjson_err option" where
  "err_from_i32 code =
     (if code = 0 then Some QJSON_OK else if code = 1 then Some QJSON_PARSE_ERROR
      else if code = 2 then Some QJSON_NOT_FOUND else if code = 3 then Some QJSON_TYPE_MISMATCH
      else if code = 4 then Some QJSON_OUT_OF_RANGE else if code = 5 then Some QJSON_DECODE_FAILED
      else if code = 6 then Some QJSON_INVALID_PATH else if code = 7 then Some QJSON_INVALID_ARG
      else if code = 8 then Some QJSON_OOM else if code = 9 then Some QJSON_NESTING_TOO_DEEP
      else if code = 10 then Some QJSON_TRAILING_CONTENT
      else if code = 11 then Some QJSON_NUMBER_OUT_OF_RANGE
      else if code = 12 then Some QJSON_INVALID_NUMBER
      else if code = 13 then Some QJSON_INVALID_STRING
      else if code = 14 then Some QJSON_INVALID_UTF8 else None)"

text \<open>The static messages, without the terminating NUL.\<close>

definition qjson_strerror :: "int \<Rightarrow> string" where
  "qjson_strerror code =
     (if code = 0 then ''ok'' else if code = 1 then ''JSON parse error''
      else if code = 2 then ''path not found'' else if code = 3 then ''type mismatch at path''
      else if code = 4 then ''numeric out of range'' else if code = 5 then ''decode failed''
      else if code = 6 then ''invalid path syntax'' else if code = 7 then ''invalid argument''
      else if code = 8 then ''out of memory'' else if code = 9 then ''nesting depth exceeds limit''
      else if code = 10 then ''trailing content after root value''
      else if code = 11 then ''number out of representable range''
      else if code = 12 then ''invalid number format (RFC 8259)''
      else if code = 13 then ''invalid string content (unescaped control char)''
      else if code = 14 then ''invalid UTF-8 in string''
      else ''unknown error code'')"

datatype c_slice = Null nat | Bytes bytes

fun slice_bytes :: "c_slice \<Rightarrow> bytes" where
  "slice_bytes (Null n) = []"
| "slice_bytes (Bytes b) = b"

text \<open>A null pointer with a length that is not 0.\<close>

fun null_with_length :: "c_slice \<Rightarrow> bool" where
  "null_with_length (Null n) = (n \<noteq> 0)"
| "null_with_length (Bytes b) = False"

text \<open>
  The message is copied, with its NUL, only if the buffer of \<open>out_len\<close> bytes (null: \<open>None\<close>) has
  room for both; the length is returned either way.
\<close>

definition qjson_format_error ::
  "int \<Rightarrow> nat \<Rightarrow> nat \<Rightarrow> c_slice \<Rightarrow> nat option \<Rightarrow> nat \<times> string option" where
  "qjson_format_error code offset extra buf out =
     (let input = slice_bytes buf;
          msg = (case err_from_i32 code of
                   Some err \<Rightarrow> format_error err offset extra input
                 | None \<Rightarrow> ''unknown error code'');
          needed = length msg in
      (needed,
       case out of
         None \<Rightarrow> None
       | Some out_len \<Rightarrow> if out_len \<le> needed then None else Some (msg @ [CHR 0x00])))"

section \<open>The heap of documents\<close>

type_synonym heap = "nat \<Rightarrow> document option"

text \<open>What an exported function returns: \<open>ffi_catch\<close> turns a panic into \<open>QJSON_OOM\<close>.\<close>

type_synonym 'a c_ret = "int \<times> 'a option \<times> heap"

definition ffi_catch :: "('a, qjson_err) outcome \<times> heap \<Rightarrow> 'a c_ret" where
  "ffi_catch r =
     (case r of
        (Ok v, h) \<Rightarrow> (err_code QJSON_OK, Some v, h)
      | (Err e, h) \<Rightarrow> (err_code e, None, h)
      | (Panic, h) \<Rightarrow> (err_code QJSON_OOM, None, h))"

definition on_doc :: "heap \<Rightarrow> nat \<Rightarrow> (document \<Rightarrow> 'a with_doc) \<Rightarrow> ('a, qjson_err) outcome \<times> heap" where
  "on_doc h p f =
     (case h p of
        Some d \<Rightarrow> (let (r, d) = f d in (r, h(p \<mapsto> d)))
      | None \<Rightarrow> (Panic, h))"

definition bind_doc :: "'a with_doc \<Rightarrow> ('a \<Rightarrow> document \<Rightarrow> 'b with_doc) \<Rightarrow> 'b with_doc" where
  "bind_doc r f =
     (case r of (Ok x, d) \<Rightarrow> f x d | (Err e, d) \<Rightarrow> (Err e, d) | (Panic, d) \<Rightarrow> (Panic, d))"

definition clear_doc_error_offset_if_available :: "heap \<Rightarrow> nat option \<Rightarrow> heap" where
  "clear_doc_error_offset_if_available h doc =
     (case doc of
        None \<Rightarrow> h
      | Some p \<Rightarrow> h(p := map_option clear_last_error_offset (h p)))"

definition qjson_doc_last_error_offset :: "heap \<Rightarrow> nat option \<Rightarrow> nat" where
  "qjson_doc_last_error_offset h doc =
     (case doc of
        None \<Rightarrow> QJSON_NO_OFFSET
      | Some p \<Rightarrow> (case h p of Some d \<Rightarrow> last_error_offset d | None \<Rightarrow> QJSON_NO_OFFSET))"

section \<open>Parsing\<close>

text \<open>
  \<open>addr\<close> is the address the allocator returns. The result is the document pointer, the error
  struct (written only if \<open>err_out\<close> is not null) and the heap.
\<close>

definition write_parse_error :: "bool \<Rightarrow> qjson_error \<Rightarrow> qjson_error option" where
  "write_parse_error err_out err = (if err_out then Some err else None)"

definition qjson_parse_ex ::
  "scanner \<Rightarrow> target \<Rightarrow> nat \<Rightarrow> heap \<Rightarrow> c_slice \<Rightarrow> options option \<Rightarrow> bool \<Rightarrow>
     nat option \<times> qjson_error option \<times> heap" where
  "qjson_parse_ex scan tgt addr h buf opts err_out =
     (case buf of
        Null n \<Rightarrow> (None, write_parse_error err_out (qjson_error_no_offset QJSON_INVALID_ARG), h)
      | Bytes b \<Rightarrow>
          (let opts_owned = (case opts of None \<Rightarrow> options_default | Some o' \<Rightarrow> o') in
           case parse_with_options_detailed scan tgt b opts_owned of
             Ok d \<Rightarrow> (Some addr, write_parse_error err_out qjson_error_default, h(addr \<mapsto> d))
           | Err e \<Rightarrow> (None, write_parse_error err_out (qjson_error_from e), h)
           | Panic \<Rightarrow> (None, write_parse_error err_out (qjson_error_no_offset QJSON_OOM), h)))"

definition qjson_parse ::
  "scanner \<Rightarrow> target \<Rightarrow> nat \<Rightarrow> heap \<Rightarrow> c_slice \<Rightarrow> bool \<Rightarrow>
     nat option \<times> qjson_error option \<times> heap" where
  "qjson_parse scan tgt addr h buf err_out =
     qjson_parse_ex scan tgt addr h buf (Some options_default) err_out"

definition qjson_free :: "heap \<Rightarrow> nat option \<Rightarrow> heap" where
  "qjson_free h doc = (case doc of None \<Rightarrow> h | Some p \<Rightarrow> h(p := None))"

section \<open>Error offsets\<close>

text \<open>\<open>None\<close>: no offset to record.\<close>

definition cursor_value_start_offset :: "document \<Rightarrow> cursor \<Rightarrow> (nat option, qjson_err) outcome" where
  "cursor_value_start_offset d cur =
     (if is_root_scalar_cursor d cur then and_then (root_scalar_start d) (\<lambda>p. Ok (Some p))
      else
        (case slice_get (indices d) (idx_start cur) of
           None \<Rightarrow> Ok None
         | Some pos \<Rightarrow>
             (case slice_get (doc_buf d) (unat pos) of
                None \<Rightarrow> Ok None
              | Some b \<Rightarrow>
                  if b = 34 \<or> b = 123 \<or> b = 91 then Ok (Some (unat pos))
                  else
                    (case find_scalar_start d (idx_start cur) of
                       Ok p \<Rightarrow> Ok (Some p) | Err _ \<Rightarrow> Ok None | Panic \<Rightarrow> Panic))))"

definition set_doc_error_offset_for_cursor :: "document \<Rightarrow> cursor \<Rightarrow> unit with_doc" where
  "set_doc_error_offset_for_cursor d cur =
     (case cursor_value_start_offset d cur of
        Ok (Some offset) \<Rightarrow> (Ok (), set_last_error_offset offset d)
      | Ok None \<Rightarrow> (Ok (), d)
      | Err e \<Rightarrow> (Ok (), d)
      | Panic \<Rightarrow> (Panic, d))"

text \<open>\<open>Err(e) => { set_doc_error_offset_for_cursor(d, cur); e }\<close>.\<close>

definition or_set_offset :: "cursor \<Rightarrow> ('a, qjson_err) outcome \<Rightarrow> document \<Rightarrow> 'a with_doc" where
  "or_set_offset cur r d =
     (case r of
        Err e \<Rightarrow> bind_doc (set_doc_error_offset_for_cursor d cur) (\<lambda>_ d. (Err e, d))
      | _ \<Rightarrow> (r, d))"

section \<open>Scalars\<close>

definition scalar_byte_range :: "document \<Rightarrow> cursor \<Rightarrow> (nat \<times> nat, qjson_err) outcome" where
  "scalar_byte_range d cur =
     and_then (if is_root_scalar_cursor d cur then root_scalar_start d
               else find_scalar_start d (idx_start cur)) (\<lambda>start.
     and_then (if is_root_scalar_cursor d cur then Ok (length (doc_buf d))
               else and_then (at (indices d) (idx_start cur)) (\<lambda>pos. Ok (unat pos))) (\<lambda>end_pos.
       if end_pos < start then Err QJSON_PARSE_ERROR
       else and_then (skip_ws_back (doc_buf d) start end_pos) (\<lambda>e. Ok (start, e))))"

definition scalar_bytes :: "document \<Rightarrow> cursor \<Rightarrow> (bytes, qjson_err) outcome" where
  "scalar_bytes d cur = and_then (scalar_byte_range d cur) (\<lambda>(s, e). slice_at (doc_buf d) s e)"

definition number_bytes :: "document \<Rightarrow> cursor \<Rightarrow> (bytes, qjson_err) outcome" where
  "number_bytes d cur =
     and_then (type_of d cur) (\<lambda>t.
       if t = QJSON_T_NUM then scalar_bytes d cur else Err QJSON_TYPE_MISMATCH)"

section \<open>What the accessors read at a cursor\<close>

text \<open>The part of \<open>qjson_get_str\<close> after the path is resolved; the result is the reference.\<close>

definition read_str :: "target \<Rightarrow> document \<Rightarrow> cursor \<Rightarrow> str_ref with_doc" where
  "read_str tgt d cur =
     (case at (indices d) (idx_start cur) of
        Ok pos \<Rightarrow>
          if slice_get (doc_buf d) (unat pos) \<noteq> Some 34
          then or_set_offset cur (Err QJSON_TYPE_MISMATCH) d
          else
            (case at (indices d) (idx_start cur + 1) of
               Ok close \<Rightarrow>
                 (let (s, r) = decode_string tgt (doc_buf d) (unat pos + 1) (unat close) (scratch d)
                                 (eager_validated d);
                      d = d\<lparr>scratch := s\<rparr> in
                  case r of
                    Err e \<Rightarrow> (Err e, set_last_error_offset (unat pos + 1) d)
                  | _ \<Rightarrow> (r, d))
             | Err e \<Rightarrow> (Err e, d)
             | Panic \<Rightarrow> (Panic, d))
      | Err e \<Rightarrow> (Err e, d)
      | Panic \<Rightarrow> (Panic, d))"

definition read_i64 :: "document \<Rightarrow> cursor \<Rightarrow> int with_doc" where
  "read_i64 d cur =
     or_set_offset cur (and_then (number_bytes d cur) (\<lambda>b. parse_i64 b (eager_validated d))) d"

definition read_u64 :: "document \<Rightarrow> cursor \<Rightarrow> nat with_doc" where
  "read_u64 d cur =
     or_set_offset cur (and_then (number_bytes d cur) (\<lambda>b. parse_u64 b (eager_validated d))) d"

definition read_f64 :: "document \<Rightarrow> cursor \<Rightarrow> f64 with_doc" where
  "read_f64 d cur =
     or_set_offset cur (and_then (scalar_bytes d cur) (\<lambda>b. parse_f64 b (eager_validated d))) d"

definition read_bool :: "document \<Rightarrow> cursor \<Rightarrow> int with_doc" where
  "read_bool d cur =
     or_set_offset cur (and_then (scalar_bytes d cur) (\<lambda>b.
       if b = bs ''true'' then Ok 1 else if b = bs ''false'' then Ok 0
       else Err QJSON_TYPE_MISMATCH)) d"

definition read_type :: "document \<Rightarrow> cursor \<Rightarrow> qjson_type with_doc" where
  "read_type d cur = or_set_offset cur (type_of d cur) d"

definition read_len :: "document \<Rightarrow> cursor \<Rightarrow> nat with_doc" where
  "read_len d cur = or_set_offset cur (cursor_len d cur) d"

section \<open>Access from the root\<close>

text \<open>The document's address and the cursor of the path.\<close>

definition resolve_root_path ::
  "heap \<Rightarrow> nat option \<Rightarrow> c_slice \<Rightarrow> (nat \<times> cursor, qjson_err) outcome \<times> heap" where
  "resolve_root_path h doc path =
     (case doc of
        None \<Rightarrow> (Err QJSON_INVALID_ARG, h)
      | Some p \<Rightarrow>
          if null_with_length path then (Err QJSON_INVALID_ARG, h)
          else on_doc h p (\<lambda>d.
            bind_doc (resolve d (cursor_root d) (slice_bytes path)) (\<lambda>cur d. (Ok (p, cur), d))))"

text \<open>
  The body every root accessor has: clear the offset, check the out pointer, resolve, then read.
\<close>

definition root_op ::
  "heap \<Rightarrow> nat option \<Rightarrow> c_slice \<Rightarrow> bool \<Rightarrow> (document \<Rightarrow> cursor \<Rightarrow> 'a with_doc) \<Rightarrow> 'a c_ret" where
  "root_op h doc path out body =
     (let h = clear_doc_error_offset_if_available h doc in
      ffi_catch
        (if \<not> out then (Err QJSON_INVALID_ARG, h)
         else
           (case resolve_root_path h doc path of
              (Ok (p, cur), h) \<Rightarrow> on_doc h p (\<lambda>d. body d cur)
            | (Err e, h) \<Rightarrow> (Err e, h)
            | (Panic, h) \<Rightarrow> (Panic, h))))"

definition qjson_typeof :: "heap \<Rightarrow> nat option \<Rightarrow> c_slice \<Rightarrow> bool \<Rightarrow> qjson_type c_ret" where
  "qjson_typeof h doc path out = root_op h doc path out read_type"

definition qjson_is_null :: "heap \<Rightarrow> nat option \<Rightarrow> c_slice \<Rightarrow> bool \<Rightarrow> int c_ret" where
  "qjson_is_null h doc path out =
     root_op h doc path out (\<lambda>d cur.
       bind_doc (read_type d cur) (\<lambda>t d. (Ok (if t = QJSON_T_NULL then 1 else 0), d)))"

definition qjson_len :: "heap \<Rightarrow> nat option \<Rightarrow> c_slice \<Rightarrow> bool \<Rightarrow> nat c_ret" where
  "qjson_len h doc path out = root_op h doc path out read_len"

definition qjson_get_str :: "target \<Rightarrow> heap \<Rightarrow> nat option \<Rightarrow> c_slice \<Rightarrow> bool \<Rightarrow> str_ref c_ret" where
  "qjson_get_str tgt h doc path out = root_op h doc path out (read_str tgt)"

definition qjson_get_i64 :: "heap \<Rightarrow> nat option \<Rightarrow> c_slice \<Rightarrow> bool \<Rightarrow> int c_ret" where
  "qjson_get_i64 h doc path out = root_op h doc path out read_i64"

definition qjson_get_u64 :: "heap \<Rightarrow> nat option \<Rightarrow> c_slice \<Rightarrow> bool \<Rightarrow> nat c_ret" where
  "qjson_get_u64 h doc path out = root_op h doc path out read_u64"

definition qjson_get_f64 :: "heap \<Rightarrow> nat option \<Rightarrow> c_slice \<Rightarrow> bool \<Rightarrow> f64 c_ret" where
  "qjson_get_f64 h doc path out = root_op h doc path out read_f64"

definition qjson_get_bool :: "heap \<Rightarrow> nat option \<Rightarrow> c_slice \<Rightarrow> bool \<Rightarrow> int c_ret" where
  "qjson_get_bool h doc path out = root_op h doc path out read_bool"

end
