(* ===== verification/Ffi_Cursor.thy ===== *)
theory Ffi_Cursor
  imports Ffi
begin

text \<open>
  The cursor and iterator half of \<open>src/ffi.rs\<close>. The C structs hold a document pointer and
  positions in its index; the functions work on the document they point to.
\<close>

section \<open>Structs\<close>

record qjson_cursor =
  qc_doc :: "nat option"
  qc_idx_start :: nat
  qc_idx_end :: nat
  reserved0 :: u32
  reserved1 :: u32

record qjson_iter =
  qi_doc :: "nat option"
  qi_idx_current :: nat
  qi_idx_end :: nat

text \<open>The document address and the internal cursor; null pointers are an error.\<close>

definition cursor_to_internal :: "qjson_cursor option \<Rightarrow> (nat \<times> cursor, qjson_err) outcome" where
  "cursor_to_internal c =
     (case c of
        None \<Rightarrow> Err QJSON_INVALID_ARG
      | Some cc \<Rightarrow>
          (case qc_doc cc of
             None \<Rightarrow> Err QJSON_INVALID_ARG
           | Some p \<Rightarrow> Ok (p, cursor_at (qc_idx_start cc) (qc_idx_end cc))))"

definition internal_to_cursor :: "nat option \<Rightarrow> cursor \<Rightarrow> qjson_cursor" where
  "internal_to_cursor doc cur =
     \<lparr>qc_doc = doc, qc_idx_start = idx_start cur, qc_idx_end = idx_end cur, reserved0 = 0, reserved1 = 0\<rparr>"

definition iter_doc :: "qjson_iter option \<Rightarrow> (nat, qjson_err) outcome" where
  "iter_doc it =
     (case it of
        None \<Rightarrow> Err QJSON_INVALID_ARG
      | Some ii \<Rightarrow> (case qi_doc ii of None \<Rightarrow> Err QJSON_INVALID_ARG | Some p \<Rightarrow> Ok p))"

definition clear_cursor_doc_error_offset_if_available :: "heap \<Rightarrow> qjson_cursor option \<Rightarrow> heap" where
  "clear_cursor_doc_error_offset_if_available h c =
     (case c of None \<Rightarrow> h | Some cc \<Rightarrow> clear_doc_error_offset_if_available h (qc_doc cc))"

definition clear_iter_doc_error_offset_if_available :: "heap \<Rightarrow> qjson_iter option \<Rightarrow> heap" where
  "clear_iter_doc_error_offset_if_available h it =
     (case it of None \<Rightarrow> h | Some ii \<Rightarrow> clear_doc_error_offset_if_available h (qi_doc ii))"

section \<open>Opening cursors\<close>

definition qjson_open :: "heap \<Rightarrow> nat option \<Rightarrow> c_slice \<Rightarrow> bool \<Rightarrow> qjson_cursor c_ret" where
  "qjson_open h doc path out = root_op h doc path out (\<lambda>d cur. (Ok (internal_to_cursor doc cur), d))"

text \<open>
  The body of the functions that take a cursor: clear the offset, check the arguments (\<open>ok\<close>), then
  work on the document with the internal cursor.
\<close>

definition cursor_body ::
  "heap \<Rightarrow> qjson_cursor option \<Rightarrow> bool \<Rightarrow> (nat \<Rightarrow> document \<Rightarrow> cursor \<Rightarrow> 'a with_doc) \<Rightarrow> 'a c_ret" where
  "cursor_body h c ok body =
     (let h = clear_cursor_doc_error_offset_if_available h c in
      ffi_catch
        (if \<not> ok then (Err QJSON_INVALID_ARG, h)
         else
           (case cursor_to_internal c of
              Ok (p, cur) \<Rightarrow> on_doc h p (\<lambda>d. body p d cur)
            | Err e \<Rightarrow> (Err e, h)
            | Panic \<Rightarrow> (Panic, h))))"

text \<open>The functions that resolve a path from the cursor first; a null path is the empty one.\<close>

definition cursor_op ::
  "heap \<Rightarrow> qjson_cursor option \<Rightarrow> c_slice \<Rightarrow> bool \<Rightarrow> (document \<Rightarrow> cursor \<Rightarrow> 'a with_doc) \<Rightarrow> 'a c_ret" where
  "cursor_op h c path out body =
     cursor_body h c out (\<lambda>p d cur.
       case resolve d cur (slice_bytes path) of
         (Ok cur', d) \<Rightarrow> body d cur'
       | (Err e, d) \<Rightarrow> or_set_offset cur (Err e) d
       | (Panic, d) \<Rightarrow> (Panic, d))"

definition qjson_cursor_open :: "heap \<Rightarrow> qjson_cursor option \<Rightarrow> c_slice \<Rightarrow> bool \<Rightarrow> qjson_cursor c_ret" where
  "qjson_cursor_open h c path out =
     cursor_body h c out (\<lambda>p d cur.
       case resolve d cur (slice_bytes path) of
         (Ok child, d) \<Rightarrow> (Ok (internal_to_cursor (Some p) child), d)
       | (Err e, d) \<Rightarrow> or_set_offset cur (Err e) d
       | (Panic, d) \<Rightarrow> (Panic, d))"

definition qjson_cursor_field :: "heap \<Rightarrow> qjson_cursor option \<Rightarrow> c_slice \<Rightarrow> bool \<Rightarrow> qjson_cursor c_ret" where
  "qjson_cursor_field h c key out =
     cursor_body h c (out \<and> \<not> null_with_length key) (\<lambda>p d cur.
       case resolve_single_key d cur (slice_bytes key) of
         (Ok child, d) \<Rightarrow> (Ok (internal_to_cursor (Some p) child), d)
       | (Err e, d) \<Rightarrow> or_set_offset cur (Err e) d
       | (Panic, d) \<Rightarrow> (Panic, d))"

definition qjson_cursor_index :: "heap \<Rightarrow> qjson_cursor option \<Rightarrow> nat \<Rightarrow> bool \<Rightarrow> qjson_cursor c_ret" where
  "qjson_cursor_index h c i out =
     cursor_body h c (out \<and> i \<le> unat U32_MAX) (\<lambda>p d cur.
       case resolve_single_idx d cur (of_nat i) of
         (Ok child, d) \<Rightarrow> (Ok (internal_to_cursor (Some p) child), d)
       | (Err e, d) \<Rightarrow> or_set_offset cur (Err e) d
       | (Panic, d) \<Rightarrow> (Panic, d))"

section \<open>Reading through cursors\<close>

definition qjson_cursor_get_str ::
  "target \<Rightarrow> heap \<Rightarrow> qjson_cursor option \<Rightarrow> c_slice \<Rightarrow> bool \<Rightarrow> str_ref c_ret" where
  "qjson_cursor_get_str tgt h c path out = cursor_op h c path out (read_str tgt)"

definition qjson_cursor_get_i64 :: "heap \<Rightarrow> qjson_cursor option \<Rightarrow> c_slice \<Rightarrow> bool \<Rightarrow> int c_ret" where
  "qjson_cursor_get_i64 h c path out = cursor_op h c path out read_i64"

definition qjson_cursor_get_u64 :: "heap \<Rightarrow> qjson_cursor option \<Rightarrow> c_slice \<Rightarrow> bool \<Rightarrow> nat c_ret" where
  "qjson_cursor_get_u64 h c path out = cursor_op h c path out read_u64"

definition qjson_cursor_get_f64 :: "heap \<Rightarrow> qjson_cursor option \<Rightarrow> c_slice \<Rightarrow> bool \<Rightarrow> f64 c_ret" where
  "qjson_cursor_get_f64 h c path out = cursor_op h c path out read_f64"

definition qjson_cursor_get_bool :: "heap \<Rightarrow> qjson_cursor option \<Rightarrow> c_slice \<Rightarrow> bool \<Rightarrow> int c_ret" where
  "qjson_cursor_get_bool h c path out = cursor_op h c path out read_bool"

definition qjson_cursor_typeof :: "heap \<Rightarrow> qjson_cursor option \<Rightarrow> c_slice \<Rightarrow> bool \<Rightarrow> qjson_type c_ret" where
  "qjson_cursor_typeof h c path out = cursor_op h c path out read_type"

definition qjson_cursor_len :: "heap \<Rightarrow> qjson_cursor option \<Rightarrow> c_slice \<Rightarrow> bool \<Rightarrow> nat c_ret" where
  "qjson_cursor_len h c path out = cursor_op h c path out read_len"

text \<open>The byte range of the value; its errors leave the offset cleared.\<close>

definition cursor_byte_range :: "document \<Rightarrow> cursor \<Rightarrow> (nat \<times> nat, qjson_err) outcome" where
  "cursor_byte_range d cur =
     (if is_root_scalar_cursor d cur then scalar_byte_range d cur
      else
        and_then (at (indices d) (idx_start cur)) (\<lambda>pos.
        and_then (ok_or QJSON_PARSE_ERROR (slice_get (doc_buf d) (unat pos))) (\<lambda>lead.
          if lead = 123 \<or> lead = 91 \<or> lead = 34 then
            and_then (at (indices d) (idx_end cur)) (\<lambda>end_pos.
              if unat end_pos \<ge> length (doc_buf d) then Err QJSON_PARSE_ERROR
              else Ok (unat pos, unat end_pos + 1))
          else scalar_byte_range d cur)))"

definition qjson_cursor_bytes :: "heap \<Rightarrow> qjson_cursor option \<Rightarrow> bool \<Rightarrow> (nat \<times> nat) c_ret" where
  "qjson_cursor_bytes h c out = cursor_body h c out (\<lambda>p d cur. (cursor_byte_range d cur, d))"

section \<open>Object entries\<close>

text \<open>Decoding the key whose quotes are at \<open>open_pos\<close> and \<open>close_pos\<close>, into the scratch buffer.\<close>

definition decode_key :: "target \<Rightarrow> document \<Rightarrow> nat \<Rightarrow> nat \<Rightarrow> str_ref with_doc" where
  "decode_key tgt d open_pos close_pos =
     (let (s, r) = decode_string tgt (doc_buf d) (open_pos + 1) close_pos (scratch d) (eager_validated d);
          d = d\<lparr>scratch := s\<rparr> in
      case r of
        Err e \<Rightarrow> (Err e, set_last_error_offset open_pos d)
      | _ \<Rightarrow> (r, d))"

definition object_entry_at :: "target \<Rightarrow> nat \<Rightarrow> document \<Rightarrow> cursor \<Rightarrow> nat \<Rightarrow> (str_ref \<times> qjson_cursor) with_doc" where
  "object_entry_at tgt p d cur i =
     (case nth_object_entry d cur i of
        Ok (key_idx_start, value_cur) \<Rightarrow>
          (case and_then (at (indices d) key_idx_start) (\<lambda>open_pos.
                and_then (at (indices d) (key_idx_start + 1)) (\<lambda>close_pos.
                  Ok (unat open_pos, unat close_pos))) of
             Ok (open_pos, close_pos) \<Rightarrow>
               bind_doc (decode_key tgt d open_pos close_pos) (\<lambda>key d.
                 (Ok (key, internal_to_cursor (Some p) value_cur), d))
           | Err e \<Rightarrow> (Err e, d)
           | Panic \<Rightarrow> (Panic, d))
      | Err e \<Rightarrow> or_set_offset cur (Err e) d
      | Panic \<Rightarrow> (Panic, d))"

definition qjson_cursor_object_entry_at ::
  "target \<Rightarrow> heap \<Rightarrow> qjson_cursor option \<Rightarrow> nat \<Rightarrow> bool \<Rightarrow> (str_ref \<times> qjson_cursor) c_ret" where
  "qjson_cursor_object_entry_at tgt h c i out =
     cursor_body h c out (\<lambda>p d cur. object_entry_at tgt p d cur i)"

section \<open>Object iterators\<close>

definition iter_start :: "nat \<Rightarrow> document \<Rightarrow> cursor \<Rightarrow> qjson_iter with_doc" where
  "iter_start p d cur =
     (case at (indices d) (idx_start cur) of
        Ok pos \<Rightarrow>
          if slice_get (doc_buf d) (unat pos) \<noteq> Some 123
          then (Err QJSON_TYPE_MISMATCH, set_last_error_offset (unat pos) d)
          else
            (and_then (empty_container d cur) (\<lambda>empty.
               Ok \<lparr>qi_doc = Some p, qi_idx_current = (if empty then idx_end cur else idx_start cur + 1),
                   qi_idx_end = idx_end cur\<rparr>), d)
      | Err e \<Rightarrow> (Err e, d)
      | Panic \<Rightarrow> (Panic, d))"

definition qjson_iter_init :: "heap \<Rightarrow> qjson_cursor option \<Rightarrow> bool \<Rightarrow> qjson_iter c_ret" where
  "qjson_iter_init h c out = cursor_body h c out iter_start"

text \<open>
  One advance: the result, what was written (which an error after the decoding leaves written),
  the iterator and the document.
\<close>

type_synonym iter_result = "(unit, qjson_err) outcome \<times> (str_ref \<times> qjson_cursor) option \<times> qjson_iter \<times> document"

definition iter_positions :: "document \<Rightarrow> nat \<Rightarrow> (nat \<times> nat \<times> nat \<times> nat \<times> u8, qjson_err) outcome" where
  "iter_positions d key_idx_start =
     and_then (at (indices d) key_idx_start) (\<lambda>open_pos.
     and_then (at (indices d) (key_idx_start + 1)) (\<lambda>close_pos.
     and_then (at (indices d) (key_idx_start + 2)) (\<lambda>colon_pos.
       if slice_get (doc_buf d) (unat open_pos) \<noteq> Some 34 \<or>
          slice_get (doc_buf d) (unat close_pos) \<noteq> Some 34 \<or>
          slice_get (doc_buf d) (unat colon_pos) \<noteq> Some 58 then Err QJSON_PARSE_ERROR
       else
         and_then (find_value_span d (key_idx_start + 3)) (\<lambda>(cursor_end, skip_end).
         and_then (at (indices d) skip_end) (\<lambda>after_pos.
         and_then (ok_or QJSON_PARSE_ERROR (slice_get (doc_buf d) (unat after_pos))) (\<lambda>c.
           Ok (unat open_pos, unat close_pos, cursor_end, skip_end, c)))))))"

definition iter_advance :: "target \<Rightarrow> nat \<Rightarrow> qjson_iter \<Rightarrow> document \<Rightarrow> iter_result" where
  "iter_advance tgt p ii d =
     (if qi_idx_current ii \<ge> qi_idx_end ii then (Err QJSON_NOT_FOUND, None, ii, d)
      else
        (case iter_positions d (qi_idx_current ii) of
           Ok (open_pos, close_pos, cursor_end, skip_end, after_byte) \<Rightarrow>
             (case decode_key tgt d open_pos close_pos of
                (Ok key, d) \<Rightarrow>
                  (let written = Some (key, internal_to_cursor (Some p)
                         (cursor_at (qi_idx_current ii + 3) cursor_end)) in
                   if after_byte = 44 then (Ok (), written, ii\<lparr>qi_idx_current := skip_end + 1\<rparr>, d)
                   else if after_byte = 125 then (Ok (), written, ii\<lparr>qi_idx_current := qi_idx_end ii\<rparr>, d)
                   else (Err QJSON_PARSE_ERROR, written, ii, d))
              | (Err e, d) \<Rightarrow> (Err e, None, ii, d)
              | (Panic, d) \<Rightarrow> (Panic, None, ii, d))
         | Err e \<Rightarrow> (Err e, None, ii, d)
         | Panic \<Rightarrow> (Panic, None, ii, d)))"

text \<open>The code, what was written, the iterator (read and written in place) and the heap.\<close>

definition qjson_iter_next ::
  "target \<Rightarrow> heap \<Rightarrow> qjson_iter option \<Rightarrow> bool \<Rightarrow>
     int \<times> (str_ref \<times> qjson_cursor) option \<times> qjson_iter option \<times> heap" where
  "qjson_iter_next tgt h it out =
     (let h = clear_iter_doc_error_offset_if_available h it in
      if it = None \<or> \<not> out then (err_code QJSON_INVALID_ARG, None, it, h)
      else
        (case iter_doc it of
           Ok p \<Rightarrow>
             (case h p of
                None \<Rightarrow> (err_code QJSON_OOM, None, it, h)
              | Some d \<Rightarrow>
                  (let (r, written, ii, d) = iter_advance tgt p (the it) d;
                       (code, _, h) = ffi_catch (r, h(p \<mapsto> d)) in
                   (code, written, Some ii, h)))
         | Err e \<Rightarrow> (err_code e, None, it, h)
         | Panic \<Rightarrow> (err_code QJSON_OOM, None, it, h)))"

text \<open>The test-only export that panics.\<close>

definition qjson_test_panic :: "heap \<Rightarrow> unit c_ret" where
  "qjson_test_panic h = ffi_catch (Panic, h)"

end
