(* ===== verification/Access.thy ===== *)
theory Access
  imports Navigate Ffi_Cursor
begin

text \<open>
  What the readers of \<open>src/ffi.rs\<close> return at a cursor that denotes a value, on the index of a JSON
  text: types, byte ranges, scalars, strings, error offsets. None panics.
\<close>

section \<open>Byte ranges\<close>

text \<open>\<open>text_at buf s e v\<close>: the bytes from \<open>s\<close> to \<open>e\<close> spell \<open>v\<close>.\<close>

definition text_at :: "bytes \<Rightarrow> nat \<Rightarrow> nat \<Rightarrow> json \<Rightarrow> bool" where
  "text_at buf s e v \<longleftrightarrow> s \<le> e \<and> e \<le> length buf \<and> tree (slice s e buf) v"

lemma text_atI: "buf = pre @ t @ post \<Longrightarrow> tree t v \<Longrightarrow> s = length pre \<Longrightarrow> e = length pre + length t \<Longrightarrow> text_at buf s e v"
  by (simp add: text_at_def slice_def)

lemma takeWhile_ws_then:
  "ws w \<Longrightarrow> x \<noteq> [] \<Longrightarrow> \<not> is_ws (hd x) \<Longrightarrow> takeWhile is_ws (w @ x) = w"
  by (cases x) (auto simp: ws_def list_all_iff takeWhile_append2)

lemma skip_ws_to_text:
  assumes "buf = p @ w @ x" "ws w" "x \<noteq> []" "\<not> is_ws (hd x)" "n = length p"
  shows "skip_ws_to buf n (length buf) = Ok (length p + length w)"
proof -
  have "drop n buf = (w @ x) @ []" using assms by simp
  from skip_ws_to_drop[OF this] takeWhile_ws_then[OF assms(2-4)] assms(1,5) show ?thesis by simp
qed

lemma strip_right_text: "ws w \<Longrightarrow> t \<noteq> [] \<Longrightarrow> \<not> is_ws (last t) \<Longrightarrow> strip_right (t @ w) = t"
proof (cases t rule: rev_cases)
  case (snoc ys y)
  assume "ws w" "\<not> is_ws (last t)"
  then have "\<And>x. x \<in> set (rev w) \<Longrightarrow> is_ws x" and y: "\<not> is_ws y"
    by (auto simp: ws_def list_all_iff snoc)
  from dropWhile_append2[of "rev w" is_ws, OF this(1)] y have "dropWhile is_ws (rev w @ y # rev ys) = y # rev ys" by simp
  then show ?thesis by (simp add: strip_right_def snoc)
qed simp

lemma skip_ws_back_text:
  assumes "buf = p @ t @ w @ x" "ws w" "t \<noteq> []" "\<not> is_ws (last t)" "s = length p" "e = s + length t + length w"
  shows "skip_ws_back buf s e = Ok (s + length t)"
proof -
  have "drop s buf = (t @ w) @ x" using assms by simp
  from skip_ws_back_drop[OF this] strip_right_text[OF assms(2-4)] assms(6) show ?thesis by (simp add: add.assoc)
qed

lemma scalar_ends:
  assumes "json_scalar t"
  shows "t \<noteq> []" "\<not> is_ws (hd t)" "\<not> is_ws (last t)"
  using json_scalar_no_structural(2)[OF assms] json_scalar_nonempty[OF assms] by auto

lemma scalar_range:
  assumes ix: "indexed d" and den: "denotes d cur (JScalar t)"
  shows "\<exists>s. scalar_byte_range d cur = Ok (s, s + length t) \<and> text_at (doc_buf d) s (s + length t) (JScalar t) \<and>
    slice s (s + length t) (doc_buf d) = t \<and>
    (if is_root_scalar_cursor d cur then root_scalar_start d = (Ok s :: (nat, qjson_err) outcome)
     else find_scalar_start d (idx_start cur) = Ok s)"
proof -
  from den have loc: "located (doc_buf d) (idx_start cur) (JScalar t)" by (simp add: denotes_def)
  from ix loc show ?thesis
  proof (cases rule: scalar_layout)
    case (root w w')
    note e = scalar_ends[OF root(4)]
    have start: "skip_ws_to (doc_buf d) 0 (length (doc_buf d)) = (Ok (length w) :: (nat, qjson_err) outcome)"
      using skip_ws_to_text[of "doc_buf d" "[]" w "t @ w'" 0] root e by simp
    have bwd: "skip_ws_back (doc_buf d) (length w) (length (doc_buf d)) = (Ok (length w + length t) :: (nat, qjson_err) outcome)"
      using root e by (intro skip_ws_back_text[of _ w t w' "[]"]) auto
    have "is_root_scalar_cursor d cur" using root by (simp add: is_root_scalar_cursor_def)
    moreover have "text_at (doc_buf d) (length w) (length w + length t) (JScalar t)"
      using root by (intro text_atI) (auto intro: tree_scalar)
    moreover have "slice (length w) (length w + length t) (doc_buf d) = t"
      by (simp add: root(1) slice_def)
    ultimately show ?thesis
      using start bwd by (intro exI[of _ "length w"])
        (simp add: scalar_byte_range_def root_scalar_start_def root(1) del: and_then_eq_Ok)
  next
    case (inner p b w w' c r)
    note e = scalar_ends[OF inner(4)]
    define s where "s = length p + 1 + length w"
    have start: "skip_ws_to (doc_buf d) (Suc (length p)) (length (doc_buf d)) = (Ok s :: (nat, qjson_err) outcome)"
      using skip_ws_to_text[of "doc_buf d" "p @ [b]" w "t @ w' @ c # r"] inner(1,2) e by (simp add: s_def)
    have bwd: "skip_ws_back (doc_buf d) s (length (p @ b # w @ t @ w')) = (Ok (s + length t) :: (nat, qjson_err) outcome)"
      using inner(1,3) e by (intro skip_ws_back_text[of _ "p @ b # w" t w' "c # r"]) (auto simp: s_def)
    have nr: "\<not> is_root_scalar_cursor d cur"
      using inner(5) by (simp add: is_root_scalar_cursor_def)
    have find: "find_scalar_start d (idx_start cur) = Ok s"
      using inner(5,9,10) start by (simp add: find_scalar_start_def at_def)
    have "text_at (doc_buf d) s (s + length t) (JScalar t)"
      using inner(1,4) by (intro text_atI[of _ "p @ b # w" t "w' @ c # r"]) (auto simp: s_def intro: tree_scalar)
    moreover have "slice s (s + length t) (doc_buf d) = t"
      by (simp add: inner(1) slice_def s_def)
    ultimately show ?thesis
      using nr find bwd token_at_outcome(1)[OF inner(6), where ?'a = qjson_err] inner(8)
      by (intro exI[of _ s]) (simp add: scalar_byte_range_def s_def del: and_then_eq_Ok)
  qed
qed

lemma scalar_bytes_ok:
  assumes "indexed d" "denotes d cur (JScalar t)"
  shows "scalar_bytes d cur = Ok t"
  using scalar_range[OF assms]
  by (auto simp: scalar_bytes_def slice_at_def text_at_def simp del: and_then_eq_Ok)

section \<open>Types\<close>

fun json_type :: "json \<Rightarrow> qjson_type" where
  "json_type (JScalar t) =
     (if hd t = 116 \<or> hd t = 102 then QJSON_T_BOOL else if hd t = 110 then QJSON_T_NULL else QJSON_T_NUM)"
| "json_type (JString _) = QJSON_T_STR"
| "json_type (JArray _) = QJSON_T_ARR"
| "json_type (JObject _) = QJSON_T_OBJ"

lemma json_scalar_hd:
  assumes "json_scalar t"
  shows "hd t = 116 \<or> hd t = 102 \<or> hd t = 110 \<or> json_number t \<and> (hd t = 45 \<or> is_digit (hd t))"
proof (cases "json_number t")
  case True
  from json_number_starts[OF True] have "t \<noteq> []" "starts_number (hd t)" by (auto simp: hd_conv_nth)
  with True show ?thesis by (auto simp: starts_number_def)
next
  case False
  with assms show ?thesis by (auto simp: json_scalar_def json_literal_def)
qed

lemma number_type: "json_scalar t \<Longrightarrow> json_type (JScalar t) = QJSON_T_NUM \<longleftrightarrow> json_number t"
proof (cases "json_number t")
  case True
  from json_number_starts[OF True] have "t \<noteq> []" "starts_number (hd t)" by (auto simp: hd_conv_nth)
  with True show ?thesis by (auto simp: starts_number_def is_digit_def)
next
  case False
  assume "json_scalar t"
  with False show ?thesis by (auto simp: json_scalar_def json_literal_def)
qed

lemma text_at_scalar: "text_at buf s e (JScalar t) \<Longrightarrow> json_scalar t \<and> slice s e buf = t"
  by (auto simp: text_at_def elim: tree.cases)

lemma scalar_type_at_ok:
  assumes "text_at (doc_buf d) s (s + length t) (JScalar t)"
  shows "scalar_type_at d s = Ok (json_type (JScalar t))"
proof -
  from text_at_scalar[OF assms] have t: "json_scalar t" "slice s (s + length t) (doc_buf d) = t" by auto
  note ne = scalar_ends(1)[OF t(1)]
  have len: "s + length t \<le> length (doc_buf d)" using assms by (simp add: text_at_def)
  with ne have "s < length (doc_buf d)" by (cases t) auto
  moreover have "doc_buf d ! s = hd t"
    using nth_slice[of s 0 "s + length t" "doc_buf d"] len ne t(2) by (cases t) auto
  ultimately show ?thesis
    using json_scalar_hd[OF t(1)] by (auto simp: scalar_type_at_def slice_get_def is_digit_def)
qed

lemma type_of_ok:
  assumes ix: "indexed d" and den: "denotes d cur v"
  shows "type_of d cur = Ok (json_type v)"
  using ix den
proof (cases rule: denoted_token)
  case (root_scalar t)
  from scalar_range[OF ix den[unfolded root_scalar(1)]] root_scalar(4) scalar_type_at_ok
  show ?thesis by (auto simp: type_of_def root_scalar(1) simp del: json_type.simps and_then_eq_Ok)
next
  case (token b)
  have tok: "slice_get (indices d) (idx_start cur) = Some (indices d ! idx_start cur)"
    using token(1) by (simp add: token_at_def slice_get_def)
  note byte = token_at_outcome(4)[OF token(1)]
  show ?thesis
  proof (cases v)
    case (JScalar t)
    then have b: "b = 44 \<or> b = 93 \<or> b = 125" using token(5) by simp
    from scalar_range[OF ix den[unfolded JScalar]] token(2) scalar_type_at_ok b
    show ?thesis
      by (auto simp: type_of_def ok_or_def tok byte JScalar simp del: json_type.simps and_then_eq_Ok)
  qed (use token in \<open>auto simp: type_of_def ok_or_def tok byte opener_def simp del: and_then_eq_Ok\<close>)
qed

section \<open>Strings and containers\<close>

lemma text_layout:
  assumes ix: "indexed d" and den: "denotes d cur v" and ns: "\<And>t. v \<noteq> JScalar t"
  obtains b s where "token_at d (idx_start cur) b" "b = 34 \<or> b = 123 \<or> b = 91" "s = unat (indices d ! idx_start cur)"
    "token_at d (idx_end cur) (if b = 34 then 34 else closer v)"
    "text_at (doc_buf d) s (unat (indices d ! idx_end cur) + 1) v"
    "idx_start cur \<noteq> 0 \<Longrightarrow> find_scalar_start d (idx_start cur) = Ok s"
proof -
  from den have loc: "located (doc_buf d) (idx_start cur) v" and ce: "idx_end cur = cend (idx_start cur) v"
    by (simp_all add: denotes_def)
  from loc obtain pre t post where buf: "doc_buf d = pre @ t @ post" and t: "tree t v"
    and run: "lex_run Outside pre = Outside" and s: "idx_start cur = count pre"
    and op: "idx_start cur \<noteq> 0 \<longrightarrow> opens_value pre"
    unfolding located_def placed_def json_doc_def by (metis count_ws opens_value_run run_ws)
  have "\<exists>b u c. t = b # u @ [c] \<and> (b = 34 \<or> b = 123 \<or> b = 91) \<and> c = (if b = 34 then 34 else closer v) \<and>
      count (b # u) = cend 0 v \<and> lex_emits (lex_run Outside (b # u)) c"
  proof (cases "is_container v")
    case True
    from t True obtain inner where inner: "t = opener v # inner @ [closer v]"
      "ws inner \<and> children v = [] \<or> items inner (children v)" by (rule tree_container)
    have irun: "lex_run Outside inner = Outside" and icount: "count inner = width (children v)"
      using inner(2) items_balanced_run items_count by auto
    show ?thesis
      using inner(1) bracket_bytes[of v] irun icount True
      by (intro exI[of _ "opener v"] exI[of _ inner] exI[of _ "closer v"])
        (auto simp: count_structural cend_def ntoks_container)
  next
    case False
    then obtain body where v: "v = JString body" using ns by (cases v) auto
    with t have tb: "t = 34 # body @ [34]" "json_string (34 # body @ [34])" by (auto elim: tree.cases)
    note u = json_string_unquoted[OF tb(2)]
    then show ?thesis
      using tb unquoted_tokens[OF u] by (auto simp: v count_def cend_def unquoted_def)
  qed
  then obtain b u c where bt: "t = b # u @ [c]" "b = 34 \<or> b = 123 \<or> b = 91" "c = (if b = 34 then 34 else closer v)"
    "count (b # u) = cend 0 v" "lex_emits (lex_run Outside (b # u)) c" by blast
  have buf1: "doc_buf d = pre @ b # (u @ c # post)" and buf2: "doc_buf d = (pre @ b # u) @ c # post"
    by (simp_all add: buf bt(1))
  have cnt2: "count (pre @ b # u) = idx_end cur"
    using count_append[OF run, of "b # u"] bt(4) s ce by (auto simp: cend_def ntoks_container split: if_splits)
  have em: "lex_emits (lex_run Outside (pre @ b # u)) c" using bt(5) run by simp
  from index_entry[OF ix buf1] run bt(2) have e1: "token_at d (idx_start cur) b" "unat (indices d ! idx_start cur) = length pre"
    by (auto simp: s token_at_def slice_get_def split: if_splits)
  from index_entry[OF ix buf2 em] have e2: "token_at d (idx_end cur) c" "unat (indices d ! idx_end cur) = length (pre @ b # u)"
    by (auto simp: cnt2 token_at_def slice_get_def split: if_splits)
  have tx: "text_at (doc_buf d) (length pre) (unat (indices d ! idx_end cur) + 1) v"
    using buf t e2(2) by (intro text_atI) (auto simp: bt(1))
  have fs: "find_scalar_start d (idx_start cur) = Ok (length pre)" if nz: "idx_start cur \<noteq> 0"
  proof -
    from op nz obtain p b' w where p: "pre = p @ b' # w" "lex_run Outside p = Outside" "b' = 91 \<or> b' = 44 \<or> b' = 58" "ws w"
      unfolding opens_value_def by blast
    have b': "is_structural b'" "b' \<noteq> 34" using p(3) by auto
    have "doc_buf d = p @ b' # (w @ t @ post)" by (simp add: buf p(1))
    from index_entry[OF ix this] p(2) b' have e0: "count p < length (indices d)" "unat (indices d ! count p) = length p"
      by simp_all
    have "idx_start cur = Suc (count p)"
      using p b' s by (simp add: count_append count_structural)
    moreover have "skip_ws_to (doc_buf d) (Suc (length p)) (length (doc_buf d)) = (Ok (length pre) :: (nat, qjson_err) outcome)"
      using skip_ws_to_text[of "doc_buf d" "p @ [b']" w "t @ post"] p(1,4) bt(1,2) buf by (auto simp: is_ws_def)
    ultimately show ?thesis using e0 by (simp add: find_scalar_start_def at_def)
  qed
  from that[of b "length pre"] e1 e2 bt tx fs show thesis by simp
qed

lemma scalar_bytes_other:
  assumes ix: "indexed d" and den: "denotes d cur v" and ns: "\<And>t. v \<noteq> JScalar t"
  shows "scalar_bytes d cur = (if idx_start cur = 0 then Err QJSON_PARSE_ERROR else Ok [])"
  using ix den ns
proof (rule text_layout)
  fix b s
  assume tok: "token_at d (idx_start cur) b" and s: "s = unat (indices d ! idx_start cur)"
    and find: "idx_start cur \<noteq> 0 \<Longrightarrow> find_scalar_start d (idx_start cur) = Ok s"
  from den have loc: "located (doc_buf d) (idx_start cur) v" by (simp add: denotes_def)
  have "s < length (doc_buf d)" using tok s by (simp add: token_at_def)
  then show ?thesis
    using not_root_scalar[OF ix loc tok] find s
    by (simp add: scalar_bytes_def scalar_byte_range_def find_scalar_start_def token_at_outcome(1)[OF tok]
        skip_ws_back.simps slice_at_def del: and_then_eq_Ok)
qed

text \<open>The offset recorded with an error, and the byte range of a cursor.\<close>

lemma value_start:
  assumes ix: "indexed d" and den: "denotes d cur v"
  shows "\<exists>s e. cursor_value_start_offset d cur = Ok (Some s) \<and> cursor_byte_range d cur = Ok (s, e) \<and>
    text_at (doc_buf d) s e v"
proof (cases "\<exists>t. v = JScalar t")
  case True
  then obtain t where v: "v = JScalar t" by blast
  from scalar_range[OF ix den[unfolded v]] obtain s where s: "scalar_byte_range d cur = Ok (s, s + length t)"
    "text_at (doc_buf d) s (s + length t) (JScalar t)"
    "if is_root_scalar_cursor d cur then root_scalar_start d = (Ok s :: (nat, qjson_err) outcome)
     else find_scalar_start d (idx_start cur) = Ok s" by blast
  from ix den show ?thesis
  proof (cases rule: denoted_token)
    case root_scalar
    with s show ?thesis
      by (intro exI[of _ s] exI[of _ "s + length t"]) (simp add: v cursor_value_start_offset_def cursor_byte_range_def del: and_then_eq_Ok)
  next
    case (token b)
    then have "b = 44 \<or> b = 93 \<or> b = 125" using v by simp
    moreover have "slice_get (indices d) (idx_start cur) = Some (indices d ! idx_start cur)"
      using token(1) by (simp add: token_at_def slice_get_def)
    ultimately show ?thesis
      using s token(2) token_at_outcome(4)[OF token(1)]
      by (intro exI[of _ s] exI[of _ "s + length t"])
        (auto simp: v cursor_value_start_offset_def cursor_byte_range_def ok_or_def token_at_outcome(1)[OF token(1)] simp del: and_then_eq_Ok)
  qed
next
  case False
  then have ns: "\<And>t. v \<noteq> JScalar t" by blast
  from ix den ns show ?thesis
  proof (rule text_layout)
    fix b s
    assume tok: "token_at d (idx_start cur) b" and b: "b = 34 \<or> b = 123 \<or> b = 91" and s: "s = unat (indices d ! idx_start cur)"
      and tok2: "token_at d (idx_end cur) (if b = 34 then 34 else closer v)"
      and tx: "text_at (doc_buf d) s (unat (indices d ! idx_end cur) + 1) v"
    from den have loc: "located (doc_buf d) (idx_start cur) v" by (simp add: denotes_def)
    have "slice_get (indices d) (idx_start cur) = Some (indices d ! idx_start cur)"
      using tok by (simp add: token_at_def slice_get_def)
    then show ?thesis
      using not_root_scalar[OF ix loc tok] b s tx token_at_outcome(4)[OF tok] token_at_outcome(2)[OF tok2]
      by (intro exI[of _ s] exI[of _ "unat (indices d ! idx_end cur) + 1"])
        (auto simp: cursor_value_start_offset_def cursor_byte_range_def ok_or_def token_at_outcome(1)[OF tok]
          token_at_outcome(1)[OF tok2] simp del: and_then_eq_Ok)
  qed
qed

section \<open>Readers\<close>

text \<open>A document that only had its caches, scratch buffer or error offset written.\<close>

definition keeps :: "document \<Rightarrow> document \<Rightarrow> bool" where
  "keeps d d' \<longleftrightarrow> doc_buf d' = doc_buf d \<and> indices d' = indices d \<and> eager_validated d' = eager_validated d \<and>
     (doc_inv d \<longrightarrow> doc_inv d')"

lemma keeps_refl [simp]: "keeps d d"
  by (simp add: keeps_def)

lemma keeps_trans: "keeps d d' \<Longrightarrow> keeps d' d'' \<Longrightarrow> keeps d d''"
  by (auto simp: keeps_def)

lemma keeps_denotes: "keeps d d' \<Longrightarrow> denotes d' cur v = denotes d cur v"
  by (simp add: keeps_def denotes_def)

lemma cached_children_updates [simp]:
  "cached_children (d\<lparr>scratch := s\<rparr>) = cached_children d"
  "cached_children (d\<lparr>last_error_offset := n\<rparr>) = cached_children d"
  by (simp_all add: cached_children_def fun_eq_iff)

lemma keeps_updates [simp]:
  "keeps d (set_last_error_offset n d)" "keeps d (clear_last_error_offset d)" "keeps d (d\<lparr>scratch := s\<rparr>)"
  by (simp_all add: keeps_def set_last_error_offset_def clear_last_error_offset_def doc_inv_def indexed_def)

lemma same_text_keeps: "same_text d d' \<Longrightarrow> doc_inv d' \<Longrightarrow> keeps d d'"
  by (simp add: keeps_def same_text_sel)

lemma update_sel [simp]:
  "scratch (set_last_error_offset n d) = scratch d" "last_error_offset (set_last_error_offset n d) = n"
  "last_error_offset (d\<lparr>scratch := s\<rparr>) = last_error_offset d"
  by (simp_all add: set_last_error_offset_def)

text \<open>
  A reader at a value returns what the specification says, leaves the strings returned before
  alone, and on an error records the offset of the value.
\<close>

definition reads_as :: "document \<Rightarrow> json \<Rightarrow> ('a, qjson_err) outcome \<Rightarrow> 'a with_doc \<Rightarrow> bool" where
  "reads_as d v spec r \<longleftrightarrow> fst r = spec \<and> spec \<noteq> Panic \<and> keeps d (snd r) \<and> scratch (snd r) = scratch d \<and>
     (case spec of Err e \<Rightarrow> \<exists>n. text_at (doc_buf d) (last_error_offset (snd r)) n v | _ \<Rightarrow> snd r = d)"

lemma or_set_offset_reads:
  assumes "indexed d" "denotes d cur v" "spec \<noteq> Panic"
  shows "reads_as d v spec (or_set_offset cur spec d)"
  using value_start[OF assms(1,2)] assms(3)
  by (cases spec)
    (auto simp: reads_as_def or_set_offset_def set_doc_error_offset_for_cursor_def bind_doc_def)

definition value_i64 :: "json \<Rightarrow> (int, qjson_err) outcome" where
  "value_i64 v =
     (case v of
        JScalar t \<Rightarrow>
          if \<not> json_number t \<or> has_frac_or_exp t then Err QJSON_TYPE_MISMATCH
          else if - (2 ^ 63) \<le> int_value t \<and> int_value t < 2 ^ 63 then Ok (int_value t)
          else Err QJSON_OUT_OF_RANGE
      | _ \<Rightarrow> Err QJSON_TYPE_MISMATCH)"

definition value_u64 :: "json \<Rightarrow> (nat, qjson_err) outcome" where
  "value_u64 v =
     (case v of
        JScalar t \<Rightarrow>
          if \<not> json_number t \<or> has_frac_or_exp t then Err QJSON_TYPE_MISMATCH
          else if hd t = 45 \<or> 2 ^ 64 \<le> int_value t then Err QJSON_OUT_OF_RANGE
          else Ok (nat (int_value t))
      | _ \<Rightarrow> Err QJSON_TYPE_MISMATCH)"

text \<open>
  \<open>get_bool\<close> and \<open>get_f64\<close> read the bytes before the token of a string or container, none, unless
  the value is the root.
\<close>

definition value_bool :: "nat \<Rightarrow> json \<Rightarrow> (int, qjson_err) outcome" where
  "value_bool s v =
     (case v of
        JScalar t \<Rightarrow> if t = bs ''true'' then Ok 1 else if t = bs ''false'' then Ok 0 else Err QJSON_TYPE_MISMATCH
      | _ \<Rightarrow> Err (if s = 0 then QJSON_PARSE_ERROR else QJSON_TYPE_MISMATCH))"

definition value_f64 :: "bool \<Rightarrow> nat \<Rightarrow> json \<Rightarrow> (f64, qjson_err) outcome" where
  "value_f64 eager s v =
     (case v of
        JScalar t \<Rightarrow> parse_f64 t eager
      | _ \<Rightarrow> Err (if s = 0 then QJSON_PARSE_ERROR else QJSON_INVALID_NUMBER))"

lemma denoted_scalar:
  assumes "denotes d cur (JScalar t)"
  shows "json_scalar t"
proof -
  from assms have "located (doc_buf d) (idx_start cur) (JScalar t)" by (simp add: denotes_def)
  then obtain pre t' post where "tree t' (JScalar t)" by (rule located_text)
  then show ?thesis by (auto elim: tree.cases)
qed

lemma number_bytes_ok:
  assumes ix: "indexed d" and den: "denotes d cur v"
  shows "number_bytes d cur = (case v of JScalar t \<Rightarrow> if json_number t then Ok t else Err QJSON_TYPE_MISMATCH
    | _ \<Rightarrow> Err QJSON_TYPE_MISMATCH)"
proof (cases v)
  case (JScalar t)
  show ?thesis
    using type_of_ok[OF ix den] number_type[OF denoted_scalar] scalar_bytes_ok[OF ix] den
    by (simp add: number_bytes_def JScalar del: json_type.simps and_then_eq_Ok)
qed (use type_of_ok[OF ix den] in \<open>simp_all add: number_bytes_def del: and_then_eq_Ok\<close>)

lemma read_i64_ok:
  assumes ix: "indexed d" and den: "denotes d cur v"
  shows "reads_as d v (value_i64 v) (read_i64 d cur)"
proof -
  have "and_then (number_bytes d cur) (\<lambda>b. parse_i64 b (eager_validated d)) = value_i64 v"
    by (cases v) (simp_all add: number_bytes_ok[OF ix den] value_i64_def parse_i64_validated del: and_then_eq_Ok)
  moreover have "value_i64 v \<noteq> Panic" by (simp add: value_i64_def split: json.split)
  ultimately show ?thesis
    using or_set_offset_reads[OF ix den] by (simp add: read_i64_def)
qed

lemma read_u64_ok:
  assumes ix: "indexed d" and den: "denotes d cur v"
  shows "reads_as d v (value_u64 v) (read_u64 d cur)"
proof -
  have "and_then (number_bytes d cur) (\<lambda>b. parse_u64 b (eager_validated d)) = value_u64 v"
    by (cases v) (simp_all add: number_bytes_ok[OF ix den] value_u64_def parse_u64_validated del: and_then_eq_Ok)
  moreover have "value_u64 v \<noteq> Panic" by (simp add: value_u64_def split: json.split)
  ultimately show ?thesis
    using or_set_offset_reads[OF ix den] by (simp add: read_u64_def)
qed

lemma read_bool_ok:
  assumes ix: "indexed d" and den: "denotes d cur v"
  shows "reads_as d v (value_bool (idx_start cur) v) (read_bool d cur)"
proof -
  have "and_then (scalar_bytes d cur) (\<lambda>b. if b = bs ''true'' then Ok 1 else if b = bs ''false'' then Ok 0
      else Err QJSON_TYPE_MISMATCH) = value_bool (idx_start cur) v"
  proof (cases v)
    case (JScalar t)
    with scalar_bytes_ok[OF ix] den show ?thesis by (simp add: value_bool_def del: and_then_eq_Ok)
  qed (simp_all add: scalar_bytes_other[OF ix den] value_bool_def del: and_then_eq_Ok)
  moreover have "value_bool (idx_start cur) v \<noteq> Panic" by (simp add: value_bool_def split: json.split)
  ultimately show ?thesis
    using or_set_offset_reads[OF ix den] by (simp add: read_bool_def)
qed

lemma parse_f64_no_panic: "parse_f64 b sk \<noteq> Panic"
  using validate_number_total[of b] by (auto simp: parse_f64_def and_then_eq_Panic split: option.splits)

lemma read_f64_ok:
  assumes ix: "indexed d" and den: "denotes d cur v"
  shows "reads_as d v (value_f64 (eager_validated d) (idx_start cur) v) (read_f64 d cur)"
proof -
  have "\<not> json_number []" using json_number_starts by blast
  then have empty: "parse_f64 [] sk = Err QJSON_INVALID_NUMBER" for sk
    by (cases sk) (simp_all add: parse_f64_def validate_number_not del: and_then_eq_Ok)
  have "and_then (scalar_bytes d cur) (\<lambda>b. parse_f64 b (eager_validated d)) =
      value_f64 (eager_validated d) (idx_start cur) v"
  proof (cases v)
    case (JScalar t)
    with scalar_bytes_ok[OF ix] den show ?thesis by (simp add: value_f64_def del: and_then_eq_Ok)
  qed (simp_all add: scalar_bytes_other[OF ix den] value_f64_def empty del: and_then_eq_Ok)
  moreover have "value_f64 (eager_validated d) (idx_start cur) v \<noteq> Panic"
    by (simp add: value_f64_def parse_f64_no_panic split: json.split)
  ultimately show ?thesis
    using or_set_offset_reads[OF ix den] by (simp add: read_f64_def)
qed

lemma read_type_ok:
  assumes ix: "indexed d" and den: "denotes d cur v"
  shows "read_type d cur = (Ok (json_type v), d)"
  by (simp add: read_type_def type_of_ok[OF ix den] or_set_offset_def)

lemma read_len_ok:
  assumes ix: "indexed d" and den: "denotes d cur v"
  shows "reads_as d v (if is_container v then Ok (length (children v)) else Err QJSON_TYPE_MISMATCH) (read_len d cur)"
  unfolding read_len_def cursor_len_ok[OF ix den] by (rule or_set_offset_reads[OF ix den]) simp

text \<open>A string read returns a reference to the text the literal denotes.\<close>

lemma read_str_ok:
  assumes ix: "indexed d" and den: "denotes d cur v"
  shows "case v of
      JString body \<Rightarrow> \<exists>cps s r. string_denotes body cps \<and> read_str tgt d cur = (Ok r, d\<lparr>scratch := s\<rparr>) \<and>
        ref_bytes (doc_buf d) s r = utf8_text cps
    | _ \<Rightarrow> reads_as d v (Err QJSON_TYPE_MISMATCH) (read_str tgt d cur)"
proof (cases "\<exists>body. v = JString body")
  case True
  then obtain body where v: "v = JString body" by blast
  from den have loc: "located (doc_buf d) (idx_start cur) (JString body)" by (simp add: denotes_def v)
  note sl = string_layout[OF ix loc]
  from sl(5) obtain cps where cps: "string_denotes body cps" by (auto simp: json_string_def)
  define s where "s = unat (indices d ! idx_start cur) + 1"
  define e where "e = unat (indices d ! (idx_start cur + 1))"
  have se: "s \<le> e" "e \<le> length (doc_buf d)" "slice s e (doc_buf d) = body"
    using sl(2,3,4) by (simp_all add: s_def e_def token_at_def)
  have "string_denotes (slice s e (doc_buf d)) cps" using cps se(3) by simp
  from decode_string_denotes[OF se(1,2) this, of tgt "scratch d" "eager_validated d"]
  obtain sc r where r: "decode_string tgt (doc_buf d) s e (scratch d) (eager_validated d) = (sc, Ok r)"
    "ref_bytes (doc_buf d) sc r = utf8_text cps" by blast
  then have "read_str tgt d cur = (Ok r, d\<lparr>scratch := sc\<rparr>)"
    using token_at_outcome[OF sl(1)] token_at_outcome[OF sl(2)]
    by (simp add: read_str_def token_at_outcome(1)[OF sl(1)] token_at_outcome(1)[OF sl(2), simplified] s_def e_def Let_def)
  with cps r(2) show ?thesis by (auto simp: v)
next
  case False
  have "\<exists>pos. at (indices d) (idx_start cur) = (Ok pos :: (u32, qjson_err) outcome) \<and> slice_get (doc_buf d) (unat pos) \<noteq> Some 34"
    using ix den
  proof (cases rule: denoted_token)
    case root_scalar
    with ix show ?thesis by (auto simp: at_def slice_get_def indexed_def)
  next
    case (token b)
    then have "b \<noteq> 34" using False by (cases v) (auto simp: opener_def)
    with token(1) show ?thesis
      using token_at_outcome(1)[OF token(1), where ?'a = qjson_err] token_at_outcome(4)[OF token(1)] by auto
  qed
  then have "read_str tgt d cur = or_set_offset cur (Err QJSON_TYPE_MISMATCH) d"
    by (auto simp: read_str_def)
  with or_set_offset_reads[OF ix den, of "Err QJSON_TYPE_MISMATCH"] False show ?thesis
    by (auto split: json.split)
qed

end
