(* ===== verification/Api.thy ===== *)
theory Api
  imports Access
begin

text \<open>
  Objects through the C interface, entry by entry and with an iterator, and the interface as a
  whole: any sequence of calls on documents that hold JSON texts keeps them intact and never
  meets a panic.
\<close>

section \<open>Keys\<close>

lemma decode_key_ok:
  assumes "open_pos + 1 \<le> close_pos" "close_pos \<le> length (doc_buf d)"
    "slice (open_pos + 1) close_pos (doc_buf d) = k" "string_denotes k cps"
  shows "\<exists>s r. decode_key tgt d open_pos close_pos = (Ok r, d\<lparr>scratch := s\<rparr>) \<and> ref_bytes (doc_buf d) s r = utf8_text cps"
proof -
  have "string_denotes (slice (open_pos + 1) close_pos (doc_buf d)) cps" using assms(3,4) by simp
  from decode_string_denotes[OF assms(1,2) this, of tgt "scratch d" "eager_validated d"]
  obtain s r where "decode_string tgt (doc_buf d) (open_pos + 1) close_pos (scratch d) (eager_validated d) = (s, Ok r)"
    "ref_bytes (doc_buf d) s r = utf8_text cps" by blast
  then show ?thesis by (auto simp: decode_key_def intro!: exI[of _ s])
qed

lemma key_bytes_Ok:
  assumes "key_bytes d True i = Ok k"
  shows "at (indices d) i = Ok (indices d ! i)" "at (indices d) (i + 1) = Ok (indices d ! (i + 1))"
    "unat (indices d ! i) + 1 \<le> unat (indices d ! (i + 1))" "unat (indices d ! (i + 1)) \<le> length (doc_buf d)"
    "slice (unat (indices d ! i) + 1) (unat (indices d ! (i + 1))) (doc_buf d) = k"
  using assms by (auto simp: key_bytes_def at_def slice_at_def split: if_splits)

lemma member_keys:
  "tree t v \<Longrightarrow> True" "elements es vs \<Longrightarrow> True"
  "members ms kvs \<Longrightarrow> \<forall>(k, v) \<in> set kvs. json_string (34 # k @ [34])"
  by (induction rule: tree_elements_members.inducts) auto

lemma denoted_keys:
  assumes "denotes d cur (JObject kvs)" "(k, v) \<in> set kvs"
  shows "\<exists>cps. string_denotes k cps"
proof -
  from assms(1) have "located (doc_buf d) (idx_start cur) (JObject kvs)" by (simp add: denotes_def)
  then obtain pre t post where "tree t (JObject kvs)" by (rule located_text)
  then have "json_string (34 # k @ [34])"
    using member_keys(3) assms(2) by (cases rule: tree.cases) fastforce+
  then show ?thesis by (auto simp: json_string_def)
qed

section \<open>Entries by number\<close>

lemma object_entry_at_ok:
  assumes ix: "indexed d" and den: "denotes d cur v"
  shows "case v of
      JObject kvs \<Rightarrow>
        if n < length kvs
        then \<exists>cps s r c. string_denotes (fst (kvs ! n)) cps \<and>
          object_entry_at tgt p d cur n = (Ok (r, internal_to_cursor (Some p) c), d\<lparr>scratch := s\<rparr>) \<and>
          ref_bytes (doc_buf d) s r = utf8_text cps \<and> denotes d c (snd (kvs ! n)) \<and>
          c = child_cursor (idx_start cur + 1) (children v) n
        else reads_as d v (Err QJSON_NOT_FOUND) (object_entry_at tgt p d cur n)
    | _ \<Rightarrow> reads_as d v (Err QJSON_TYPE_MISMATCH) (object_entry_at tgt p d cur n)"
proof -
  note entry = nth_object_entry_ok[OF ix den, of n]
  have err: "reads_as d v (Err e) (object_entry_at tgt p d cur n)" if "nth_object_entry d cur n = Err e" for e
    using or_set_offset_reads[OF ix den, of "Err e"] that by (simp add: object_entry_at_def)
  show ?thesis
  proof (cases v)
    case (JObject kvs)
    show ?thesis
    proof (cases "n < length kvs")
      case True
      with entry JObject obtain i c where e: "nth_object_entry d cur n = Ok (i, c)"
        "key_bytes d True i = Ok (fst (kvs ! n))" "denotes d c (snd (kvs ! n))"
        "c = child_cursor (idx_start cur + 1) (children v) n" by auto
      note kb = key_bytes_Ok[OF e(2)]
      have "(fst (kvs ! n), snd (kvs ! n)) \<in> set kvs" using True by simp
      from denoted_keys[OF den[unfolded JObject] this] obtain cps where cps: "string_denotes (fst (kvs ! n)) cps" by blast
      from decode_key_ok[OF kb(3,4,5) cps, of tgt] obtain s r where
        "decode_key tgt d (unat (indices d ! i)) (unat (indices d ! (i + 1))) = (Ok r, d\<lparr>scratch := s\<rparr>)"
        "ref_bytes (doc_buf d) s r = utf8_text cps" by blast
      with True cps e(1,3,4) show ?thesis
        by (auto simp: JObject object_entry_at_def bind_doc_def kb(1) kb(2)[simplified] intro!: exI[of _ cps])
    next
      case False
      with entry err JObject show ?thesis by simp
    qed
  qed (use entry err in auto)
qed

section \<open>Iterators\<close>

text \<open>The iterator \<open>it\<close> still has the members \<open>kvs\<close> to deliver.\<close>

definition iter_at :: "document \<Rightarrow> qjson_iter \<Rightarrow> (bytes \<times> json) list \<Rightarrow> bool" where
  "iter_at d it kvs \<longleftrightarrow>
     (if kvs = [] then qi_idx_current it = qi_idx_end it
      else children_at d True (qi_idx_current it) (children (JObject kvs)) 125 \<and>
        qi_idx_end it = qi_idx_current it + width (children (JObject kvs)))"

lemma iter_start_ok:
  assumes ix: "indexed d" and den: "denotes d cur (JObject kvs)"
  shows "\<exists>it. iter_start p d cur = (Ok it, d) \<and> qi_doc it = Some p \<and> iter_at d it kvs"
proof -
  from den have loc: "located (doc_buf d) (idx_start cur) (JObject kvs)"
    and ce: "idx_end cur = cend (idx_start cur) (JObject kvs)" by (simp_all add: denotes_def)
  have cur: "cur = cursor_at (idx_start cur) (cend (idx_start cur) (JObject kvs))"
    by (simp add: cursor_at_def ce[symmetric])
  note lay = container_layout[OF ix loc, simplified]
  note emp = lay(3)[folded cur]
  have op: "opener (JObject kvs) = 123" "closer (JObject kvs) = 125" by (simp_all add: opener_def closer_def)
  note tok = token_at_outcome[OF lay(1)]
  define it where "it = \<lparr>qi_doc = Some p,
    qi_idx_current = (if kvs = [] then idx_end cur else idx_start cur + 1), qi_idx_end = idx_end cur\<rparr>"
  have "iter_start p d cur = (Ok it, d)"
    using emp tok(4) op by (simp add: iter_start_def tok(1) it_def del: and_then_eq_Ok)
  moreover have "iter_at d it kvs"
    using lay(4,6) op ce by (auto simp: iter_at_def it_def)
  ultimately show ?thesis by (simp add: it_def)
qed

lemma iter_advance_end: "iter_at d it [] \<Longrightarrow> iter_advance tgt p it d = (Err QJSON_NOT_FOUND, None, it, d)"
  by (simp add: iter_at_def iter_advance_def)

lemma iter_advance_ok:
  assumes ix: "indexed d" and it: "iter_at d it ((k, v) # kvs)"
  shows "\<exists>cps s r c it'. string_denotes k cps \<and>
    iter_advance tgt p it d = (Ok (), Some (r, internal_to_cursor (Some p) c), it', d\<lparr>scratch := s\<rparr>) \<and>
    ref_bytes (doc_buf d) s r = utf8_text cps \<and> denotes d c v \<and> qi_doc it' = qi_doc it \<and> iter_at d it' kvs"
proof -
  define i where "i = qi_idx_current it"
  define cs where "cs = children (JObject kvs)"
  from it have ch: "children_at d True i ((Some k, v) # cs) 125" and e: "qi_idx_end it = i + width ((Some k, v) # cs)"
    by (simp_all add: iter_at_def i_def cs_def)
  note st = children_at_step(2-5)[OF ix ch, unfolded pad_simps]
  note toks = children_at_key[OF ix ch]
  note kb = key_bytes_Ok[OF st(2)[OF refl]]
  note sp = placed_span[OF ix st(1)]
  from toks(4) obtain cps where cps: "string_denotes k cps" by (auto simp: json_string_def)
  from decode_key_ok[OF kb(3,4,5) cps, of tgt] obtain s r where
    dk: "decode_key tgt d (unat (indices d ! i)) (unat (indices d ! (i + 1))) = (Ok r, d\<lparr>scratch := s\<rparr>)"
      "ref_bytes (doc_buf d) s r = utf8_text cps" by blast
  define sep where "sep = (if cs = [] then 125 else 44 :: u8)"
  have sep_tok: "token_at d (i + 3 + ntoks v) sep" using st(3) by (simp add: sep_def)
  have pos: "iter_positions d i = Ok (unat (indices d ! i), unat (indices d ! (i + 1)), cend (i + 3) v, i + 3 + ntoks v, sep)"
    using token_at_outcome(4)[OF toks(1)] token_at_outcome(4)[OF toks(2)] token_at_outcome(4)[OF toks(3)]
      token_at_outcome(4)[OF sep_tok]
    by (simp add: iter_positions_def ok_or_def kb(1) kb(2)[simplified] token_at_outcome(1)[OF toks(3), simplified]
        token_at_outcome(1)[OF sep_tok] sp del: and_then_eq_Ok)
  have less: "\<not> qi_idx_end it \<le> qi_idx_current it" using e by (simp add: i_def)
  define c where "c = cursor_at (i + 3) (cend (i + 3) v)"
  have c: "denotes d c v" using st(1) by (simp add: c_def denotes_def cursor_at_def located_def)
  define it' where "it' = it\<lparr>qi_idx_current := (if cs = [] then qi_idx_end it else i + 3 + ntoks v + 1)\<rparr>"
  have "iter_advance tgt p it d = (Ok (), Some (r, internal_to_cursor (Some p) c), it', d\<lparr>scratch := s\<rparr>)"
    using less pos dk(1) unfolding iter_advance_def i_def[symmetric]
    by (auto simp: it'_def sep_def c_def i_def[symmetric])
  moreover have "iter_at d it' kvs"
  proof (cases "kvs = []")
    case True
    then show ?thesis by (simp add: iter_at_def it'_def cs_def)
  next
    case False
    then have "cs \<noteq> []" by (simp add: cs_def)
    with st(4) e show ?thesis unfolding iter_at_def cs_def[symmetric] by (simp add: it'_def False)
  qed
  ultimately show ?thesis using cps dk(2) c by (intro exI[of _ cps] exI[of _ s] exI[of _ r] exI[of _ c] exI[of _ it']) (simp add: it'_def)
qed

section \<open>Results of the exported functions\<close>

text \<open>A step on one document that neither panics nor damages it.\<close>

definition safe_result :: "document \<Rightarrow> 'a with_doc \<Rightarrow> bool" where
  "safe_result d r \<longleftrightarrow> fst r \<noteq> Panic \<and> fst r \<noteq> Err QJSON_OOM \<and> keeps d (snd r)"

lemma reads_as_safe: "reads_as d v spec r \<Longrightarrow> spec \<noteq> Err QJSON_OOM \<Longrightarrow> safe_result d r"
  by (auto simp: reads_as_def safe_result_def)

lemma safe_bind:
  assumes "safe_result d r" "\<And>x d'. r = (Ok x, d') \<Longrightarrow> safe_result d' (f x d')"
  shows "safe_result d (bind_doc r f)"
  using assms by (cases r; cases "fst r") (auto simp: safe_result_def bind_doc_def intro: keeps_trans)

lemma child_errors: "child v seg = Err e \<Longrightarrow> e = QJSON_NOT_FOUND \<or> e = QJSON_TYPE_MISMATCH"
  by (cases v; cases seg) (auto split: option.splits if_splits)

lemma lookup_path_errors:
  "lookup_path v path = Err e \<Longrightarrow> e \<in> {QJSON_NOT_FOUND, QJSON_TYPE_MISMATCH, QJSON_INVALID_PATH}"
proof (induction v path rule: lookup_path.induct)
  case (1 v path)
  from "1.prems" show ?case
    by (auto simp: lookup_path.simps[of v path] and_then_eq_Err dest: "1.IH"[rotated 3] child_errors path_next_errors
        split: prod.splits option.splits outcome.splits)
qed

text \<open>Resolving from a denoting cursor, as a step of a function.\<close>

lemma resolve_safe:
  assumes "doc_inv d" "denotes d cur v" "resolve d cur path = (r, d')"
  shows "r \<noteq> Panic" "r \<noteq> Err QJSON_OOM" "keeps d d'" "doc_inv d'" "\<And>c. r = Ok c \<Longrightarrow> \<exists>w. denotes d' c w"
proof -
  from resolve_ok[OF assms(1,2), of path] assms(3)
  have a: "agrees d (lookup_path v path) r" and inv: "doc_inv d'" and st: "same_text d d'" by auto
  show "keeps d d'" using st inv by (rule same_text_keeps)
  show "doc_inv d'" by (rule inv)
  from a show "r \<noteq> Panic" by (auto simp: agrees_def split: outcome.splits)
  from a lookup_path_errors[of v path] show "r \<noteq> Err QJSON_OOM"
    by (auto simp: agrees_def split: outcome.splits)
  show "\<exists>w. denotes d' c w" if "r = Ok c" for c
    using a that same_text_denotes[OF st] by (auto simp: agrees_def split: outcome.splits)
qed

lemma or_set_offset_safe:
  "indexed d \<Longrightarrow> denotes d cur v \<Longrightarrow> e \<noteq> QJSON_OOM \<Longrightarrow> safe_result d (or_set_offset cur (Err e) d)"
  by (rule reads_as_safe[OF or_set_offset_reads]) simp_all

text \<open>The readers.\<close>

definition safe_body :: "(document \<Rightarrow> cursor \<Rightarrow> 'a with_doc) \<Rightarrow> bool" where
  "safe_body body \<longleftrightarrow> (\<forall>d cur v. doc_inv d \<longrightarrow> denotes d cur v \<longrightarrow> safe_result d (body d cur))"

lemma doc_inv_indexed: "doc_inv d \<Longrightarrow> indexed d"
  by (simp add: doc_inv_def)

lemma safe_readers:
  "safe_body read_i64" "safe_body read_u64" "safe_body read_f64" "safe_body read_bool" "safe_body read_type"
  "safe_body read_len" "safe_body (read_str tgt)"
proof -
  show "safe_body read_i64"
    unfolding safe_body_def
    by (auto intro!: reads_as_safe[OF read_i64_ok] simp: doc_inv_indexed value_i64_def split: json.splits if_splits)
  show "safe_body read_u64"
    unfolding safe_body_def
    by (auto intro!: reads_as_safe[OF read_u64_ok] simp: doc_inv_indexed value_u64_def split: json.splits if_splits)
  have "parse_f64 t e \<noteq> Err QJSON_OOM" for t e
    using validate_number_total[of t] by (auto simp: parse_f64_def and_then_eq_Err split: option.splits if_splits)
  then show "safe_body read_f64"
    unfolding safe_body_def
    by (auto intro!: reads_as_safe[OF read_f64_ok] simp: doc_inv_indexed value_f64_def split: json.splits if_splits)
  show "safe_body read_bool"
    unfolding safe_body_def
    by (auto intro!: reads_as_safe[OF read_bool_ok] simp: doc_inv_indexed value_bool_def split: json.splits if_splits)
  show "safe_body read_type"
    unfolding safe_body_def by (auto simp: doc_inv_indexed read_type_ok safe_result_def)
  show "safe_body read_len"
    unfolding safe_body_def
    by (auto intro!: reads_as_safe[OF read_len_ok] simp: doc_inv_indexed split: if_splits)
  show "safe_body (read_str tgt)"
    unfolding safe_body_def
  proof safe
    fix d cur v assume inv: "doc_inv d" and den: "denotes d cur v"
    from read_str_ok[OF doc_inv_indexed[OF inv] den, of tgt] show "safe_result d (read_str tgt d cur)"
      using reads_as_safe[of d v "Err QJSON_TYPE_MISMATCH" "read_str tgt d cur"]
      by (cases v) (auto simp: safe_result_def)
  qed
qed

section \<open>The heap\<close>

definition heap_keeps :: "heap \<Rightarrow> heap \<Rightarrow> bool" where
  "heap_keeps h h' \<longleftrightarrow> (\<forall>p. rel_option keeps (h p) (h' p))"

definition valid_doc :: "document \<Rightarrow> bool" where
  "valid_doc d \<longleftrightarrow> doc_inv d \<and> (\<exists>v. json_doc (doc_buf d) v)"

definition valid_heap :: "heap \<Rightarrow> bool" where
  "valid_heap h \<longleftrightarrow> (\<forall>p d. h p = Some d \<longrightarrow> valid_doc d)"

lemma heap_keeps_refl [simp]: "heap_keeps h h"
  by (simp add: heap_keeps_def option.rel_refl)

lemma heap_keeps_trans: "heap_keeps h h1 \<Longrightarrow> heap_keeps h1 h2 \<Longrightarrow> heap_keeps h h2"
  unfolding heap_keeps_def by (metis (no_types, lifting) keeps_trans option.rel_sel)

lemma heap_keepsD: "heap_keeps h h' \<Longrightarrow> h p = Some d \<Longrightarrow> \<exists>d'. h' p = Some d' \<and> keeps d d'"
  unfolding heap_keeps_def by (metis option_rel_Some1)

lemma heap_keeps_upd: "h p = Some d \<Longrightarrow> keeps d d' \<Longrightarrow> heap_keeps h (h(p \<mapsto> d'))"
  by (auto simp: heap_keeps_def intro: option.rel_refl)

lemma keeps_valid: "keeps d d' \<Longrightarrow> valid_doc d \<Longrightarrow> valid_doc d'"
  by (auto simp: keeps_def valid_doc_def)

lemma heap_keeps_valid: "heap_keeps h h' \<Longrightarrow> valid_heap h \<Longrightarrow> valid_heap h'"
  unfolding heap_keeps_def valid_heap_def by (metis keeps_valid option_rel_Some2)

lemma clear_keeps: "heap_keeps h (clear_doc_error_offset_if_available h doc)"
  by (cases doc; cases "h (the doc)")
    (auto simp: clear_doc_error_offset_if_available_def heap_keeps_def option.rel_refl)

lemma err_code_OOM: "err_code e = 8 \<longleftrightarrow> e = QJSON_OOM"
  by (cases e) simp_all

lemma ffi_catch_code:
  assumes "ffi_catch r = (code, w, h')" "fst r \<noteq> Panic" "fst r \<noteq> Err QJSON_OOM"
  shows "code \<noteq> err_code QJSON_OOM" "h' = snd r" "\<And>x. w = Some x \<Longrightarrow> fst r = Ok x"
  using assms by (auto simp: ffi_catch_def err_code_OOM split: prod.splits outcome.splits)

lemma on_doc_safe:
  assumes "h p = Some d" "safe_result d (f d)"
  shows "fst (on_doc h p f) \<noteq> Panic" "fst (on_doc h p f) \<noteq> Err QJSON_OOM" "heap_keeps h (snd (on_doc h p f))"
    "fst (on_doc h p f) = fst (f d)" "snd (on_doc h p f) p = Some (snd (f d))"
  using assms heap_keeps_upd[of h p d, OF assms(1)] by (auto simp: on_doc_def safe_result_def split: prod.splits)

text \<open>A null document, or a live one.\<close>

definition live :: "heap \<Rightarrow> nat option \<Rightarrow> bool" where
  "live h doc \<longleftrightarrow> (case doc of None \<Rightarrow> True | Some p \<Rightarrow> h p \<noteq> None)"

lemma resolve_root_path_safe:
  assumes valid: "valid_heap h" and lv: "live h doc"
  shows "fst (resolve_root_path h doc path) \<noteq> Panic" "fst (resolve_root_path h doc path) \<noteq> Err QJSON_OOM"
    "heap_keeps h (snd (resolve_root_path h doc path))"
    "\<And>p cur. fst (resolve_root_path h doc path) = Ok (p, cur) \<Longrightarrow>
       \<exists>d v. doc = Some p \<and> snd (resolve_root_path h doc path) p = Some d \<and> denotes d cur v"
proof -
  have "fst (resolve_root_path h doc path) \<noteq> Panic \<and> fst (resolve_root_path h doc path) \<noteq> Err QJSON_OOM \<and>
    heap_keeps h (snd (resolve_root_path h doc path)) \<and>
    (\<forall>p cur. fst (resolve_root_path h doc path) = Ok (p, cur) \<longrightarrow>
       (\<exists>d v. doc = Some p \<and> snd (resolve_root_path h doc path) p = Some d \<and> denotes d cur v))"
  proof (cases doc)
    case (Some p)
    with lv obtain d where d: "h p = Some d" by (auto simp: live_def)
    with valid obtain v where inv: "doc_inv d" and v: "json_doc (doc_buf d) v"
      by (auto simp: valid_heap_def valid_doc_def)
    obtain r d' where r: "resolve d (cursor_root d) (slice_bytes path) = (r, d')" by force
    note rs = resolve_safe[OF inv root_denotes[OF doc_inv_indexed[OF inv] v] r]
    show ?thesis
      using rs Some d heap_keeps_upd[of h p d, OF d rs(3)]
      by (cases r) (auto simp: resolve_root_path_def on_doc_def bind_doc_def r)
  qed (simp add: resolve_root_path_def)
  then show "fst (resolve_root_path h doc path) \<noteq> Panic" "fst (resolve_root_path h doc path) \<noteq> Err QJSON_OOM"
    "heap_keeps h (snd (resolve_root_path h doc path))"
    "\<And>p cur. fst (resolve_root_path h doc path) = Ok (p, cur) \<Longrightarrow>
       \<exists>d v. doc = Some p \<and> snd (resolve_root_path h doc path) p = Some d \<and> denotes d cur v"
    by blast+
qed

text \<open>What a call that wrote \<open>x\<close> did: a body ran on a live document at a denoting cursor.\<close>

definition wrote :: "heap \<Rightarrow> nat \<Rightarrow> (document \<Rightarrow> cursor \<Rightarrow> 'a with_doc) \<Rightarrow> 'a \<Rightarrow> bool" where
  "wrote h' p body x \<longleftrightarrow> (\<exists>d cur v d'. doc_inv d \<and> denotes d cur v \<and> body d cur = (Ok x, d') \<and> keeps d d' \<and> h' p = Some d')"

lemma on_doc_catch:
  assumes d: "h1 p = Some d" "doc_inv d" "denotes d cur v" and body: "safe_body body" and k: "heap_keeps h h1"
    and run: "ffi_catch (on_doc h1 p (\<lambda>d. body d cur)) = (code, w, h')"
  shows "code \<noteq> err_code QJSON_OOM" "heap_keeps h h'" "\<And>x. w = Some x \<Longrightarrow> wrote h' p body x"
proof -
  have safe: "safe_result d (body d cur)" using body d(2,3) by (auto simp: safe_body_def)
  note od = on_doc_safe[of h1 p d "\<lambda>d. body d cur", OF d(1) safe]
  note fc = ffi_catch_code[OF run od(1,2)]
  show "code \<noteq> err_code QJSON_OOM" by (rule fc(1))
  show "heap_keeps h h'" using heap_keeps_trans[OF k od(3)] fc(2) by simp
  show "wrote h' p body x" if "w = Some x" for x
  proof -
    from fc(3)[OF that] od(4) have "body d cur = (Ok x, snd (body d cur))" by (metis prod.collapse)
    moreover have "keeps d (snd (body d cur))" using safe by (simp add: safe_result_def)
    moreover have "h' p = Some (snd (body d cur))" using fc(2) od(5) by simp
    ultimately show ?thesis using d(2,3) unfolding wrote_def by blast
  qed
qed

lemma valid_heapD: "valid_heap h \<Longrightarrow> h p = Some d \<Longrightarrow> doc_inv d"
  by (simp add: valid_heap_def valid_doc_def)

lemma root_op_safe:
  assumes valid: "valid_heap h" and lv: "live h doc" and body: "safe_body body"
    and run: "root_op h doc path out body = (code, w, h')"
  shows "code \<noteq> err_code QJSON_OOM" "heap_keeps h h'" "\<And>x. w = Some x \<Longrightarrow> \<exists>p. doc = Some p \<and> wrote h' p body x"
proof -
  define h1 where "h1 = clear_doc_error_offset_if_available h doc"
  have k1: "heap_keeps h h1" unfolding h1_def by (rule clear_keeps)
  have valid1: "valid_heap h1" using k1 valid by (rule heap_keeps_valid)
  have lv1: "live h1 doc"
    using lv by (auto simp: live_def h1_def clear_doc_error_offset_if_available_def split: option.splits)
  note rs = resolve_root_path_safe[OF valid1 lv1, of path]
  obtain r h2 where r: "resolve_root_path h1 doc path = (r, h2)" by force
  note rs = rs[unfolded r, simplified]
  have k2: "heap_keeps h h2" by (rule heap_keeps_trans[OF k1 rs(3)])
  have "code \<noteq> err_code QJSON_OOM \<and> heap_keeps h h' \<and> (\<forall>x. w = Some x \<longrightarrow> (\<exists>p. doc = Some p \<and> wrote h' p body x))"
  proof (cases "out \<and> (\<exists>p cur. r = Ok (p, cur))")
    case True
    then obtain p cur where rp: "r = Ok (p, cur)" and o: out by blast
    from rs(4)[OF rp] obtain d v where d: "doc = Some p" "h2 p = Some d" "denotes d cur v" by blast
    have inv: "doc_inv d" by (rule valid_heapD[OF heap_keeps_valid[OF k2 valid] d(2)])
    have "ffi_catch (on_doc h2 p (\<lambda>d. body d cur)) = (code, w, h')"
      using run o by (simp add: root_op_def h1_def[symmetric] r rp)
    from on_doc_catch[OF d(2) inv d(3) body k2 this] d(1) show ?thesis by blast
  next
    case False
    then have "fst (if \<not> out then (Err QJSON_INVALID_ARG, h1) else
        case (r, h2) of (Ok (p, cur), h) \<Rightarrow> on_doc h p (\<lambda>d. body d cur) | (Err e, h) \<Rightarrow> (Err e, h) | (Panic, h) \<Rightarrow> (Panic, h))
        \<in> {Err e | e. e \<noteq> QJSON_OOM}"
      using rs(1,2) by (cases r) auto
    moreover have "snd (if \<not> out then (Err QJSON_INVALID_ARG, h1) else
        case (r, h2) of (Ok (p, cur), h) \<Rightarrow> on_doc h p (\<lambda>d. body d cur) | (Err e, h) \<Rightarrow> (Err e, h) | (Panic, h) \<Rightarrow> (Panic, h))
        \<in> {h1, h2}"
      using False by (cases r) auto
    ultimately show ?thesis
      using run k1 heap_keeps_trans[OF k1 rs(3)]
      by (auto simp: root_op_def h1_def[symmetric] r ffi_catch_def err_code_OOM split: prod.splits outcome.splits if_splits)
  qed
  then show "code \<noteq> err_code QJSON_OOM" "heap_keeps h h'" "\<And>x. w = Some x \<Longrightarrow> \<exists>p. doc = Some p \<and> wrote h' p body x"
    by blast+
qed

section \<open>Calls on cursors\<close>

text \<open>A null cursor, one without a document, or one that denotes a value of a live document.\<close>

definition cursor_ok :: "heap \<Rightarrow> qjson_cursor option \<Rightarrow> bool" where
  "cursor_ok h c \<longleftrightarrow>
     (case cursor_to_internal c of
        Ok (p, cur) \<Rightarrow> \<exists>d v. h p = Some d \<and> denotes d cur v
      | Err e \<Rightarrow> e = QJSON_INVALID_ARG
      | Panic \<Rightarrow> False)"

lemma cursor_ok_keeps: "heap_keeps h h' \<Longrightarrow> cursor_ok h c \<Longrightarrow> cursor_ok h' c"
  by (fastforce simp: cursor_ok_def keeps_denotes dest: heap_keepsD split: outcome.splits)

lemma clear_cursor_keeps: "heap_keeps h (clear_cursor_doc_error_offset_if_available h c)"
  by (simp add: clear_cursor_doc_error_offset_if_available_def clear_keeps split: option.split)

lemma cursor_body_safe:
  assumes valid: "valid_heap h" and c: "cursor_ok h c" and body: "\<And>p. safe_body (body p)"
    and run: "cursor_body h c ok body = (code, w, h')"
  shows "code \<noteq> err_code QJSON_OOM" "heap_keeps h h'" "\<And>x. w = Some x \<Longrightarrow> \<exists>p. wrote h' p (body p) x"
proof -
  define h1 where "h1 = clear_cursor_doc_error_offset_if_available h c"
  have k1: "heap_keeps h h1" unfolding h1_def by (rule clear_cursor_keeps)
  have c1: "cursor_ok h1 c" by (rule cursor_ok_keeps[OF k1 c])
  have "code \<noteq> err_code QJSON_OOM \<and> heap_keeps h h' \<and> (\<forall>x. w = Some x \<longrightarrow> (\<exists>p. wrote h' p (body p) x))"
  proof (cases "ok \<and> (\<exists>p cur. cursor_to_internal c = Ok (p, cur))")
    case True
    then obtain p cur where rp: "cursor_to_internal c = Ok (p, cur)" and o: ok by blast
    with c1 obtain d v where d: "h1 p = Some d" "denotes d cur v" by (auto simp: cursor_ok_def)
    have inv: "doc_inv d" by (rule valid_heapD[OF heap_keeps_valid[OF k1 valid] d(1)])
    have "ffi_catch (on_doc h1 p (\<lambda>d. body p d cur)) = (code, w, h')"
      using run o by (simp add: cursor_body_def h1_def[symmetric] rp)
    from on_doc_catch[OF d(1) inv d(2) body k1 this] show ?thesis by blast
  next
    case False
    with c1 have "cursor_body h c ok body = (err_code QJSON_INVALID_ARG, None, h1)"
      by (auto simp: cursor_body_def h1_def[symmetric] Let_def ffi_catch_def cursor_ok_def split: outcome.splits)
    with run k1 show ?thesis by auto
  qed
  then show "code \<noteq> err_code QJSON_OOM" "heap_keeps h h'" "\<And>x. w = Some x \<Longrightarrow> \<exists>p. wrote h' p (body p) x"
    by blast+
qed

section \<open>The remaining bodies\<close>

text \<open>
  A navigation: it neither panics nor damages the document, and the cursor it finds denotes a value.
\<close>

definition safe_nav :: "(document \<Rightarrow> cursor \<Rightarrow> cursor with_doc) \<Rightarrow> bool" where
  "safe_nav nav \<longleftrightarrow> (\<forall>d cur v. doc_inv d \<longrightarrow> denotes d cur v \<longrightarrow>
     safe_result d (nav d cur) \<and> (\<forall>c d'. nav d cur = (Ok c, d') \<longrightarrow> (\<exists>w. denotes d' c w)))"

definition after_nav :: "(document \<Rightarrow> cursor \<Rightarrow> cursor with_doc) \<Rightarrow> (document \<Rightarrow> cursor \<Rightarrow> 'a with_doc) \<Rightarrow> document \<Rightarrow> cursor \<Rightarrow> 'a with_doc" where
  "after_nav nav body d cur =
     (case nav d cur of
        (Ok c, d) \<Rightarrow> body d c
      | (Err e, d) \<Rightarrow> or_set_offset cur (Err e) d
      | (Panic, d) \<Rightarrow> (Panic, d))"

lemma safe_navD:
  assumes "safe_nav nav" "doc_inv d" "denotes d cur v" "nav d cur = (r, d1)"
  shows "r \<noteq> Panic" "r \<noteq> Err QJSON_OOM" "keeps d d1" "\<And>c. r = Ok c \<Longrightarrow> \<exists>w. denotes d1 c w"
proof -
  from assms(1)[unfolded safe_nav_def, rule_format, OF assms(2,3)] assms(4)
  show "r \<noteq> Panic" "r \<noteq> Err QJSON_OOM" "keeps d d1" "\<And>c. r = Ok c \<Longrightarrow> \<exists>w. denotes d1 c w"
    by (simp_all add: safe_result_def)
qed

lemma safe_nav_resolve: "safe_nav (\<lambda>d cur. resolve d cur path)"
  unfolding safe_nav_def
proof (intro allI impI)
  fix d cur v assume a: "doc_inv d" "denotes d cur v"
  obtain r d' where r: "resolve d cur path = (r, d')" by force
  from resolve_safe[OF a r] show "safe_result d (resolve d cur path) \<and>
      (\<forall>c d'. resolve d cur path = (Ok c, d') \<longrightarrow> (\<exists>w. denotes d' c w))"
    by (auto simp: r safe_result_def)
qed

lemma safe_nav_step: "safe_nav (\<lambda>d cur. step d cur seg)"
  unfolding safe_nav_def
proof (intro allI impI)
  fix d cur v assume a: "doc_inv d" "denotes d cur v"
  from step_ok[OF a, of seg] obtain r d' where r: "step d cur seg = (r, d')" "agrees d (child v seg) r" "doc_inv d'"
    "same_text d d'" by blast
  with child_errors[of v seg] same_text_keeps[OF r(4,3)] show "safe_result d (step d cur seg) \<and>
      (\<forall>c d'. step d cur seg = (Ok c, d') \<longrightarrow> (\<exists>w. denotes d' c w))"
    by (auto simp: agrees_def safe_result_def keeps_denotes split: outcome.splits)
qed

lemma keeps_doc_inv: "keeps d d' \<Longrightarrow> doc_inv d \<Longrightarrow> doc_inv d'"
  by (simp add: keeps_def)

lemma safe_result_trans: "keeps d d1 \<Longrightarrow> safe_result d1 r \<Longrightarrow> safe_result d r"
  by (auto simp: safe_result_def intro: keeps_trans)

lemma safe_after_nav:
  assumes "safe_nav nav" "safe_body body"
  shows "safe_body (after_nav nav body :: document \<Rightarrow> cursor \<Rightarrow> 'a with_doc)"
  unfolding safe_body_def
proof (intro allI impI)
  fix d cur v assume d: "doc_inv d" "denotes d cur v"
  obtain r d1 where r: "nav d cur = (r, d1)" by force
  note s = safe_navD[OF assms(1) d r]
  have inv: "doc_inv d1" by (rule keeps_doc_inv[OF s(3) d(1)])
  show "safe_result d (after_nav nav body d cur)"
  proof (cases r)
    case (Ok c)
    with s(4) obtain w where "denotes d1 c w" by blast
    with assms(2) inv have "safe_result d1 (body d1 c)" by (auto simp: safe_body_def)
    then show ?thesis using s(3) by (simp add: after_nav_def r Ok safe_result_trans)
  next
    case (Err e)
    with s have "safe_result d1 (or_set_offset cur (Err e :: ('a, qjson_err) outcome) d1)"
      using d(2) inv by (intro or_set_offset_safe[of _ _ v]) (auto simp: doc_inv_indexed keeps_denotes)
    then show ?thesis using s(3) by (simp add: after_nav_def r Err safe_result_trans)
  qed (use s(1) in simp)
qed

text \<open>The bodies that write a cursor.\<close>

definition give_cursor :: "nat \<Rightarrow> document \<Rightarrow> cursor \<Rightarrow> qjson_cursor with_doc" where
  "give_cursor p d cur = (Ok (internal_to_cursor (Some p) cur), d)"

lemma safe_give_cursor: "safe_body (give_cursor p)"
  by (simp add: safe_body_def safe_result_def give_cursor_def)

lemma after_nav_Ok:
  assumes "safe_nav nav" "doc_inv d" "denotes d cur v" "after_nav nav (give_cursor p) d cur = (Ok c, d')"
  shows "\<exists>cc w. c = internal_to_cursor (Some p) cc \<and> denotes d' cc w"
proof -
  obtain r d1 where r: "nav d cur = (r, d1)" by force
  from safe_navD(4)[OF assms(1-3) r] assms(4) show ?thesis
    by (cases r) (auto simp: r after_nav_def give_cursor_def or_set_offset_def bind_doc_def
        split: prod.splits outcome.splits)
qed

lemma safe_is_null: "safe_body (\<lambda>d cur. bind_doc (read_type d cur) (\<lambda>t d. (Ok (if t = QJSON_T_NULL then 1 else 0 :: int), d)))"
proof -
  have "safe_result d (bind_doc (read_type d cur) (\<lambda>t d. (Ok (if t = QJSON_T_NULL then 1 else 0 :: int), d)))"
    if "safe_result d (read_type d cur)" for d cur
    using that by (rule safe_bind) (simp add: safe_result_def)
  then show ?thesis using safe_readers(5) by (auto simp: safe_body_def)
qed

lemma safe_byte_range: "safe_body (\<lambda>d cur. (cursor_byte_range d cur, d))"
  unfolding safe_body_def
proof (intro allI impI)
  fix d cur v assume "doc_inv d" "denotes d cur v"
  from value_start[OF doc_inv_indexed[OF this(1)] this(2)] show "safe_result d (cursor_byte_range d cur, d)"
    by (auto simp: safe_result_def)
qed

lemma safe_object_entry_at: "safe_body (\<lambda>d cur. object_entry_at tgt p d cur n)"
  unfolding safe_body_def
proof (intro allI impI)
  fix d cur v assume "doc_inv d" "denotes d cur v"
  note entry = object_entry_at_ok[OF doc_inv_indexed[OF this(1)] this(2), of tgt p n]
  note err = reads_as_safe[of d v _ "object_entry_at tgt p d cur n"]
  show "safe_result d (object_entry_at tgt p d cur n)"
  proof (cases v)
    case (JObject kvs)
    with entry err[of "Err QJSON_NOT_FOUND"] show ?thesis by (auto simp: safe_result_def split: if_splits)
  qed (use entry err[of "Err QJSON_TYPE_MISMATCH"] in auto)
qed

lemma object_entry_at_gives:
  assumes "doc_inv d" "denotes d cur v" "object_entry_at tgt p d cur n = (Ok (r, c), d')"
  shows "\<exists>cc w. c = internal_to_cursor (Some p) cc \<and> denotes d' cc w"
proof -
  note entry = object_entry_at_ok[OF doc_inv_indexed[OF assms(1)] assms(2), of tgt p n]
  show ?thesis
  proof (cases v)
    case (JObject kvs)
    with entry assms(3) show ?thesis
      by (fastforce simp: reads_as_def keeps_denotes[OF keeps_updates(3)] split: if_splits)
  qed (use entry assms(3) in \<open>auto simp: reads_as_def\<close>)
qed

text \<open>An iterator starts at an object only.\<close>

lemma iter_start_other:
  assumes ix: "indexed d" and den: "denotes d cur v" and "\<nexists>kvs. v = JObject kvs"
  shows "\<exists>n. iter_start p d cur = (Err QJSON_TYPE_MISMATCH, set_last_error_offset n d)"
  using ix den
proof (cases rule: denoted_token)
  case (root_scalar t)
  then show ?thesis using ix by (auto simp: iter_start_def at_def slice_get_def indexed_def unat_U32_MAX)
next
  case (token b)
  then have "b \<noteq> 123" using assms(3) by (cases v) (auto simp: opener_def)
  then show ?thesis
    using token_at_outcome[OF token(1)] by (auto simp: iter_start_def token_at_outcome(1)[OF token(1)])
qed

lemma safe_iter_start: "safe_body (iter_start p)"
  unfolding safe_body_def
proof (intro allI impI)
  fix d cur v assume inv: "doc_inv d" and den: "denotes d cur v"
  show "safe_result d (iter_start p d cur)"
  proof (cases "\<exists>kvs. v = JObject kvs")
    case True
    then obtain kvs where "v = JObject kvs" by blast
    with iter_start_ok[OF doc_inv_indexed[OF inv], of cur kvs p] den show ?thesis by (auto simp: safe_result_def)
  next
    case False
    from iter_start_other[OF doc_inv_indexed[OF inv] den False, of p] show ?thesis by (auto simp: safe_result_def)
  qed
qed

end
