(* ===== verification/Calls.thy ===== *)
theory Calls
  imports Api Parse_Total
begin

text \<open>
  A client of the C interface: it parses documents, reads through them, keeps the cursors and
  iterators it was given, and frees. Any sequence of such calls keeps the documents and the
  cursors intact, and no call reports the panic code \<open>QJSON_OOM\<close>.
\<close>

section \<open>Clients\<close>

record client =
  mem :: heap
  held :: "qjson_cursor set"
  iters :: "qjson_iter set"

text \<open>An optional pointer argument: null, or one the client holds.\<close>

definition arg :: "'a set \<Rightarrow> 'a option \<Rightarrow> bool" where
  "arg S a \<longleftrightarrow> (case a of None \<Rightarrow> True | Some x \<Rightarrow> x \<in> S)"

datatype read = R_typeof | R_len | R_str | R_i64 | R_u64 | R_f64 | R_bool

definition code_heap :: "'a c_ret \<Rightarrow> int \<times> heap" where
  "code_heap r = (case r of (code, w, h) \<Rightarrow> (code, h))"

fun root_read :: "target \<Rightarrow> read \<Rightarrow> heap \<Rightarrow> nat option \<Rightarrow> c_slice \<Rightarrow> bool \<Rightarrow> int \<times> heap" where
  "root_read tgt R_typeof h doc path out = code_heap (qjson_typeof h doc path out)"
| "root_read tgt R_len h doc path out = code_heap (qjson_len h doc path out)"
| "root_read tgt R_str h doc path out = code_heap (qjson_get_str tgt h doc path out)"
| "root_read tgt R_i64 h doc path out = code_heap (qjson_get_i64 h doc path out)"
| "root_read tgt R_u64 h doc path out = code_heap (qjson_get_u64 h doc path out)"
| "root_read tgt R_f64 h doc path out = code_heap (qjson_get_f64 h doc path out)"
| "root_read tgt R_bool h doc path out = code_heap (qjson_get_bool h doc path out)"

fun cursor_read :: "target \<Rightarrow> read \<Rightarrow> heap \<Rightarrow> qjson_cursor option \<Rightarrow> c_slice \<Rightarrow> bool \<Rightarrow> int \<times> heap" where
  "cursor_read tgt R_typeof h c path out = code_heap (qjson_cursor_typeof h c path out)"
| "cursor_read tgt R_len h c path out = code_heap (qjson_cursor_len h c path out)"
| "cursor_read tgt R_str h c path out = code_heap (qjson_cursor_get_str tgt h c path out)"
| "cursor_read tgt R_i64 h c path out = code_heap (qjson_cursor_get_i64 h c path out)"
| "cursor_read tgt R_u64 h c path out = code_heap (qjson_cursor_get_u64 h c path out)"
| "cursor_read tgt R_f64 h c path out = code_heap (qjson_cursor_get_f64 h c path out)"
| "cursor_read tgt R_bool h c path out = code_heap (qjson_cursor_get_bool h c path out)"

text \<open>
  What may be parsed: null, or any bytes below 4 GiB in eager mode; in lazy mode, where parsing does
  not validate, a JSON text. On a malformed document parsed lazily the functions may panic: after
  lazy parsing of \<open>{,}\<close> a lookup reads past the end of the index.
\<close>

definition parseable :: "c_slice \<Rightarrow> options option \<Rightarrow> bool" where
  "parseable buf opts \<longleftrightarrow>
     (case buf of
        Null n \<Rightarrow> True
      | Bytes b \<Rightarrow> length b < 2 ^ 32 \<and>
          (is_eager (case opts of None \<Rightarrow> options_default | Some x \<Rightarrow> x) \<or> (\<exists>v. json_doc b v)))"

text \<open>What a call wrote through its out pointer is added to what the client holds.\<close>

definition keep_cursor :: "qjson_cursor c_ret \<Rightarrow> client \<Rightarrow> client" where
  "keep_cursor r s = (case r of (code, w, h) \<Rightarrow> s\<lparr>mem := h, held := held s \<union> set_option w\<rparr>)"

section \<open>Calls\<close>

inductive api_call :: "scanner \<Rightarrow> target \<Rightarrow> client \<Rightarrow> int \<Rightarrow> client \<Rightarrow> bool"
  for scan tgt where
  call_parse:
    "mem s addr = None \<Longrightarrow> parseable buf opts \<Longrightarrow>
     qjson_parse_ex scan tgt addr (mem s) buf opts True = (doc, Some e, h) \<Longrightarrow>
     api_call scan tgt s (qe_code e) (s\<lparr>mem := h\<rparr>)"
| call_free:
    "live (mem s) doc \<Longrightarrow>
     api_call scan tgt s 0
       \<lparr>mem = qjson_free (mem s) doc, held = {c \<in> held s. qc_doc c \<noteq> doc}, iters = {it \<in> iters s. qi_doc it \<noteq> doc}\<rparr>"
| call_read:
    "live (mem s) doc \<Longrightarrow> root_read tgt rd (mem s) doc path out = (code, h) \<Longrightarrow>
     api_call scan tgt s code (s\<lparr>mem := h\<rparr>)"
| call_is_null:
    "live (mem s) doc \<Longrightarrow> code_heap (qjson_is_null (mem s) doc path out) = (code, h) \<Longrightarrow>
     api_call scan tgt s code (s\<lparr>mem := h\<rparr>)"
| call_open:
    "live (mem s) doc \<Longrightarrow> r = qjson_open (mem s) doc path out \<Longrightarrow>
     api_call scan tgt s (fst r) (keep_cursor r s)"
| call_cursor_read:
    "arg (held s) c \<Longrightarrow> cursor_read tgt rd (mem s) c path out = (code, h) \<Longrightarrow>
     api_call scan tgt s code (s\<lparr>mem := h\<rparr>)"
| call_cursor_bytes:
    "arg (held s) c \<Longrightarrow> code_heap (qjson_cursor_bytes (mem s) c out) = (code, h) \<Longrightarrow>
     api_call scan tgt s code (s\<lparr>mem := h\<rparr>)"
| call_cursor_open:
    "arg (held s) c \<Longrightarrow> r = qjson_cursor_open (mem s) c path out \<Longrightarrow>
     api_call scan tgt s (fst r) (keep_cursor r s)"
| call_cursor_field:
    "arg (held s) c \<Longrightarrow> r = qjson_cursor_field (mem s) c key out \<Longrightarrow>
     api_call scan tgt s (fst r) (keep_cursor r s)"
| call_cursor_index:
    "arg (held s) c \<Longrightarrow> r = qjson_cursor_index (mem s) c i out \<Longrightarrow>
     api_call scan tgt s (fst r) (keep_cursor r s)"
| call_entry_at:
    "arg (held s) c \<Longrightarrow> qjson_cursor_object_entry_at tgt (mem s) c i out = (code, w, h) \<Longrightarrow>
     api_call scan tgt s code (s\<lparr>mem := h, held := held s \<union> set_option (map_option snd w)\<rparr>)"
| call_iter_init:
    "arg (held s) c \<Longrightarrow> qjson_iter_init (mem s) c out = (code, w, h) \<Longrightarrow>
     api_call scan tgt s code (s\<lparr>mem := h, iters := iters s \<union> set_option w\<rparr>)"
| call_iter_next:
    "arg (iters s) it \<Longrightarrow> qjson_iter_next tgt (mem s) it out = (code, w, it', h) \<Longrightarrow>
     api_call scan tgt s code
       (s\<lparr>mem := h, held := held s \<union> set_option (map_option snd w), iters := iters s \<union> set_option it'\<rparr>)"

text \<open>Sequences of calls and the codes they return.\<close>

inductive api_calls :: "scanner \<Rightarrow> target \<Rightarrow> client \<Rightarrow> int list \<Rightarrow> client \<Rightarrow> bool"
  for scan tgt where
  calls_none: "api_calls scan tgt s [] s"
| calls_more: "api_calls scan tgt s codes s1 \<Longrightarrow> api_call scan tgt s1 code s2 \<Longrightarrow>
    api_calls scan tgt s (codes @ [code]) s2"

definition client_new :: client where
  "client_new = \<lparr>mem = (\<lambda>_. None), held = {}, iters = {}\<rparr>"

section \<open>The invariant\<close>

definition iter_ok :: "heap \<Rightarrow> qjson_iter \<Rightarrow> bool" where
  "iter_ok h it \<longleftrightarrow> (\<exists>p d kvs. qi_doc it = Some p \<and> h p = Some d \<and> iter_at d it kvs)"

definition api_inv :: "client \<Rightarrow> bool" where
  "api_inv s \<longleftrightarrow> valid_heap (mem s) \<and> (\<forall>c \<in> held s. cursor_ok (mem s) (Some c)) \<and> (\<forall>it \<in> iters s. iter_ok (mem s) it)"

lemma keeps_iter_at: "keeps d d' \<Longrightarrow> iter_at d' it kvs = iter_at d it kvs"
  by (simp add: keeps_def iter_at_def children_at_def)

lemma iter_ok_keeps: "heap_keeps h h' \<Longrightarrow> iter_ok h it \<Longrightarrow> iter_ok h' it"
  by (fastforce simp: iter_ok_def keeps_iter_at dest: heap_keepsD)

text \<open>A call that keeps the heap, adding cursors and iterators that are fine in it.\<close>

lemma api_inv_keeps:
  assumes "api_inv s" "heap_keeps (mem s) h"
    "\<And>c. c \<in> C \<Longrightarrow> cursor_ok h (Some c)" "\<And>it. it \<in> I \<Longrightarrow> iter_ok h it"
    "mem s' = h" "held s' = held s \<union> C" "iters s' = iters s \<union> I"
  shows "api_inv s'"
  using assms by (auto simp: api_inv_def intro: heap_keeps_valid cursor_ok_keeps iter_ok_keeps)

section \<open>Every call keeps the invariant\<close>

text \<open>A call that is safe: it does not report a panic and keeps the documents.\<close>

definition safe_call :: "heap \<Rightarrow> int \<times> heap \<Rightarrow> bool" where
  "safe_call h r \<longleftrightarrow> fst r \<noteq> err_code QJSON_OOM \<and> heap_keeps h (snd r)"

lemma root_op_call:
  "valid_heap h \<Longrightarrow> live h doc \<Longrightarrow> safe_body body \<Longrightarrow> safe_call h (code_heap (root_op h doc path out body))"
  using root_op_safe(1,2)[of h doc body path out] by (auto simp: safe_call_def code_heap_def split: prod.split)

lemma cursor_body_call:
  "valid_heap h \<Longrightarrow> cursor_ok h c \<Longrightarrow> (\<And>p. safe_body (body p)) \<Longrightarrow> safe_call h (code_heap (cursor_body h c ok body))"
  using cursor_body_safe(1,2)[of h c body ok] by (auto simp: safe_call_def code_heap_def split: prod.split)

lemma cursor_op_nav:
  "cursor_op h c path out body = cursor_body h c out (\<lambda>p. after_nav (\<lambda>d cur. resolve d cur (slice_bytes path)) body)"
  unfolding cursor_op_def after_nav_def ..

lemma cursor_op_call:
  "valid_heap h \<Longrightarrow> cursor_ok h c \<Longrightarrow> safe_body body \<Longrightarrow> safe_call h (code_heap (cursor_op h c path out body))"
  unfolding cursor_op_nav by (intro cursor_body_call safe_after_nav safe_nav_resolve)

lemmas root_defs = qjson_typeof_def qjson_len_def qjson_get_str_def qjson_get_i64_def qjson_get_u64_def
  qjson_get_f64_def qjson_get_bool_def

lemmas cursor_defs = qjson_cursor_typeof_def qjson_cursor_len_def qjson_cursor_get_str_def qjson_cursor_get_i64_def
  qjson_cursor_get_u64_def qjson_cursor_get_f64_def qjson_cursor_get_bool_def

lemma root_read_call: "valid_heap h \<Longrightarrow> live h doc \<Longrightarrow> safe_call h (root_read tgt rd h doc path out)"
  by (cases rd) (simp_all add: root_defs root_op_call safe_readers)

lemma cursor_read_call: "valid_heap h \<Longrightarrow> cursor_ok h c \<Longrightarrow> safe_call h (cursor_read tgt rd h c path out)"
  by (cases rd) (simp_all add: cursor_defs cursor_op_call safe_readers)

text \<open>The calls that write a cursor.\<close>

definition gives_cursor :: "heap \<Rightarrow> qjson_cursor c_ret \<Rightarrow> bool" where
  "gives_cursor h r \<longleftrightarrow> (case r of (code, w, h') \<Rightarrow>
     safe_call h (code, h') \<and> (\<forall>c. w = Some c \<longrightarrow> cursor_ok h' (Some c)))"

lemma internal_cursor_ok:
  "h p = Some d \<Longrightarrow> denotes d cc v \<Longrightarrow> cursor_ok h (Some (internal_to_cursor (Some p) cc))"
  by (cases cc) (auto simp: cursor_ok_def cursor_to_internal_def internal_to_cursor_def cursor_at_def)

lemma open_gives:
  assumes "valid_heap h" "live h doc"
  shows "gives_cursor h (qjson_open h doc path out)"
proof -
  obtain code w h' where r: "qjson_open h doc path out = (code, w, h')" by (metis prod_cases3)
  have body: "safe_body (\<lambda>d cur. (Ok (internal_to_cursor doc cur), d))"
    by (simp add: safe_body_def safe_result_def)
  note s = root_op_safe[OF assms body r[unfolded qjson_open_def]]
  have "cursor_ok h' (Some c)" if w: "w = Some c" for c
    using s(3)[OF w] by (auto simp: wrote_def internal_cursor_ok)
  with s(1,2) show ?thesis by (simp add: gives_cursor_def safe_call_def r)
qed

lemma nav_gives:
  assumes "valid_heap h" "cursor_ok h c" and nav: "safe_nav nav"
  shows "gives_cursor h (cursor_body h c ok (\<lambda>p. after_nav nav (give_cursor p)))"
proof -
  obtain code w h' where r: "cursor_body h c ok (\<lambda>p. after_nav nav (give_cursor p)) = (code, w, h')"
    by (metis prod_cases3)
  note s = cursor_body_safe[OF assms(1,2) safe_after_nav[OF nav safe_give_cursor] r]
  have "cursor_ok h' (Some x)" if w: "w = Some x" for x
    using s(3)[OF w] by (auto simp: wrote_def dest!: after_nav_Ok[OF nav] intro: internal_cursor_ok)
  with s(1,2) show ?thesis by (simp add: gives_cursor_def safe_call_def r)
qed

lemma cursor_open_nav:
  "qjson_cursor_open h c path out = cursor_body h c out (\<lambda>p. after_nav (\<lambda>d cur. resolve d cur (slice_bytes path)) (give_cursor p))"
  "qjson_cursor_field h c key out = cursor_body h c (out \<and> \<not> null_with_length key) (\<lambda>p. after_nav (\<lambda>d cur. step d cur (Key (slice_bytes key))) (give_cursor p))"
  "qjson_cursor_index h c i out = cursor_body h c (out \<and> i \<le> unat U32_MAX) (\<lambda>p. after_nav (\<lambda>d cur. step d cur (Idx (of_nat i))) (give_cursor p))"
  unfolding qjson_cursor_open_def qjson_cursor_field_def qjson_cursor_index_def after_nav_def give_cursor_def
    resolve_single_key_def resolve_single_idx_def by (rule refl)+

lemma keep_cursor_inv:
  assumes "api_inv s" "gives_cursor (mem s) r"
  shows "fst r \<noteq> err_code QJSON_OOM \<and> api_inv (keep_cursor r s)"
proof -
  obtain code w h where r: "r = (code, w, h)" by (metis prod_cases3)
  from assms(2) have "heap_keeps (mem s) h" "code \<noteq> err_code QJSON_OOM" "\<And>c. c \<in> set_option w \<Longrightarrow> cursor_ok h (Some c)"
    by (auto simp: gives_cursor_def r safe_call_def)
  with api_inv_keeps[OF assms(1), of h "set_option w" "{}" "keep_cursor r s"] show ?thesis
    by (simp add: keep_cursor_def r)
qed

text \<open>The calls that only change the documents.\<close>

lemma mem_inv:
  assumes "api_inv s" "safe_call (mem s) (code, h)"
  shows "code \<noteq> err_code QJSON_OOM \<and> api_inv (s\<lparr>mem := h\<rparr>)"
  using api_inv_keeps[OF assms(1), of h "{}" "{}" "s\<lparr>mem := h\<rparr>"] assms(2) by (simp add: safe_call_def)

lemma arg_cursor: "api_inv s \<Longrightarrow> arg (held s) c \<Longrightarrow> cursor_ok (mem s) c"
  by (cases c) (auto simp: api_inv_def arg_def cursor_ok_def cursor_to_internal_def)

lemma entry_at_inv:
  assumes inv: "api_inv s" and c: "arg (held s) c"
    and r: "qjson_cursor_object_entry_at tgt (mem s) c i out = (code, w, h)"
  shows "code \<noteq> err_code QJSON_OOM \<and> api_inv (s\<lparr>mem := h, held := held s \<union> set_option (map_option snd w)\<rparr>)"
proof -
  have valid: "valid_heap (mem s)" using inv by (simp add: api_inv_def)
  note s = cursor_body_safe[OF valid arg_cursor[OF inv c] safe_object_entry_at r[unfolded qjson_cursor_object_entry_at_def]]
  have "cursor_ok h (Some x)" if x: "x \<in> set_option (map_option snd w)" for x
  proof -
    from x obtain k where "w = Some (k, x)" by auto
    from s(3)[OF this] show ?thesis
      by (auto simp: wrote_def dest!: object_entry_at_gives intro: internal_cursor_ok)
  qed
  with api_inv_keeps[OF inv s(2), of "set_option (map_option snd w)" "{}"] s(1) show ?thesis by simp
qed

lemma iter_init_inv:
  assumes inv: "api_inv s" and c: "arg (held s) c" and r: "qjson_iter_init (mem s) c out = (code, w, h)"
  shows "code \<noteq> err_code QJSON_OOM \<and> api_inv (s\<lparr>mem := h, iters := iters s \<union> set_option w\<rparr>)"
proof -
  have valid: "valid_heap (mem s)" using inv by (simp add: api_inv_def)
  note s = cursor_body_safe[OF valid arg_cursor[OF inv c] safe_iter_start r[unfolded qjson_iter_init_def]]
  have "iter_ok h it" if it: "w = Some it" for it
  proof -
    from s(3)[OF it] obtain p d cur v d' where w: "doc_inv d" "denotes d cur v" "iter_start p d cur = (Ok it, d')"
      "h p = Some d'" by (auto simp: wrote_def)
    show ?thesis
    proof (cases "\<exists>kvs. v = JObject kvs")
      case True
      then obtain kvs where "v = JObject kvs" by blast
      with iter_start_ok[OF doc_inv_indexed[OF w(1)], of cur kvs p] w show ?thesis by (auto simp: iter_ok_def)
    next
      case False
      from iter_start_other[OF doc_inv_indexed[OF w(1)] w(2) False, of p] w(3) show ?thesis by simp
    qed
  qed
  with api_inv_keeps[OF inv s(2), of "{}" "set_option w"] s(1) show ?thesis by simp
qed

text \<open>One step of an iterator.\<close>

lemma iter_next_ok:
  assumes valid: "valid_heap h" and it: "qi_doc it = Some p" "h p = Some d" "iter_at d it kvs"
  shows "case kvs of
      [] \<Rightarrow> qjson_iter_next tgt h (Some it) True =
        (err_code QJSON_NOT_FOUND, None, Some it, h(p \<mapsto> clear_last_error_offset d))
    | (k, v) # kvs' \<Rightarrow> \<exists>cps s r c it'. string_denotes k cps \<and>
        qjson_iter_next tgt h (Some it) True =
          (0, Some (r, internal_to_cursor (Some p) c), Some it', h(p \<mapsto> (clear_last_error_offset d)\<lparr>scratch := s\<rparr>)) \<and>
        ref_bytes (doc_buf d) s r = utf8_text cps \<and> denotes d c v \<and> qi_doc it' = Some p \<and> iter_at d it' kvs'"
proof -
  define d0 where "d0 = clear_last_error_offset d"
  have k0: "keeps d d0" by (simp add: d0_def)
  have ix: "indexed d0" using keeps_doc_inv[OF k0 valid_heapD[OF valid it(2)]] by (rule doc_inv_indexed)
  have at0: "iter_at d0 it kvs" using it(3) by (simp add: keeps_iter_at[OF k0])
  have next_eq: "qjson_iter_next tgt h (Some it) True =
      (let (r, written, ii, d) = iter_advance tgt p it d0; (code, _, h) = ffi_catch (r, h(p \<mapsto> d)) in (code, written, Some ii, h))"
    by (simp add: qjson_iter_next_def clear_iter_doc_error_offset_if_available_def clear_doc_error_offset_if_available_def
        it iter_doc_def d0_def)
  show ?thesis
  proof (cases kvs)
    case Nil
    with iter_advance_end[of d0 it tgt p] at0 show ?thesis by (simp add: next_eq ffi_catch_def d0_def)
  next
    case (Cons kv kvs')
    obtain k v where kv: "kv = (k, v)" by (cases kv)
    from iter_advance_ok[OF ix at0[unfolded Cons kv], of tgt p] obtain cps s r c it' where
      "string_denotes k cps" "iter_advance tgt p it d0 = (Ok (), Some (r, internal_to_cursor (Some p) c), it', d0\<lparr>scratch := s\<rparr>)"
      "ref_bytes (doc_buf d0) s r = utf8_text cps" "denotes d0 c v" "qi_doc it' = qi_doc it" "iter_at d0 it' kvs'" by blast
    then show ?thesis
      using k0 it(1) unfolding Cons kv d0_def[symmetric]
      by (auto simp: next_eq ffi_catch_def keeps_iter_at[OF k0] keeps_denotes[OF k0] keeps_def
          intro!: exI[of _ cps] exI[of _ s])
  qed
qed

lemma clear_iter_keeps: "heap_keeps h (clear_iter_doc_error_offset_if_available h it)"
  by (simp add: clear_iter_doc_error_offset_if_available_def clear_keeps split: option.split)

lemma iter_next_inv:
  assumes inv: "api_inv s" and it: "arg (iters s) it" and r: "qjson_iter_next tgt (mem s) it out = (code, w, it', h)"
  shows "code \<noteq> err_code QJSON_OOM \<and>
    api_inv (s\<lparr>mem := h, held := held s \<union> set_option (map_option snd w), iters := iters s \<union> set_option it'\<rparr>)"
proof (cases "it = None \<or> \<not> out")
  case True
  with r have eq: "code = err_code QJSON_INVALID_ARG" "w = None" "it' = it" "h = clear_iter_doc_error_offset_if_available (mem s) it"
    by (auto simp: qjson_iter_next_def Let_def)
  have k: "heap_keeps (mem s) h" unfolding eq(4) by (rule clear_iter_keeps)
  have "iters s \<union> set_option it' = iters s" using it eq(3) by (auto simp: arg_def)
  with api_inv_keeps[OF inv k, of "{}" "{}"] eq show ?thesis by simp
next
  case False
  then obtain ii where ii: "it = Some ii" and o: "out = True" by auto
  with inv it obtain p d kvs where at_it: "qi_doc ii = Some p" "mem s p = Some d" "iter_at d ii kvs"
    by (auto simp: api_inv_def arg_def iter_ok_def)
  have valid: "valid_heap (mem s)" using inv by (simp add: api_inv_def)
  note nxt = iter_next_ok[OF valid at_it, of tgt]
  define d0 where "d0 = clear_last_error_offset d"
  have k: "heap_keeps (mem s) ((mem s)(p \<mapsto> d'))" if "keeps d d'" for d'
    by (rule heap_keeps_upd[of "mem s" p d, OF at_it(2) that])
  have kd: "keeps d d0" "keeps d (d0\<lparr>scratch := x\<rparr>)" for x
    unfolding d0_def by (simp, rule keeps_trans[OF keeps_updates(2) keeps_updates(3)])
  have "heap_keeps (mem s) h \<and> code \<noteq> err_code QJSON_OOM \<and> (\<forall>c \<in> set_option (map_option snd w). cursor_ok h (Some c)) \<and>
    (\<forall>i \<in> set_option it'. iter_ok h i)"
  proof (cases kvs)
    case Nil
    with nxt r ii o d0_def have "code = 2" "w = None" "it' = Some ii" "h = (mem s)(p \<mapsto> d0)" by auto
    with k[OF kd(1)] at_it Nil keeps_iter_at[OF kd(1)] show ?thesis by (auto simp: iter_ok_def)
  next
    case (Cons kv kvs')
    obtain key v where kv: "kv = (key, v)" by (cases kv)
    from nxt[unfolded Cons kv, simplified] r ii o obtain x y c i where
      eq: "code = 0" "w = Some (y, internal_to_cursor (Some p) c)" "it' = Some i" "h = (mem s)(p \<mapsto> d0\<lparr>scratch := x\<rparr>)"
        "denotes d c v" "qi_doc i = Some p" "iter_at d i kvs'"
      by (auto simp: d0_def)
    have "cursor_ok h (Some (internal_to_cursor (Some p) c))"
      using eq(4,5) by (intro internal_cursor_ok[of h p "d0\<lparr>scratch := x\<rparr>" c v]) (simp_all add: keeps_denotes[OF kd(2)])
    moreover have "iter_ok h i"
      unfolding iter_ok_def using eq(4,6,7) keeps_iter_at[OF kd(2)]
      by (intro exI[of _ p] exI[of _ "d0\<lparr>scratch := x\<rparr>"] exI[of _ kvs']) simp
    ultimately show ?thesis using k[OF kd(2)] eq by auto
  qed
  with api_inv_keeps[OF inv, of h "set_option (map_option snd w)" "set_option it'"] show ?thesis by simp
qed

lemma free_inv:
  assumes "api_inv s"
  shows "api_inv \<lparr>mem = qjson_free (mem s) doc, held = {c \<in> held s. qc_doc c \<noteq> doc}, iters = {it \<in> iters s. qi_doc it \<noteq> doc}\<rparr>"
proof (cases doc)
  case None
  then show ?thesis using assms by (auto simp: api_inv_def qjson_free_def)
next
  case (Some p)
  have "cursor_ok ((mem s)(p := None)) (Some c)" if "cursor_ok (mem s) (Some c)" "qc_doc c \<noteq> Some p" for c
    using that by (auto simp: cursor_ok_def cursor_to_internal_def split: option.splits)
  moreover have "iter_ok ((mem s)(p := None)) it" if "iter_ok (mem s) it" "qi_doc it \<noteq> Some p" for it
    using that by (force simp: iter_ok_def)
  moreover have "valid_heap ((mem s)(p := None))" using assms by (auto simp: api_inv_def valid_heap_def)
  ultimately show ?thesis using assms by (auto simp: Some api_inv_def qjson_free_def)
qed

lemma fresh_inv:
  assumes inv: "api_inv s" and fresh: "mem s addr = None" and d: "valid_doc d"
  shows "api_inv (s\<lparr>mem := (mem s)(addr \<mapsto> d)\<rparr>)"
proof -
  have "cursor_ok ((mem s)(addr \<mapsto> d)) (Some c)" if "cursor_ok (mem s) (Some c)" for c
    using that fresh by (fastforce simp: cursor_ok_def split: outcome.splits)
  moreover have "iter_ok ((mem s)(addr \<mapsto> d)) it" if "iter_ok (mem s) it" for it
    using that fresh by (fastforce simp: iter_ok_def)
  moreover have "valid_heap ((mem s)(addr \<mapsto> d))" using inv d by (auto simp: api_inv_def valid_heap_def)
  ultimately show ?thesis using inv by (simp add: api_inv_def)
qed

context json_parser
begin

lemma parse_valid_doc:
  assumes p: "parseable (Bytes b) opts"
    and d: "parse_with_options_detailed scan tgt b (case opts of None \<Rightarrow> options_default | Some x \<Rightarrow> x) = Ok d"
  shows "valid_doc d"
proof -
  from p have b: "length b < 2 ^ 32"
    and o: "is_eager (case opts of None \<Rightarrow> options_default | Some x \<Rightarrow> x) \<or> (\<exists>n. json_text n b)"
    by (auto simp: parseable_def json_text_iff_tree)
  from o document[OF b _ d] obtain m where "json_text m b"
    and d: "d = document_new b (offsets (tokens b) @ [U32_MAX]) (is_eager (case opts of None \<Rightarrow> options_default | Some x \<Rightarrow> x))"
    by blast
  then obtain v where "json_doc b v" by (auto simp: json_text_iff_tree)
  then show ?thesis unfolding valid_doc_def d using doc_new_inv[OF b] by (auto simp: document_new_def)
qed

lemma parse_inv:
  assumes inv: "api_inv s" and fresh: "mem s addr = None" and p: "parseable buf opts"
    and r: "qjson_parse_ex scan tgt addr (mem s) buf opts True = (doc, Some e, h)"
  shows "qe_code e \<noteq> err_code QJSON_OOM \<and> api_inv (s\<lparr>mem := h\<rparr>)"
proof (cases buf)
  case (Null n)
  with r inv show ?thesis
    by (auto simp: qjson_parse_ex_def write_parse_error_def qjson_error_no_offset_def qjson_error_new_def)
next
  case (Bytes b)
  define o' where "o' = (case opts of None \<Rightarrow> options_default | Some x \<Rightarrow> x)"
  from p have b: "length b < 2 ^ 32" and adm: "is_eager o' \<or> (\<exists>n. json_text n b)"
    by (auto simp: parseable_def Bytes o'_def json_text_iff_tree)
  note defs = qjson_parse_ex_def write_parse_error_def qjson_error_no_offset_def qjson_error_new_def qjson_error_default_def
    qjson_error_from_def
  show ?thesis
  proof (cases "parse_with_options_detailed scan tgt b o'")
    case (Ok d)
    with parse_valid_doc[OF p[unfolded Bytes], folded o'_def] have "valid_doc d" by blast
    with fresh_inv[OF inv fresh] r Ok show ?thesis by (auto simp: Bytes defs o'_def[symmetric])
  next
    case (Err e')
    with codes[OF b _ Err] adm have "pe_code e' \<noteq> QJSON_OOM" by (force simp: parse_codes_def)
    with r Err inv show ?thesis by (auto simp: Bytes defs o'_def[symmetric] err_code_OOM)
  next
    case Panic
    with returns[OF b] adm show ?thesis by blast
  qed
qed

text \<open>Every call keeps the invariant and none reports a panic.\<close>

lemma api_call_inv:
  assumes "api_call scan tgt s code s'" "api_inv s"
  shows "code \<noteq> err_code QJSON_OOM \<and> api_inv s'"
proof -
  have valid: "valid_heap (mem s)" using assms(2) by (simp add: api_inv_def)
  note safe = mem_inv[OF assms(2)] and give = keep_cursor_inv[OF assms(2)] and c_ok = arg_cursor[OF assms(2)]
  show ?thesis
    using assms(1)
  proof cases
    case (call_parse addr buf opts doc e h)
    then show ?thesis using parse_inv[OF assms(2)] by simp
  next
    case (call_free doc)
    then show ?thesis using free_inv[OF assms(2)] by simp
  next
    case (call_read doc rd path out h)
    then show ?thesis using safe root_read_call[OF valid call_read(2), of tgt rd path out] by simp
  next
    case (call_is_null doc path out h)
    then show ?thesis
      using safe root_op_call[OF valid call_is_null(2) safe_is_null, of path out] by (simp add: qjson_is_null_def)
  next
    case (call_open doc r path out)
    then show ?thesis using give[OF open_gives[OF valid call_open(3)]] by simp
  next
    case (call_cursor_read c rd path out h)
    then show ?thesis using safe cursor_read_call[OF valid c_ok[OF call_cursor_read(2)], of tgt rd path out] by simp
  next
    case (call_cursor_bytes c out h)
    have "safe_call (mem s) (code_heap (qjson_cursor_bytes (mem s) c out))"
      unfolding qjson_cursor_bytes_def by (rule cursor_body_call[OF valid c_ok[OF call_cursor_bytes(2)] safe_byte_range])
    then show ?thesis using safe call_cursor_bytes by simp
  next
    case (call_cursor_open c r path out)
    then show ?thesis
      using give[OF nav_gives[OF valid c_ok[OF call_cursor_open(3)] safe_nav_resolve]] by (simp add: cursor_open_nav)
  next
    case (call_cursor_field c r key out)
    then show ?thesis
      using give[OF nav_gives[OF valid c_ok[OF call_cursor_field(3)] safe_nav_step]] by (simp add: cursor_open_nav)
  next
    case (call_cursor_index c r i out)
    then show ?thesis
      using give[OF nav_gives[OF valid c_ok[OF call_cursor_index(3)] safe_nav_step]] by (simp add: cursor_open_nav)
  next
    case (call_entry_at c i out w h)
    then show ?thesis using entry_at_inv[OF assms(2)] by simp
  next
    case (call_iter_init c out w h)
    then show ?thesis using iter_init_inv[OF assms(2)] by simp
  next
    case (call_iter_next it out w it' h)
    then show ?thesis using iter_next_inv[OF assms(2)] by simp
  qed
qed

lemma api_calls_inv:
  "api_calls scan tgt s codes s' \<Longrightarrow> api_inv s \<Longrightarrow> err_code QJSON_OOM \<notin> set codes \<and> api_inv s'"
  by (induction rule: api_calls.induct) (auto dest: api_call_inv)

end

lemma client_new_inv: "api_inv client_new"
  by (simp add: api_inv_def client_new_def valid_heap_def)

section \<open>Reading an object with an iterator\<close>

text \<open>Calling \<open>qjson_iter_next\<close> \<open>n\<close> times: the code, what was written and the heap after each call.\<close>

fun drain :: "target \<Rightarrow> nat \<Rightarrow> heap \<Rightarrow> qjson_iter \<Rightarrow> (int \<times> (str_ref \<times> qjson_cursor) option \<times> heap) list" where
  "drain tgt 0 h it = []"
| "drain tgt (Suc n) h it =
     (case qjson_iter_next tgt h (Some it) True of
        (code, w, Some it', h') \<Rightarrow> (code, w, h') # drain tgt n h' it'
      | (code, w, None, h') \<Rightarrow> [(code, w, h')])"

text \<open>The call delivered the member: its decoded key, readable now, and a cursor for its value.\<close>

definition delivered :: "nat \<Rightarrow> bytes \<times> json \<Rightarrow> int \<times> (str_ref \<times> qjson_cursor) option \<times> heap \<Rightarrow> bool" where
  "delivered p kv res \<longleftrightarrow>
     (case (kv, res) of ((k, v), (code, w, h)) \<Rightarrow>
        code = 0 \<and> (\<exists>r c cps d. w = Some (r, internal_to_cursor (Some p) c) \<and> h p = Some d \<and>
          string_denotes k cps \<and> ref_bytes (doc_buf d) (scratch d) r = utf8_text cps \<and> denotes d c v))"

lemma drain_ok:
  assumes "valid_heap h" "qi_doc it = Some p" "h p = Some d" "iter_at d it kvs"
  shows "\<exists>rs h'. drain tgt (Suc (length kvs)) h it = rs @ [(err_code QJSON_NOT_FOUND, None, h')] \<and>
    list_all2 (delivered p) kvs rs"
  using assms
proof (induction kvs arbitrary: h it d)
  case Nil
  from iter_next_ok[OF Nil, of tgt] show ?case by simp
next
  case (Cons kv kvs)
  obtain k v where kv: "kv = (k, v)" by (cases kv)
  define d0 where "d0 = clear_last_error_offset d"
  from iter_next_ok[OF Cons.prems, of tgt] obtain cps s r c it' where
    st: "string_denotes k cps" "qjson_iter_next tgt h (Some it) True =
        (0, Some (r, internal_to_cursor (Some p) c), Some it', h(p \<mapsto> d0\<lparr>scratch := s\<rparr>))"
      "ref_bytes (doc_buf d) s r = utf8_text cps" "denotes d c v" "qi_doc it' = Some p" "iter_at d it' kvs"
    unfolding kv d0_def by auto
  define d1 where "d1 = d0\<lparr>scratch := s\<rparr>"
  have k: "keeps d d1" unfolding d1_def d0_def by (rule keeps_trans[OF keeps_updates(2) keeps_updates(3)])
  have valid: "valid_heap (h(p \<mapsto> d1))"
    using heap_keeps_upd[of h p d, OF Cons.prems(3) k] Cons.prems(1) by (rule heap_keeps_valid)
  have "iter_at d1 it' kvs" using st(6) by (simp add: keeps_iter_at[OF k])
  from Cons.IH[OF valid st(5) fun_upd_same this] obtain rs h' where
    "drain tgt (Suc (length kvs)) (h(p \<mapsto> d1)) it' = rs @ [(err_code QJSON_NOT_FOUND, None, h')]"
    "list_all2 (delivered p) kvs rs" by blast
  moreover have "delivered p kv (0, Some (r, internal_to_cursor (Some p) c), h(p \<mapsto> d1))"
    using st k by (auto simp: delivered_def kv keeps_denotes d1_def d0_def clear_last_error_offset_def)
  ultimately show ?case
    using st(2) unfolding d1_def[symmetric]
    by (intro exI[of _ "(0, Some (r, internal_to_cursor (Some p) c), h(p \<mapsto> d1)) # rs"] exI[of _ h']) simp
qed

lemma iter_init_ok:
  assumes valid: "valid_heap h" and d: "h p = Some d" "denotes d cur (JObject kvs)"
  shows "\<exists>it. qjson_iter_init h (Some (internal_to_cursor (Some p) cur)) True = (0, Some it, h(p \<mapsto> clear_last_error_offset d)) \<and>
    qi_doc it = Some p \<and> iter_at (clear_last_error_offset d) it kvs"
proof -
  define d0 where "d0 = clear_last_error_offset d"
  have k: "keeps d d0" by (simp add: d0_def)
  have ix: "indexed d0" using keeps_doc_inv[OF k valid_heapD[OF valid d(1)]] by (rule doc_inv_indexed)
  have "denotes d0 cur (JObject kvs)" using d(2) by (simp add: keeps_denotes[OF k])
  from iter_start_ok[OF ix this, of p] show ?thesis
    by (cases cur) (auto simp: qjson_iter_init_def cursor_body_def clear_cursor_doc_error_offset_if_available_def
        clear_doc_error_offset_if_available_def internal_to_cursor_def cursor_to_internal_def cursor_at_def on_doc_def
        ffi_catch_def d d0_def[symmetric])
qed

end
