(* ===== verification/Examples.thy ===== *)
theory Examples
  imports Calls
begin

text \<open>
  Small concrete documents, at which the properties' witnesses apply them.
\<close>

section \<open>An object with one number\<close>

definition ex_buf :: bytes where
  "ex_buf = js ''{`a`:1}''"

definition ex_value :: json where
  "ex_value = JObject [([97], JScalar [49])]"

definition ex_doc :: document where
  "ex_doc = document_new ex_buf (offsets (tokens ex_buf) @ [U32_MAX]) True"

lemma ex_length: "length ex_buf = 7" "length ex_buf < 2 ^ 32"
  by (simp_all add: ex_buf_def)

lemma ex_key: "json_string (34 # [97] @ [34])"
proof -
  have "string_denotes [97] [97]" using den_plain[of 97 "[]" "[]"] den_nil by simp
  then show ?thesis
    unfolding json_string_def by (intro exI[of _ "[97]"] exI[of _ "[97]"]) (simp add: unquoted_def)
qed

lemma ex_number: "json_number [49]"
  unfolding json_number_def
  by (rule exI[of _ "[]"], rule exI[of _ "[49]"], rule exI[of _ "[]"], rule exI[of _ "[]"])
    (simp add: int_part_def frac_part_def exp_part_def is_digit19_def)

lemma ex_json: "json_doc ex_buf ex_value"
proof -
  have "tree [49] (JScalar [49])" using ex_number by (intro tree_scalar) (simp add: json_scalar_def)
  then have "members ([] @ (34 # [97] @ [34]) @ [] @ 58 # [] @ [49] @ []) [([97], JScalar [49])]"
    using ex_key by (intro members_one) (simp_all add: ws_def)
  then have "tree (123 # ([] @ (34 # [97] @ [34]) @ [] @ 58 # [] @ [49] @ []) @ [125]) ex_value"
    unfolding ex_value_def by (rule tree_object)
  then have "tree ex_buf ex_value" by (simp add: ex_buf_def)
  then show ?thesis
    unfolding json_doc_def by (intro exI[of _ "[]"] exI[of _ ex_buf]) (simp add: ws_def)
qed

lemma ex_text: "1 \<le> d \<Longrightarrow> json_text d ex_buf"
  unfolding json_text_iff_tree using ex_json by (intro exI[of _ ex_value]) (simp add: ex_value_def)

lemma ex_inv: "doc_inv ex_doc" "doc_buf ex_doc = ex_buf"
  using doc_new_inv[OF ex_length(2), of True] by (simp_all add: ex_doc_def document_new_def)

lemma ex_indexed: "indexed ex_doc"
  using ex_inv(1) by (rule doc_inv_indexed)

lemma ex_root: "denotes ex_doc (cursor_root ex_doc) ex_value"
  using root_denotes[OF ex_indexed] ex_json by (simp add: ex_inv)

lemma ex_valid: "valid_doc ex_doc"
  using ex_inv ex_json by (auto simp: valid_doc_def)

definition ex_heap :: heap where
  "ex_heap = (\<lambda>_. None)(7 \<mapsto> ex_doc)"

lemma ex_heap: "valid_heap ex_heap" "ex_heap 7 = Some ex_doc"
  using ex_valid by (auto simp: valid_heap_def ex_heap_def)

lemma ex_parse:
  "parse_with_options_detailed (scan memchr2_ref tgt) tgt ex_buf options_default = Ok ex_doc"
proof -
  have "is_eager options_default" "1 \<le> unat (effective_max_depth options_default)"
    using effective_max_depth_bounds[of options_default] by (simp_all add: is_eager_def options_default_def)
  then show ?thesis
    using parse_eager_scan[OF ex_length(2)] ex_text by (simp add: ex_doc_def)
qed

lemma ex_no_stray: "no_stray ex_buf"
  using ex_text[of 1] json_text_no_stray by simp

text \<open>Parsing it with \<open>qjson_parse\<close>, then freeing it.\<close>

lemma ex_calls:
  "\<exists>s. api_calls (scan memchr2_ref tgt) tgt client_new [0, 0] s"
proof -
  define s1 where "s1 = client_new\<lparr>mem := (mem client_new)(7 \<mapsto> ex_doc)\<rparr>"
  have "api_call (scan memchr2_ref tgt) tgt client_new (qe_code qjson_error_default) s1"
    unfolding s1_def
  proof (rule call_parse[where buf = "Bytes ex_buf" and opts = None and doc = "Some 7"])
    show "parseable (Bytes ex_buf) None"
      using ex_length(2) ex_json by (auto simp: parseable_def)
    show "qjson_parse_ex (scan memchr2_ref tgt) tgt 7 (mem client_new) (Bytes ex_buf) None True =
        (Some 7, Some qjson_error_default, (mem client_new)(7 \<mapsto> ex_doc))"
      by (simp add: qjson_parse_ex_def ex_parse write_parse_error_def)
  qed (simp add: client_new_def)
  then have c1: "api_call (scan memchr2_ref tgt) tgt client_new 0 s1"
    by (simp add: qjson_error_default_def qjson_error_no_offset_def qjson_error_new_def)
  have "live (mem s1) (Some 7)" by (simp add: s1_def live_def)
  from call_free[OF this] obtain s2 where c2: "api_call (scan memchr2_ref tgt) tgt s1 0 s2" by blast
  from calls_more[OF calls_more[OF calls_none c1] c2] show ?thesis by auto
qed

lemma root_start: "idx_start (cursor_root d) = 0"
  by (simp add: cursor_root_def cursor_at_def Let_def)

end
