(* ===== verification/Messages.thy ===== *)
theory Messages
  imports Ffi
begin

text \<open>
  The messages of \<open>src/error.rs\<close> as C strings: they are printable ASCII, so that the terminating NUL
  that \<open>qjson_format_error\<close> writes is the only one.
\<close>

section \<open>Printable strings\<close>

definition printable_char :: "char \<Rightarrow> bool" where
  "printable_char c \<longleftrightarrow> 32 \<le> (of_char c :: nat) \<and> (of_char c :: nat) \<le> 126"

abbreviation printable_string :: "string \<Rightarrow> bool" where
  "printable_string s \<equiv> list_all printable_char s"

lemma printable_char_of: "32 \<le> n \<Longrightarrow> n \<le> 126 \<Longrightarrow> printable_char (char_of (n :: nat))"
  by (simp add: printable_char_def)

lemmas printable_Char = printable_char_def[of "Char b0 b1 b2 b3 b4 b5 b6 b7"] for b0 b1 b2 b3 b4 b5 b6 b7

lemma printable_dec: "printable_string (dec_string n)"
proof (induction n rule: dec_string.induct)
  case (1 n)
  have "printable_char (char_of (48 + n mod 10))" by (rule printable_char_of) (simp, arith)
  with 1 show ?case by (subst dec_string.simps) (simp add: printable_char_of)
qed

lemma printable_hex: "printable_string (hex2_string b)"
proof -
  have digit: "printable_char (hex_digit_char d)" if "d < 16" for d
    using that by (simp add: hex_digit_char_def printable_char_of)
  have "unat b < 2 ^ LENGTH(8)" by (rule unsigned_less)
  then show ?thesis by (simp add: hex2_string_def digit less_mult_imp_div_less)
qed

lemma printable_byte: "32 \<le> b \<Longrightarrow> b \<le> 126 \<Longrightarrow> printable_char (byte_char b)"
  by (simp add: byte_char_def printable_char_of word_le_nat_alt)

lemma printable_escape: "printable_string (escape_byte b)" "printable_string (escape_unexpected_char b)"
  using printable_hex[of b] printable_byte[of b]
  by (simp_all add: escape_byte_def escape_unexpected_char_def printable_Char)

lemma printable_snippet: "printable_string (snippet_from_offset buf off)"
proof -
  have "printable_string (escape_snippet bytes)" for bytes
    by (induction bytes) (simp_all add: printable_escape)
  then show ?thesis by (simp add: snippet_from_offset_def)
qed

lemma printable_push: "printable_string msg \<Longrightarrow> printable_string (push_offset msg off)"
  by (simp add: push_offset_def printable_dec printable_Char)

lemma printable_names:
  "expected_type_name extra = Some s \<Longrightarrow> printable_string s"
  "inferred_type_name buf off = Some s \<Longrightarrow> printable_string s"
  by (auto simp: inferred_type_name_def printable_Char split: if_splits option.splits)

lemma printable_parse_error: "printable_string (format_parse_error off buf)"
  by (simp add: format_parse_error_def printable_dec printable_escape printable_Char split: option.split)

lemma printable_mismatch:
  "printable_string (case (expected_type_name extra, inferred_type_name buf off) of
     (Some expected, Some got) \<Rightarrow> ''type mismatch: expected '' @ expected @ '', got '' @ got
   | _ \<Rightarrow> ''type mismatch'')"
proof (cases "expected_type_name extra")
  case (Some e)
  then show ?thesis
  proof (cases "inferred_type_name buf off")
    case (Some g)
    with \<open>expected_type_name extra = Some e\<close> show ?thesis
      using printable_names(1)[of extra e] printable_names(2)[of buf off g]
      by (simp add: printable_Char del: expected_type_name.simps)
  qed (simp add: printable_Char del: expected_type_name.simps)
qed (simp add: printable_Char del: expected_type_name.simps)

lemma printable_format: "printable_string (format_error code off extra buf)"
proof (cases "code = QJSON_TYPE_MISMATCH")
  case True
  then show ?thesis
    unfolding format_error_def Let_def using printable_push[OF printable_mismatch] by (simp del: expected_type_name.simps)
next
  case False
  then show ?thesis
    by (cases code) (simp_all add: format_error_def Let_def printable_parse_error printable_snippet printable_dec
      printable_push printable_Char)
qed

section \<open>Codes\<close>

lemma err_from_code: "err_from_i32 (err_code e) = Some e"
  by (cases e) (simp_all add: err_from_i32_def)

lemma err_from_Some: "err_from_i32 c = Some e \<Longrightarrow> err_code e = c"
  by (auto simp: err_from_i32_def split: if_splits)

lemma qjson_strerror_code: "qjson_strerror (err_code e) = strerror e"
  by (cases e) (simp_all add: qjson_strerror_def)

end
