(* ===== verification/Nesting.thy ===== *)
theory Nesting
  imports Calls
begin

text \<open>
  What parsing answers for a JSON text that is nested deeper than the limit: the depth of its tree
  is the depth its structural bytes reach, the lazy pass and the eager validator both see it,
  and both report \<open>QJSON_NESTING_TOO_DEEP\<close>, on every target.
\<close>

section \<open>The nesting of a text\<close>

text \<open>\<open>nests t k\<close>: read outside strings at any depth, \<open>t\<close> returns to that depth and reaches \<open>k\<close> more.\<close>

definition nests :: "bytes \<Rightarrow> nat \<Rightarrow> bool" where
  "nests t k \<longleftrightarrow> lex_run Outside t = Outside \<and>
     (\<forall>d n ts. max_nesting d (lex_tokens Outside n t @ ts) = max (d + k) (max_nesting d ts))"

lemma max_depth_nesting [simp]: "max d (max_nesting d ts) = max_nesting d ts"
  using max_nesting_ge by (simp add: max_def)

lemma nests_plain: "list_all (\<lambda>b. \<not> is_structural b) t \<Longrightarrow> nests t 0"
  using lex_gap(1)[of t _ "[]"] lex_gap(2)[of t "[]"] by (simp add: nests_def)

lemma nests_ws: "ws w \<Longrightarrow> nests w 0"
  by (intro nests_plain ws_no_structural)

lemma nests_string: "json_string s \<Longrightarrow> nests s 0"
  by (auto simp: json_string_def nests_def unquoted_tokens lex_tokens_append) (simp_all add: unquoted_def)

lemma nests_append: "nests a j \<Longrightarrow> nests b k \<Longrightarrow> nests (a @ b) (max j k)"
  unfolding nests_def by (auto simp: lex_tokens_append max.assoc[symmetric])

lemma nests_sep: "nests t k \<Longrightarrow> nests (44 # t) k" "nests t k \<Longrightarrow> nests (58 # t) k"
  unfolding nests_def by (simp_all add: max.left_commute)

lemma nests_container: "nests t k \<Longrightarrow> nests (91 # t @ [93]) (Suc k)" "nests t k \<Longrightarrow> nests (123 # t @ [125]) (Suc k)"
  unfolding nests_def by (simp_all add: lex_tokens_append max.assoc[symmetric] max.commute max.left_commute)

lemma fold_max_Cons: "fold max xs (max x m) = max x (fold max xs (m :: nat))"
proof (induction xs arbitrary: m)
  case (Cons a xs)
  from Cons[of "max a m"] show ?case by (simp add: max.left_commute)
qed simp

lemma fold_max_0: "fold max xs x = max x (fold max xs (0 :: nat))"
  using fold_max_Cons[of xs x 0] by simp

text \<open>The depth of the tree is the depth the text reaches.\<close>

lemma tree_nests:
  "tree t v \<Longrightarrow> nests t (tree_depth v)"
  "elements es vs \<Longrightarrow> nests es (fold max (map tree_depth vs) 0)"
  "members ms kvs \<Longrightarrow> nests ms (fold max (map (\<lambda>kv. tree_depth (snd kv)) kvs) 0)"
proof (induction rule: tree_elements_members.inducts)
  case (tree_scalar s)
  then show ?case by (simp add: nests_plain json_scalar_no_structural)
next
  case (elements_one w t v w')
  from nests_append[OF nests_ws[OF this(1)] nests_append[OF this(4) nests_ws[OF this(3)]]]
  show ?case by simp
next
  case (elements_more w t v w' es vs)
  from nests_append[OF nests_ws[OF this(1)] nests_append[OF this(5) nests_append[OF nests_ws[OF this(3)] nests_sep(1)[OF this(6)]]]]
  show ?case by (simp add: fold_max_0[of _ "tree_depth v"])
next
  case (members_one w k w' w'' t v w3)
  from nests_append[OF nests_ws[OF this(1)] nests_append[OF nests_string[OF this(2)] nests_append[OF nests_ws[OF this(3)]
      nests_sep(2)[OF nests_append[OF nests_ws[OF this(4)] nests_append[OF this(7) nests_ws[OF this(6)]]]]]]]
  show ?case by simp
next
  case (members_more w k w' w'' t v w3 ms kvs)
  from nests_append[OF nests_ws[OF this(1)] nests_append[OF nests_string[OF this(2)] nests_append[OF nests_ws[OF this(3)]
      nests_sep(2)[OF nests_append[OF nests_ws[OF this(4)] nests_append[OF this(8) nests_append[OF nests_ws[OF this(6)]
        nests_sep(1)[OF this(9)]]]]]]]]
  show ?case by (simp add: fold_max_0[of _ "tree_depth v"])
qed (auto simp: nests_string intro: nests_container nests_container[OF nests_ws])

lemma json_doc_nesting: "json_doc buf v \<Longrightarrow> max_nesting 0 (tokens buf) = tree_depth v"
proof -
  assume "json_doc buf v"
  then obtain w t w' where buf: "buf = w @ t @ w'" "ws w" "tree t v" "ws w'" by (auto simp: json_doc_def)
  with nests_append[OF nests_ws nests_append[OF tree_nests(1) nests_ws], of w t v w'] have "nests buf (tree_depth v)"
    by simp
  then have "max_nesting 0 (lex_tokens Outside 0 buf @ []) = max (0 + tree_depth v) (max_nesting 0 [])"
    unfolding nests_def by blast
  then show ?thesis by (simp add: tokens_def)
qed

lemma json_text_depth: "json_doc buf v \<Longrightarrow> json_text d buf \<longleftrightarrow> tree_depth v \<le> d"
  using json_doc_nesting unfolding json_text_iff_tree by metis

section \<open>The eager walk under a smaller limit\<close>

text \<open>A smaller limit changes the result of a successful walk only to a nesting error.\<close>

definition same_or_deep :: "('a, parse_error) outcome \<Rightarrow> ('a, parse_error) outcome \<Rightarrow> bool" where
  "same_or_deep r r' \<longleftrightarrow> r' = r \<or> (\<exists>p. r' = Err (parse_error_new QJSON_NESTING_TOO_DEEP p))"

lemma walk_token_limit:
  "walk_token M p b st = Ok st' \<Longrightarrow> same_or_deep (Ok st') (walk_token m p b st)"
  by (cases st) (auto simp: same_or_deep_def Let_def split: if_splits)

lemma walk_limit: "walk M st n s = Ok () \<Longrightarrow> same_or_deep (Ok ()) (walk m st n s)"
proof (induction "length s" arbitrary: st n s rule: less_induct)
  case less
  then obtain c st' where st: "st = c # st'" by (cases st) auto
  define gap where "gap = takeWhile (\<lambda>b. \<not> is_structural b) s"
  define rest where "rest = dropWhile (\<lambda>b. \<not> is_structural b) s"
  have s: "length s = length gap + length rest"
    unfolding gap_def rest_def by (metis length_append takeWhile_dropWhile_id)
  note w = less.prems[unfolded st walk.simps(2)[of M c st' n s] Let_def, folded gap_def rest_def]
  note w' = walk.simps(2)[of m c st' n s, unfolded Let_def, folded gap_def rest_def]
  from w obtain c' where c: "walk_gap n gap c = Ok c'" by auto
  show ?case
  proof (cases rest)
    case Nil
    with w w' c show ?thesis by (simp add: st same_or_deep_def)
  next
    case (Cons b t)
    show ?thesis
    proof (cases "b = 34")
      case True
      with w c Cons obtain body t' c'' where b: "split_string t = Some (body, t')"
        "validate_span_scalar body = Ok ()" "walk_string (n + length gap) c' = Ok c''"
        "walk M (c'' # st') (n + length gap + length body + 2) t' = Ok ()"
        by (auto split: option.splits)
      from less.hyps[OF _ b(4)] split_string_length[OF b(1)] b w' c True Cons s show ?thesis
        by (simp add: st)
    next
      case False
      with w c Cons obtain st2 where b: "walk_token M (n + length gap) b (c' # st') = Ok st2"
        "walk M st2 (n + length gap + 1) t = Ok ()" by (auto simp del: walk_token.simps)
      from less.hyps[OF _ b(2)] s Cons have "same_or_deep (Ok ()) (walk m st2 (n + length gap + 1) t)" by simp
      with walk_token_limit[OF b(1), of m] w' c False Cons show ?thesis
        by (auto simp: st same_or_deep_def simp del: walk_token.simps)
    qed
  qed
qed

section \<open>Parsing a text that is too deep\<close>

context structural_scanner
begin

lemma parse_deep:
  assumes len: "length buf < 2 ^ 32" and json: "json_doc buf v"
    and deep: "unat (effective_max_depth opts) < tree_depth v"
  shows "\<exists>p. parse_with_options_detailed scan tgt buf opts = Err (parse_error_new QJSON_NESTING_TOO_DEEP p)"
proof -
  let ?m = "unat (effective_max_depth opts)"
  from json have jt: "json_text (tree_depth v) buf" "\<not> json_text ?m buf"
    using deep json_text_depth by auto
  note wb = json_text_well_bracketed[OF jt(1)]
  have scan: "scan buf [] = (Ok (), offsets (tokens buf))"
    using json_adm[OF jt(1)] len wb by (cases rule: scan_cases[of buf]) auto
  have out: "lex_run Outside buf = Outside" using wb by (simp add: well_bracketed_def)
  show ?thesis
  proof (cases "is_eager opts")
    case True
    from jt(1) have "walk (tree_depth v) [Top] 0 buf = Ok ()" by (simp add: walk_iff)
    from walk_limit[OF this, of ?m] jt(2) obtain p where
      "walk ?m [Top] 0 buf = Err (parse_error_new QJSON_NESTING_TOO_DEEP p)"
      by (auto simp: same_or_deep_def walk_iff)
    with True scan json_text_not_ws[OF jt(1)] validate_trailing_json[OF len jt(1)] show ?thesis
      by (intro exI[of _ p]) (simp add: parse_with_options_detailed_def Let_def validate_eager_values_walk[OF len out])
  next
    case False
    have toks: "\<forall>(p, b) \<in> set (tokens buf). p < length buf \<and> buf ! p = b" using tokens_nth by blast
    from wb have "pair_brackets [] (tokens buf) = Inr []" by (simp add: well_bracketed_def)
    from validate_depth_loop_tokens[OF len max_depth_bound[of opts] toks this, where tgt = tgt] json_doc_nesting[OF json] deep
    obtain p where "validate_depth_with_offset tgt buf (offsets (tokens buf) @ [U32_MAX]) (effective_max_depth opts) =
        Err (parse_error_new QJSON_NESTING_TOO_DEEP p)"
      by (auto simp: validate_depth_with_offset_def)
    with False scan json_text_not_ws[OF jt(1)] show ?thesis
      by (intro exI[of _ p]) (simp add: parse_with_options_detailed_def Let_def)
  qed
qed

text \<open>Parsing a JSON text, in either mode.\<close>

lemma parse_json:
  assumes len: "length buf < 2 ^ 32" and json: "json_doc buf v"
  shows "case parse_with_options_detailed scan tgt buf opts of
      Ok d \<Rightarrow> tree_depth v \<le> unat (effective_max_depth opts) \<and>
        d = document_new buf (offsets (tokens buf) @ [U32_MAX]) (is_eager opts)
    | Err e \<Rightarrow> unat (effective_max_depth opts) < tree_depth v \<and> pe_code e = QJSON_NESTING_TOO_DEEP
    | Panic \<Rightarrow> False"
proof (cases "tree_depth v \<le> unat (effective_max_depth opts)")
  case True
  have jt: "json_text (unat (effective_max_depth opts)) buf" using json_text_depth[OF json] True by simp
  note adm = json_adm[OF jt] and wb = json_text_well_bracketed[OF jt] and nws = json_text_not_ws[OF jt]
  have "parse_with_options_detailed scan tgt buf opts =
      Ok (document_new buf (offsets (tokens buf) @ [U32_MAX]) (is_eager opts))"
    using parse_eager[OF adm len] parse_lazy[OF adm len] jt wb nws json_doc_nesting[OF json] True
    by (cases "is_eager opts") auto
  with True show ?thesis by simp
next
  case False
  with parse_deep[OF len json, of opts tgt] show ?thesis by (auto simp: parse_error_new_def)
qed

end

end
