(* ===== verification/Fuzz_Depth.thy ===== *)
theory Fuzz_Depth
  imports Nesting
begin

text \<open>
  \<open>fuzz/fuzz_targets/fuzz_depth.rs\<close>: the generator of nested documents, their mutations, and the
  driver, which parses a document in a chosen mode with a chosen limit and walks down the accepted
  ones through the C interface. An assertion that fails is \<open>Panic\<close>; the theorems show that none does.
\<close>

section \<open>The generator\<close>

definition byte_of :: "bytes \<Rightarrow> nat \<Rightarrow> u8" where
  "byte_of data idx = (case slice_get data idx of None \<Rightarrow> 0 | Some b \<Rightarrow> b)"

definition u16_at :: "bytes \<Rightarrow> nat \<Rightarrow> u16" where
  "u16_at data idx = ucast (byte_of data idx) OR push_bit 8 (ucast (byte_of data (idx + 1)))"

datatype nest_step = Index0 | KeyK

datatype shape_mode = ShapeArray | ShapeObject | ShapeMixed

definition shape_from_byte :: "u8 \<Rightarrow> shape_mode" where
  "shape_from_byte b = (if b mod 3 = 0 then ShapeArray else if b mod 3 = 1 then ShapeObject else ShapeMixed)"

definition shape_step :: "shape_mode \<Rightarrow> u32 \<Rightarrow> bytes \<Rightarrow> nest_step" where
  "shape_step shape level data =
     (case shape of
        ShapeArray \<Rightarrow> Index0
      | ShapeObject \<Rightarrow> KeyK
      | ShapeMixed \<Rightarrow>
          (let selector = byte_of data (13 + unat level mod 16) in
           if drop_bit (unat (level mod 8)) selector AND 1 = 0 then Index0 else KeyK))"

text \<open>\<open>path_steps\<close>: the steps of the first levels, for no data.\<close>

definition path_steps :: "shape_mode \<Rightarrow> u32 \<Rightarrow> nest_step list" where
  "path_steps shape depth = map (\<lambda>level. shape_step shape (of_nat level) []) [0..<unat depth]"

definition requested_max_depth :: "bytes \<Rightarrow> u32" where
  "requested_max_depth data =
     (let k = byte_of data 1 mod 5 in
      if k = 0 then 0
      else if k = 1 then QJSON_DEFAULT_MAX_DEPTH
      else if k = 2 then QJSON_MAX_MAX_DEPTH
      else if k = 3 then U32_MAX
      else 1 + ucast (u16_at data 2) mod QJSON_MAX_MAX_DEPTH)"

definition fuzz_effective_max_depth :: "u32 \<Rightarrow> u32" where
  "fuzz_effective_max_depth requested =
     (let depth = (if requested = 0 then QJSON_DEFAULT_MAX_DEPTH else requested) in
      min depth QJSON_MAX_MAX_DEPTH)"

definition generated_depth :: "bytes \<Rightarrow> u32 \<Rightarrow> u32" where
  "generated_depth data effective =
     (let k = byte_of data 5 mod 8 in
      if k = 0 then max (if effective < 1 then 0 else effective - 1) 1
      else if k = 1 then effective
      else if k = 2 then effective + 1
      else if k = 3 then effective + 2
      else 1 + ucast (u16_at data 6) mod (QJSON_MAX_MAX_DEPTH + 2))"

definition push_open :: "nest_step \<Rightarrow> bytes \<times> bytes \<Rightarrow> bytes \<times> bytes" where
  "push_open s = (\<lambda>(out, closers).
     case s of
       Index0 \<Rightarrow> (out @ [91], closers @ [93])
     | KeyK \<Rightarrow> (out @ js ''{`k`:'', closers @ [125]))"

definition nested_leaf :: "bytes \<Rightarrow> bytes" where
  "nested_leaf data =
     (let k = byte_of data 8 mod 4 in
      if k = 0 then bs ''0'' else if k = 1 then bs ''true'' else if k = 2 then bs ''null'' else js ''`x`'')"

definition nested_json :: "u32 \<Rightarrow> shape_mode \<Rightarrow> bytes \<Rightarrow> bytes" where
  "nested_json depth shape data =
     (let (out, closers) = fold (\<lambda>level. push_open (shape_step shape (of_nat level) data)) [0..<unat depth] ([], []) in
      out @ nested_leaf data @ rev closers)"

text \<open>The byte a mutated position gets.\<close>

definition mutate_byte :: "u8 \<Rightarrow> u8" where
  "mutate_byte b =
     (if b = 91 then 123 else if b = 123 then 91 else if b = 93 then 125 else if b = 125 then 93
      else if b = 34 then 92 else 91)"

text \<open>The document after the call, and whether it was mutated.\<close>

definition mutate_skeleton :: "bytes \<Rightarrow> bytes \<Rightarrow> bytes \<times> bool" where
  "mutate_skeleton json data =
     (if json = [] then (json, False)
      else
        (let k = byte_of data 9 mod 5 in
         if k = 0 then (json, False)
         else if k = 1 then (take (unat (u16_at data 10) mod length json) json, True)
         else if k = 2 then
           (let pos = unat (u16_at data 10) mod length json in (json[pos := mutate_byte (json ! pos)], True))
         else if k = 3 then (json @ [32] @ [120], True)
         else
           (let pos = unat (u16_at data 10) mod (length json + 1) in
            (take pos json @ [byte_of data 12] @ drop pos json, True))))"

section \<open>The driver\<close>

text \<open>\<open>assert!\<close>.\<close>

definition assert :: "bool \<Rightarrow> 'a \<Rightarrow> ('a, unit) outcome" where
  "assert b x = (if b then Ok x else Panic)"

lemma assert_simps [simp]: "assert True x = Ok x" "assert False x = Panic"
  by (simp_all add: assert_def)

definition ffi_parse_error :: "scanner \<Rightarrow> target \<Rightarrow> nat \<Rightarrow> heap \<Rightarrow> bytes \<Rightarrow> options \<Rightarrow> int \<times> heap" where
  "ffi_parse_error sc tgt addr h json opts =
     (let (doc, err, h) = qjson_parse_ex sc tgt addr h (Bytes json) (Some opts) True;
          err = (case err of None \<Rightarrow> qjson_error_default | Some e \<Rightarrow> e) in
      (qe_code err, qjson_free h doc))"

text \<open>The loop over the steps; what a call does not write keeps its initial value.\<close>

definition zeroed_cursor :: qjson_cursor where
  "zeroed_cursor = \<lparr>qc_doc = None, qc_idx_start = 0, qc_idx_end = 0, reserved0 = 0, reserved1 = 0\<rparr>"

definition written :: "'a \<Rightarrow> 'a option \<Rightarrow> 'a" where
  "written x w = (case w of None \<Rightarrow> x | Some y \<Rightarrow> y)"

fun walk_steps :: "heap \<Rightarrow> qjson_cursor \<Rightarrow> nest_step list \<Rightarrow> (qjson_cursor \<times> heap, unit) outcome" where
  "walk_steps h cur [] = Ok (cur, h)"
| "walk_steps h cur (s # steps) =
     (let (rc, len, h) = qjson_cursor_len h (Some cur) (Null 0) True in
      and_then (assert (rc = err_code QJSON_OK \<and> len = Some 1) ()) (\<lambda>_.
        let (rc, next, h) =
              (case s of
                 Index0 \<Rightarrow> qjson_cursor_index h (Some cur) 0 True
               | KeyK \<Rightarrow> qjson_cursor_field h (Some cur) (Bytes (bs ''k'')) True) in
        and_then (assert (rc = err_code QJSON_OK) ()) (\<lambda>_.
          walk_steps h (written zeroed_cursor next) steps)))"

definition walk_accepted_doc ::
  "scanner \<Rightarrow> target \<Rightarrow> nat \<Rightarrow> heap \<Rightarrow> bytes \<Rightarrow> options \<Rightarrow> nest_step list \<Rightarrow> (heap, unit) outcome" where
  "walk_accepted_doc sc tgt addr h json opts steps =
     (let (doc, err, h) = qjson_parse_ex sc tgt addr h (Bytes json) (Some opts) True in
      and_then (assert (doc \<noteq> None) ()) (\<lambda>_.
      and_then (assert (qe_code (written qjson_error_default err) = err_code QJSON_OK) ()) (\<lambda>_.
        let (rc, cur, h) = qjson_open h doc (Null 0) True in
        and_then (assert (rc = err_code QJSON_OK) ()) (\<lambda>_.
        and_then (walk_steps h (written zeroed_cursor cur) steps) (\<lambda>(cur, h).
          let (rc, range, h) = qjson_cursor_bytes h (Some cur) True in
          and_then (assert (rc = err_code QJSON_OK) ()) (\<lambda>_.
          and_then (assert (case range of Some (s, e) \<Rightarrow> s < e \<and> e \<le> length json | None \<Rightarrow> False) ()) (\<lambda>_.
            Ok (qjson_free h doc))))))))"

definition assert_parse_ok :: "scanner \<Rightarrow> target \<Rightarrow> nat \<Rightarrow> heap \<Rightarrow> bytes \<Rightarrow> options \<Rightarrow> (heap, unit) outcome" where
  "assert_parse_ok sc tgt addr h json opts =
     and_then (assert (is_ok (parse_with_options sc tgt json opts)) ()) (\<lambda>_.
       let (code, h) = ffi_parse_error sc tgt addr h json opts in assert (code = err_code QJSON_OK) h)"

definition assert_nesting_error :: "scanner \<Rightarrow> target \<Rightarrow> nat \<Rightarrow> heap \<Rightarrow> bytes \<Rightarrow> options \<Rightarrow> (heap, unit) outcome" where
  "assert_nesting_error sc tgt addr h json opts =
     and_then (assert (parse_with_options sc tgt json opts = Err QJSON_NESTING_TOO_DEEP) ()) (\<lambda>_.
       let (code, h) = ffi_parse_error sc tgt addr h json opts in assert (code = err_code QJSON_NESTING_TOO_DEEP) h)"

definition assert_boundary ::
  "scanner \<Rightarrow> target \<Rightarrow> nat \<Rightarrow> heap \<Rightarrow> u32 \<Rightarrow> u32 \<Rightarrow> u32 \<Rightarrow> shape_mode \<Rightarrow> (heap, unit) outcome" where
  "assert_boundary sc tgt addr h mode requested effective shape =
     (let opts = \<lparr>opt_mode = mode, opt_max_depth = requested\<rparr>;
          at_limit = nested_json effective shape [0];
          over_limit = nested_json (effective + 1) shape [0] in
      and_then (assert_parse_ok sc tgt addr h at_limit opts) (\<lambda>h.
      and_then (walk_accepted_doc sc tgt addr h at_limit opts (path_steps shape effective)) (\<lambda>h.
        assert_nesting_error sc tgt addr h over_limit opts)))"

definition boundary_cases :: "(u32 \<times> u32 \<times> u32 \<times> shape_mode) list" where
  "boundary_cases = concat (map (\<lambda>mode.
     [(mode, 0, QJSON_DEFAULT_MAX_DEPTH, ShapeArray),
      (mode, QJSON_MAX_MAX_DEPTH, QJSON_MAX_MAX_DEPTH, ShapeObject),
      (mode, U32_MAX, QJSON_MAX_MAX_DEPTH, ShapeMixed)]) [QJSON_MODE_EAGER, QJSON_MODE_LAZY])"

definition run_boundary_assertions :: "scanner \<Rightarrow> target \<Rightarrow> nat \<Rightarrow> heap \<Rightarrow> (heap, unit) outcome" where
  "run_boundary_assertions sc tgt addr h =
     fold (\<lambda>(mode, requested, effective, shape) r.
       and_then r (\<lambda>h. assert_boundary sc tgt addr h mode requested effective shape)) boundary_cases (Ok h)"

text \<open>The checks of \<open>run_generated_case\<close> on the generated document, then the whole function.\<close>

definition check_generated ::
  "scanner \<Rightarrow> target \<Rightarrow> nat \<Rightarrow> heap \<Rightarrow> options \<Rightarrow> u32 \<Rightarrow> u32 \<Rightarrow> nest_step list \<Rightarrow> bytes \<Rightarrow> bool \<Rightarrow> (heap, unit) outcome" where
  "check_generated sc tgt addr h opts effective depth steps json mutated =
     (let result = parse_with_options sc tgt json opts in
      if result = Panic then Panic
      else
        (let (ffi_err, h) = ffi_parse_error sc tgt addr h json opts in
         and_then (assert (ffi_err \<noteq> err_code QJSON_OOM) ()) (\<lambda>_.
           if mutated then Ok h
           else if depth > effective then
             and_then (assert (result = Err QJSON_NESTING_TOO_DEEP) ()) (\<lambda>_.
               assert (ffi_err = err_code QJSON_NESTING_TOO_DEEP) h)
           else
             and_then (assert (is_ok result) ()) (\<lambda>_.
             and_then (assert (ffi_err = err_code QJSON_OK) ()) (\<lambda>_.
               if depth \<le> 256 then walk_accepted_doc sc tgt addr h json opts steps else Ok h)))))"

definition run_generated_case :: "scanner \<Rightarrow> target \<Rightarrow> nat \<Rightarrow> heap \<Rightarrow> bytes \<Rightarrow> (heap, unit) outcome" where
  "run_generated_case sc tgt addr h data =
     (let opts = \<lparr>opt_mode = (if byte_of data 0 AND 1 = 0 then QJSON_MODE_EAGER else QJSON_MODE_LAZY),
                 opt_max_depth = requested_max_depth data\<rparr>;
          effective = fuzz_effective_max_depth (opt_max_depth opts);
          depth = generated_depth data effective;
          shape = shape_from_byte (byte_of data 4);
          (json, mutated) = mutate_skeleton (nested_json depth shape data) data in
      check_generated sc tgt addr h opts effective depth
        (map (\<lambda>level. shape_step shape (of_nat level) data) [0..<unat depth]) json mutated)"

section \<open>The generated text\<close>

fun nest :: "nest_step list \<Rightarrow> bytes \<Rightarrow> bytes" where
  "nest [] leaf = leaf"
| "nest (Index0 # steps) leaf = 91 # nest steps leaf @ [93]"
| "nest (KeyK # steps) leaf = js ''{`k`:'' @ nest steps leaf @ [125]"

fun nest_tree :: "nest_step list \<Rightarrow> json \<Rightarrow> json" where
  "nest_tree [] v = v"
| "nest_tree (Index0 # steps) v = JArray [nest_tree steps v]"
| "nest_tree (KeyK # steps) v = JObject [(bs ''k'', nest_tree steps v)]"

lemma fold_push_open:
  "fold push_open steps (out, closers) = (out', closers') \<Longrightarrow>
    out' @ leaf @ rev closers' = out @ nest steps leaf @ rev closers"
proof (induction steps arbitrary: out closers)
  case (Cons s steps)
  then show ?case
    using Cons.IH[of "out @ [91]" "closers @ [93]"] Cons.IH[of "out @ js ''{`k`:''" "closers @ [125]"]
    by (cases s) (simp_all add: push_open_def)
qed simp

definition shape_steps :: "shape_mode \<Rightarrow> u32 \<Rightarrow> bytes \<Rightarrow> nest_step list" where
  "shape_steps shape depth data = map (\<lambda>level. shape_step shape (of_nat level) data) [0..<unat depth]"

lemma nested_json_eq: "nested_json depth shape data = nest (shape_steps shape depth data) (nested_leaf data)"
proof -
  obtain out closers where f: "fold push_open (shape_steps shape depth data) ([], []) = (out, closers)" by force
  then have "fold (\<lambda>level. push_open (shape_step shape (of_nat level) data)) [0..<unat depth] ([], []) = (out, closers)"
    by (simp add: shape_steps_def fold_map comp_def)
  with fold_push_open[OF f, of "nested_leaf data"] show ?thesis by (simp add: nested_json_def)
qed

lemma key_string: "json_string (34 # bs ''k'' @ [34])"
proof -
  have "string_denotes (bs ''k'') [107]" using den_plain[of 107 "[]" "[]"] den_nil by simp
  then show ?thesis
    unfolding json_string_def by (intro exI[of _ "bs ''k''"] exI[of _ "[107]"]) (simp add: unquoted_def)
qed

lemma nest_denotes: "tree leaf v \<Longrightarrow> tree (nest steps leaf) (nest_tree steps v)"
proof (induction steps leaf rule: nest.induct)
  case (2 steps leaf)
  then show ?case using tree_array[OF elements_one[of "[]" "nest steps leaf" _ "[]"]] by simp
next
  case (3 steps leaf)
  then show ?case using tree_object[OF members_one[of "[]" "bs ''k''" "[]" "[]" "nest steps leaf" _ "[]"]] key_string by simp
qed simp

lemma nest_depth: "tree_depth (nest_tree steps v) = length steps + tree_depth v"
  by (induction steps v rule: nest_tree.induct) simp_all

lemma nest_length: "length (nest steps leaf) \<le> 6 * length steps + length leaf"
  by (induction steps leaf rule: nest.induct) simp_all

definition leaf_tree :: "bytes \<Rightarrow> json" where
  "leaf_tree leaf = (if leaf = js ''`x`'' then JString (bs ''x'') else JScalar leaf)"

lemma nested_leaf_tree: "tree (nested_leaf data) (leaf_tree (nested_leaf data))" "tree_depth (leaf_tree leaf) = 0"
  "length (nested_leaf data) \<le> 4"
proof -
  show "tree (nested_leaf data) (leaf_tree (nested_leaf data))"
  proof -
    have x: "json_string (34 # bs ''x'' @ [34])"
    proof -
      have "string_denotes (bs ''x'') [120]" using den_plain[of 120 "[]" "[]"] den_nil by simp
      then show ?thesis
        unfolding json_string_def by (intro exI[of _ "bs ''x''"] exI[of _ "[120]"]) (simp add: unquoted_def)
    qed
    have "validate_number (bs ''0'') = Ok ()" by code_simp
    then have "json_number (bs ''0'')" by (simp add: validate_number_iff)
    then have "json_scalar (bs ''0'')" "json_scalar (bs ''true'')" "json_scalar (bs ''null'')"
      by (simp_all add: json_scalar_def json_literal_def)
    note scalars = this[THEN tree_scalar]
    from tree_string[OF x] scalars show ?thesis
      by (simp add: nested_leaf_def leaf_tree_def Let_def)
  qed
  show "tree_depth (leaf_tree leaf) = 0" by (simp add: leaf_tree_def)
  show "length (nested_leaf data) \<le> 4" by (simp add: nested_leaf_def Let_def)
qed

section \<open>The driver on accepted documents\<close>

text \<open>A call on a cursor of a live document whose body succeeds.\<close>

lemma cursor_call:
  assumes "h p = Some d" "body p (clear_last_error_offset d) cur = (Ok x, d')"
  shows "cursor_body h (Some (internal_to_cursor (Some p) cur)) True body = (err_code QJSON_OK, Some x, h(p \<mapsto> d'))"
  using assms
  by (cases cur) (simp add: cursor_body_def clear_cursor_doc_error_offset_if_available_def ffi_catch_def on_doc_def
      clear_doc_error_offset_if_available_def internal_to_cursor_def cursor_to_internal_def cursor_at_def)

lemma len_call:
  assumes d: "h p = Some d" "doc_inv d" "denotes d cur v" "is_container v"
  shows "\<exists>d'. qjson_cursor_len h (Some (internal_to_cursor (Some p) cur)) (Null 0) True =
      (err_code QJSON_OK, Some (length (children v)), h(p \<mapsto> d')) \<and> doc_inv d' \<and> keeps d d'"
proof -
  let ?d = "clear_last_error_offset d"
  have inv: "doc_inv ?d" using keeps_updates(2) d(2) by (rule keeps_doc_inv)
  have den: "denotes ?d cur v" using d(3) by (simp add: keeps_denotes[OF keeps_updates(2)])
  have "path_next [] = (None, [])" by (simp add: path_next.simps)
  then have res: "resolve ?d cur [] = (Ok cur, ?d)" by (simp add: resolve.simps)
  from read_len_ok[OF doc_inv_indexed[OF inv] den] d(4) have "read_len ?d cur = (Ok (length (children v)), ?d)"
    by (cases "read_len ?d cur") (simp add: reads_as_def)
  with res cursor_call[of h p d "\<lambda>p d cur. case resolve d cur (slice_bytes (Null 0)) of
      (Ok cur', d) \<Rightarrow> read_len d cur' | (Err e, d) \<Rightarrow> or_set_offset cur (Err e) d | (Panic, d) \<Rightarrow> (Panic, d)" cur, OF d(1)] inv
  show ?thesis by (intro exI[of _ ?d]) (simp add: qjson_cursor_len_def cursor_op_def)
qed

lemma child_call:
  assumes d: "h p = Some d" "doc_inv d" "denotes d cur v" "child v seg = Ok w"
  shows "\<exists>c d'. cursor_body h (Some (internal_to_cursor (Some p) cur)) True (\<lambda>p d cur. case step d cur seg of
         (Ok c1, d) \<Rightarrow> (Ok (internal_to_cursor (Some p) c1), d)
       | (Err e, d) \<Rightarrow> or_set_offset cur (Err e) d
       | (Panic, d) \<Rightarrow> (Panic, d)) = (err_code QJSON_OK, Some (internal_to_cursor (Some p) c), h(p \<mapsto> d')) \<and>
      doc_inv d' \<and> denotes d' c w \<and> keeps d d'"
proof -
  let ?d = "clear_last_error_offset d"
  have k: "keeps d ?d" by simp
  have inv: "doc_inv ?d" using k d(2) by (rule keeps_doc_inv)
  have den: "denotes ?d cur v" using d(3) by (simp add: keeps_denotes[OF k])
  from step_ok[OF inv den, of seg] d(4) obtain c d' where s: "step ?d cur seg = (Ok c, d')" "denotes ?d c w"
    "doc_inv d'" "same_text ?d d'" by (auto simp: agrees_def)
  have k': "keeps ?d d'" using s(4,3) by (rule same_text_keeps)
  from cursor_call[of h p d "\<lambda>p d cur. case step d cur seg of
         (Ok c1, d) \<Rightarrow> (Ok (internal_to_cursor (Some p) c1), d)
       | (Err e, d) \<Rightarrow> or_set_offset cur (Err e) d | (Panic, d) \<Rightarrow> (Panic, d)" cur, OF d(1)] s(1,2,3) keeps_trans[OF k k']
  show ?thesis by (intro exI[of _ c] exI[of _ d']) (simp add: keeps_denotes[OF k'])
qed

lemma walk_steps_ok:
  assumes "h p = Some d" "doc_inv d" "denotes d cur (nest_tree steps v)"
  shows "\<exists>c d'. walk_steps h (internal_to_cursor (Some p) cur) steps = Ok (internal_to_cursor (Some p) c, h(p \<mapsto> d')) \<and>
    doc_inv d' \<and> denotes d' c v \<and> keeps d d'"
  using assms
proof (induction steps arbitrary: h d cur)
  case (Cons s steps)
  define seg where "seg = (case s of Index0 \<Rightarrow> Idx 0 | KeyK \<Rightarrow> Key (bs ''k''))"
  have nest: "is_container (nest_tree (s # steps) v)" "length (children (nest_tree (s # steps) v)) = 1"
    "child (nest_tree (s # steps) v) seg = Ok (nest_tree steps v)"
    by (cases s; simp add: seg_def)+
  from len_call[of h p d, OF Cons.prems nest(1)] nest(2) obtain d1 where
    len: "qjson_cursor_len h (Some (internal_to_cursor (Some p) cur)) (Null 0) True = (err_code QJSON_OK, Some 1, h(p \<mapsto> d1))"
    and d1: "doc_inv d1" "keeps d d1" by auto
  have "denotes d1 cur (nest_tree (s # steps) v)" using Cons.prems(3) by (simp add: keeps_denotes[OF d1(2)])
  from child_call[of "h(p \<mapsto> d1)" p d1, OF _ d1(1) this nest(3)] obtain c d2 where
    next_call: "(case s of
        Index0 \<Rightarrow> qjson_cursor_index (h(p \<mapsto> d1)) (Some (internal_to_cursor (Some p) cur)) 0 True
      | KeyK \<Rightarrow> qjson_cursor_field (h(p \<mapsto> d1)) (Some (internal_to_cursor (Some p) cur)) (Bytes (bs ''k'')) True) =
      (err_code QJSON_OK, Some (internal_to_cursor (Some p) c), h(p \<mapsto> d2))"
    and d2: "doc_inv d2" "denotes d2 c (nest_tree steps v)" "keeps d1 d2"
    by (cases s) (auto simp: seg_def qjson_cursor_index_def qjson_cursor_field_def resolve_single_idx_def
        resolve_single_key_def simp del: bs_simps)
  have "(h(p \<mapsto> d2)) p = Some d2" by simp
  from Cons.IH[of "h(p \<mapsto> d2)" d2, OF this d2(1,2)] obtain c' d' where
    "walk_steps (h(p \<mapsto> d2)) (internal_to_cursor (Some p) c) steps = Ok (internal_to_cursor (Some p) c', h(p \<mapsto> d'))"
    "doc_inv d'" "denotes d' c' v" "keeps d2 d'" unfolding fun_upd_upd by blast
  moreover from this len next_call have "walk_steps h (internal_to_cursor (Some p) cur) (s # steps) =
      Ok (internal_to_cursor (Some p) c', h(p \<mapsto> d'))" by (simp add: written_def)
  ultimately show ?case using keeps_trans[OF d1(2) keeps_trans[OF d2(3)]] by blast
next
  case Nil
  then have "h = h(p \<mapsto> d)" by auto
  with Nil show ?case by (metis keeps_refl nest_tree.simps(1) walk_steps.simps(1))
qed

lemma open_call:
  assumes "h p = Some d"
  shows "qjson_open h (Some p) (Null 0) True =
    (err_code QJSON_OK, Some (internal_to_cursor (Some p) (cursor_root d)), h(p \<mapsto> clear_last_error_offset d))"
proof -
  have "path_next [] = (None, [])" by (simp add: path_next.simps)
  then have "resolve d' cur [] = (Ok cur, d')" for d' cur by (simp add: resolve.simps)
  with assms show ?thesis
    by (simp add: qjson_open_def root_op_def clear_doc_error_offset_if_available_def resolve_root_path_def on_doc_def
        bind_doc_def ffi_catch_def cursor_root_def clear_last_error_offset_def)
qed

lemma bytes_call:
  assumes d: "h p = Some d" "doc_inv d" "denotes d cur v"
  shows "\<exists>s e d'. qjson_cursor_bytes h (Some (internal_to_cursor (Some p) cur)) True = (err_code QJSON_OK, Some (s, e), h(p \<mapsto> d')) \<and>
    s < e \<and> e \<le> length (doc_buf d)"
proof -
  let ?d = "clear_last_error_offset d"
  have k: "keeps d ?d" by simp
  have inv: "doc_inv ?d" using k d(2) by (rule keeps_doc_inv)
  have den: "denotes ?d cur v" using d(3) by (simp add: keeps_denotes[OF k])
  from value_start[OF doc_inv_indexed[OF inv] den] obtain s e where
    r: "cursor_byte_range ?d cur = Ok (s, e)" "s \<le> e" "e \<le> length (doc_buf ?d)" "tree (slice s e (doc_buf ?d)) v"
    by (auto simp: text_at_def)
  have "slice s e (doc_buf ?d) \<noteq> []"
    using r(4) json_scalar_nonempty by (cases rule: tree.cases) auto
  then have "s < e" using r(2) by (cases "s = e") auto
  with r cursor_call[of h p d "\<lambda>p d cur. (cursor_byte_range d cur, d)" cur, OF d(1)] show ?thesis
    by (intro exI[of _ s] exI[of _ e] exI[of _ ?d]) (simp add: qjson_cursor_bytes_def clear_last_error_offset_def)
qed

lemma free_fresh: "h p = None \<Longrightarrow> qjson_free (h(p \<mapsto> d)) (Some p) = h"
  by (auto simp: qjson_free_def)

lemma walk_accepted:
  assumes len: "length json < 2 ^ 32" and doc: "json_doc json (nest_tree steps v)" and fresh: "h addr = None"
    and parse: "parse_with_options_detailed sc tgt json opts =
      Ok (document_new json (offsets (tokens json) @ [U32_MAX]) (is_eager opts))"
  shows "walk_accepted_doc sc tgt addr h json opts steps = Ok h"
proof -
  define d where "d = document_new json (offsets (tokens json) @ [U32_MAX]) (is_eager opts)"
  let ?d = "clear_last_error_offset d"
  have buf: "doc_buf d = json" by (simp add: d_def document_new_def)
  have inv: "doc_inv d" unfolding d_def using len by (rule doc_new_inv)
  have "denotes d (cursor_root d) (nest_tree steps v)"
    using root_denotes[OF doc_inv_indexed[OF inv]] doc buf by simp
  then have den: "denotes ?d (cursor_root d) (nest_tree steps v)" by (simp add: keeps_denotes[OF keeps_updates(2)])
  have inv': "doc_inv ?d" using keeps_updates(2) inv by (rule keeps_doc_inv)
  have "(h(addr \<mapsto> ?d)) addr = Some ?d" by simp
  from walk_steps_ok[of "h(addr \<mapsto> ?d)" addr ?d, OF this inv' den] obtain c d1 where
    walk: "walk_steps (h(addr \<mapsto> ?d)) (internal_to_cursor (Some addr) (cursor_root d)) steps =
      Ok (internal_to_cursor (Some addr) c, h(addr \<mapsto> d1))"
    and d1: "doc_inv d1" "denotes d1 c v" "keeps ?d d1" unfolding fun_upd_upd by blast
  have "(h(addr \<mapsto> d1)) addr = Some d1" by simp
  from bytes_call[of "h(addr \<mapsto> d1)" addr d1, OF this d1(1,2)] obtain s e d2 where
    "qjson_cursor_bytes (h(addr \<mapsto> d1)) (Some (internal_to_cursor (Some addr) c)) True =
      (err_code QJSON_OK, Some (s, e), h(addr \<mapsto> d2))" "s < e" "e \<le> length (doc_buf d1)"
    unfolding fun_upd_upd by blast
  moreover have "doc_buf d1 = json" using d1(3) buf by (simp add: keeps_def clear_last_error_offset_def)
  ultimately show ?thesis
    using walk open_call[of "h(addr \<mapsto> d)" addr d] free_fresh[of h addr, OF fresh] parse
    by (simp add: walk_accepted_doc_def qjson_parse_ex_def write_parse_error_def written_def d_def[symmetric]
        qjson_error_default_def qjson_error_no_offset_def qjson_error_new_def)
qed

lemma ffi_parse_error_eq:
  assumes "h addr = None"
  shows "ffi_parse_error sc tgt addr h json opts =
    (case parse_with_options_detailed sc tgt json opts of
       Ok d \<Rightarrow> (err_code QJSON_OK, h) | Err e \<Rightarrow> (err_code (pe_code e), h) | Panic \<Rightarrow> (err_code QJSON_OOM, h))"
  using free_fresh[of h addr, OF assms]
  by (simp add: ffi_parse_error_def qjson_parse_ex_def write_parse_error_def qjson_error_default_def
      qjson_error_no_offset_def qjson_error_new_def qjson_error_from_def qjson_free_def split: outcome.split)

section \<open>The depth limits of the harness\<close>

lemma fuzz_effective_max_depth_eq:
  "fuzz_effective_max_depth requested = effective_max_depth \<lparr>opt_mode = mode, opt_max_depth = requested\<rparr>"
  by (simp add: fuzz_effective_max_depth_def effective_max_depth_def)

lemma word32_succ: "unat w \<le> 4096 \<Longrightarrow> unat (w + 1 :: u32) = unat w + 1 \<and> unat (w + 2) = unat w + 2"
  by (simp add: unat_word_ariths)

lemma generated_depth_bound:
  assumes "unat effective \<le> 4096"
  shows "unat (generated_depth data effective) \<le> 4098"
proof -
  have "unat (max (if effective < 1 then 0 else effective - 1) 1) \<le> 4096"
    using assms by (auto simp: max_def word_less_nat_alt word_le_nat_alt unat_sub)
  moreover have "unat (1 + x mod (QJSON_MAX_MAX_DEPTH + 2)) \<le> 4098" for x :: u32
  proof -
    have "unat (x mod (QJSON_MAX_MAX_DEPTH + 2)) < 4098"
      by (simp add: unat_mod QJSON_MAX_MAX_DEPTH_def)
    then show ?thesis by (simp add: unat_word_ariths)
  qed
  ultimately show ?thesis
    using assms word32_succ[OF assms] by (auto simp: generated_depth_def Let_def)
qed

lemma nested_json_small: "unat depth \<le> 4098 \<Longrightarrow> length (nested_json depth shape data) \<le> 24592"
  using nest_length[of "shape_steps shape depth data" "nested_leaf data"] nested_leaf_tree(3)[of data]
  by (simp add: nested_json_eq shape_steps_def)

lemma nested_json_doc:
  "json_doc (nested_json depth shape data) (nest_tree (shape_steps shape depth data) (leaf_tree (nested_leaf data)))"
  "tree_depth (nest_tree (shape_steps shape depth data) (leaf_tree (nested_leaf data))) = unat depth"
proof -
  have "tree (nested_json depth shape data) (nest_tree (shape_steps shape depth data) (leaf_tree (nested_leaf data)))"
    unfolding nested_json_eq using nested_leaf_tree(1) by (rule nest_denotes)
  then show "json_doc (nested_json depth shape data) (nest_tree (shape_steps shape depth data) (leaf_tree (nested_leaf data)))"
    unfolding json_doc_def by (intro exI[of _ "[]"] exI[of _ "nested_json depth shape data"]) simp
  show "tree_depth (nest_tree (shape_steps shape depth data) (leaf_tree (nested_leaf data))) = unat depth"
    by (simp add: nest_depth nested_leaf_tree(2) shape_steps_def)
qed

context structural_scanner
begin

text \<open>A generated document within the limit is accepted and walked, a deeper one is rejected.\<close>

lemma nested_parse:
  assumes depth: "unat depth \<le> 4098" and fresh: "h addr = None"
    and json: "json = nested_json depth shape data"
  shows "if unat depth \<le> unat (effective_max_depth opts)
    then is_ok (parse_with_options scan tgt json opts) \<and> ffi_parse_error scan tgt addr h json opts = (err_code QJSON_OK, h) \<and>
      walk_accepted_doc scan tgt addr h json opts (shape_steps shape depth data) = Ok h
    else parse_with_options scan tgt json opts = Err QJSON_NESTING_TOO_DEEP \<and>
      ffi_parse_error scan tgt addr h json opts = (err_code QJSON_NESTING_TOO_DEEP, h)"
proof -
  let ?r = "parse_with_options_detailed scan tgt json opts"
  have len: "length json < 2 ^ 32" unfolding json using nested_json_small[OF depth, of shape data] by simp
  note doc = nested_json_doc[where depth = depth and shape = shape and data = data, folded json]
  note parse = parse_json[OF len doc(1), where tgt = tgt and opts = opts, unfolded doc(2)]
  show ?thesis
  proof (cases ?r)
    case (Ok d)
    with parse walk_accepted[OF len doc(1), of h addr, OF fresh, of scan tgt opts] show ?thesis
      by (simp add: parse_with_options_def ffi_parse_error_eq[of h addr, OF fresh])
  next
    case (Err e)
    with parse show ?thesis by (simp add: parse_with_options_def ffi_parse_error_eq[of h addr, OF fresh])
  next
    case Panic
    with parse show ?thesis by simp
  qed
qed

lemma boundary_ok:
  assumes fresh: "h addr = None" and depth: "effective_max_depth \<lparr>opt_mode = mode, opt_max_depth = requested\<rparr> = effective"
    "unat effective \<le> 4096"
  shows "assert_boundary scan tgt addr h mode requested effective shape = Ok h"
proof -
  have steps: "shape_steps shape effective [0] = path_steps shape effective"
  proof -
    have "byte_of [0] (13 + k) = byte_of [] (13 + k)" for k by (simp add: byte_of_def slice_get_def)
    then show ?thesis by (cases shape) (simp_all add: shape_steps_def path_steps_def shape_step_def)
  qed
  let ?opts = "\<lparr>opt_mode = mode, opt_max_depth = requested\<rparr>"
  have d: "unat effective \<le> 4098" "unat (effective + 1) \<le> 4098" "\<not> unat (effective + 1) \<le> unat (effective_max_depth ?opts)"
    "unat effective \<le> unat (effective_max_depth ?opts)"
    using word32_succ[OF depth(2)] depth by simp_all
  from nested_parse[of effective h addr _ shape "[0]" ?opts tgt, OF d(1) fresh refl]
    nested_parse[of "effective + 1" h addr _ shape "[0]" ?opts tgt, OF d(2) fresh refl] d(3,4)
  show ?thesis
    by (simp add: assert_boundary_def Let_def assert_parse_ok_def assert_nesting_error_def steps)
qed

lemma boundaries_ok:
  assumes "h addr = None"
  shows "run_boundary_assertions scan tgt addr h = Ok h"
proof -
  have "\<not> U32_MAX \<le> 4096" by (simp add: word_le_nat_alt)
  then have "assert_boundary scan tgt addr h mode requested effective shape = Ok h"
    if "(mode, requested, effective, shape) \<in> set boundary_cases" for mode requested effective shape
    using that by (intro boundary_ok[of h addr, OF assms])
      (auto simp: boundary_cases_def effective_max_depth_def QJSON_DEFAULT_MAX_DEPTH_def QJSON_MAX_MAX_DEPTH_def min_def)
  then have "set xs \<subseteq> set boundary_cases \<Longrightarrow> fold (\<lambda>(mode, requested, effective, shape) r.
       and_then r (\<lambda>h. assert_boundary scan tgt addr h mode requested effective shape)) xs (Ok h) = Ok h" for xs
    by (induction xs) auto
  then show ?thesis by (simp add: run_boundary_assertions_def)
qed

end

section \<open>Generated cases\<close>

text \<open>The document \<open>run_generated_case\<close> parses.\<close>

definition generated_json :: "bytes \<Rightarrow> bytes \<times> bool" where
  "generated_json data =
     mutate_skeleton
       (nested_json (generated_depth data (fuzz_effective_max_depth (requested_max_depth data)))
         (shape_from_byte (byte_of data 4)) data) data"

lemma mutate_unchanged: "mutate_skeleton json data = (json', False) \<Longrightarrow> json' = json"
  by (auto simp: mutate_skeleton_def Let_def split: if_splits)

lemma mutate_length: "mutate_skeleton json data = (json', m) \<Longrightarrow> length json' \<le> length json + 2"
proof -
  have "json \<noteq> [] \<Longrightarrow> unat (u16_at data 10) mod length json \<le> Suc (Suc (length json))"
    by (meson le_SucI length_greater_0_conv less_imp_le mod_less_divisor)
  then show "mutate_skeleton json data = (json', m) \<Longrightarrow> length json' \<le> length json + 2"
    by (auto simp: mutate_skeleton_def Let_def split: if_splits)
qed

lemma fuzz_depth_bounds: "unat (generated_depth data (fuzz_effective_max_depth r)) \<le> 4098"
  using effective_max_depth_bounds[of "\<lparr>opt_mode = 0, opt_max_depth = r\<rparr>"]
  by (intro generated_depth_bound) (simp add: fuzz_effective_max_depth_eq[of r 0])

text \<open>A mutated document may hold a backslash outside strings; lazy parsing of it is safe in a release build.\<close>

lemma generated_ok:
  assumes fresh: "h addr = None" and safe: "\<not> debug_build tgt \<or> no_stray (fst (generated_json data))"
  shows "run_generated_case (scan memchr2_ref tgt) tgt addr h data = Ok h"
proof -
  define opts where "opts = \<lparr>opt_mode = (if byte_of data 0 AND 1 = 0 then QJSON_MODE_EAGER else QJSON_MODE_LAZY),
    opt_max_depth = requested_max_depth data\<rparr>"
  define effective where "effective = effective_max_depth opts"
  have eff: "fuzz_effective_max_depth (requested_max_depth data) = effective"
    by (simp add: effective_def opts_def fuzz_effective_max_depth_eq[symmetric])
  define depth where "depth = generated_depth data effective"
  define shape where "shape = shape_from_byte (byte_of data 4)"
  have depth: "unat depth \<le> 4098" unfolding depth_def eff[symmetric] by (rule fuzz_depth_bounds)
  obtain json mutated where json: "mutate_skeleton (nested_json depth shape data) data = (json, mutated)" by force
  have safe': "is_eager opts \<or> \<not> debug_build tgt \<or> no_stray json" using safe json by (simp add: generated_json_def eff depth_def shape_def)
  have len: "length json < 2 ^ 32"
    using mutate_length[OF json] nested_json_small[OF depth, of shape data] by simp
  let ?r = "parse_with_options_detailed (scan memchr2_ref tgt) tgt json opts"
  have "run_generated_case (scan memchr2_ref tgt) tgt addr h data = check_generated (scan memchr2_ref tgt) tgt addr h opts effective depth (shape_steps shape depth data) json mutated"
    using json by (simp add: run_generated_case_def eff shape_steps_def depth_def shape_def opts_def Let_def)
  note run = this[unfolded check_generated_def]
  show ?thesis
  proof (cases mutated)
    case True
    have "?r \<noteq> Panic" by (rule parse_returns(1)[OF len safe'])
    moreover have "?r = Err e \<Longrightarrow> pe_code e \<noteq> QJSON_OOM" for e
      using parse_returns(2)[OF len safe'] by (auto simp: parse_codes_def)
    ultimately show ?thesis
      by (cases ?r) (simp_all add: run True Let_def parse_with_options_def ffi_parse_error_eq[of h addr, OF fresh] err_code_OOM)
  next
    case False
    with json mutate_unchanged[of "nested_json depth shape data" data json] have "json = nested_json depth shape data" by simp
    from dispatch.nested_parse[where depth = depth and h = h and addr = addr and tgt = tgt and tgta = tgt and opts = opts, OF depth fresh this] show ?thesis
      by (auto simp: run False Let_def effective_def word_le_nat_alt word_less_nat_alt split: if_splits)
  qed
qed

end
