(* ===== verification/Fuzz_Numbers.thy ===== *)
theory Fuzz_Numbers
  imports Fuzz_Depth
begin

text \<open>
  \<open>fuzz/fuzz_targets/fuzz_numbers.rs\<close>: number specifications, their text and the predicate that says
  whether the text is a JSON number, the generator, and the checks of the target.
  The byte source of the generator (\<open>Unstructured\<close> of the \<open>arbitrary\<close> crate) and \<open>serde_json\<close> are
  arguments; the operations on \<open>f64\<close> the target uses are those of IEEE 754, rounded to nearest.
\<close>

section \<open>Specifications\<close>

datatype num_sign = SignNone | SignMinus | SignPlus | SignDoubleMinus

datatype integer_part = Zero | SingleDigit u8 | MultiDigit bytes | LeadingZero bytes

datatype exp_sign = ExpNone | ExpPlus | ExpMinus

record exponent =
  exp_sign :: exp_sign
  exp_digits :: bytes

record number_spec =
  spec_sign :: num_sign
  spec_integer :: integer_part
  spec_fraction :: "bytes option"
  spec_exponent :: "exponent option"

definition sign_text :: "num_sign \<Rightarrow> bytes" where
  "sign_text s = (case s of SignNone \<Rightarrow> [] | SignMinus \<Rightarrow> [45] | SignPlus \<Rightarrow> [43] | SignDoubleMinus \<Rightarrow> [45, 45])"

definition integer_text :: "integer_part \<Rightarrow> bytes" where
  "integer_text i = (case i of Zero \<Rightarrow> [48] | SingleDigit d \<Rightarrow> dec_bytes (unat d) | MultiDigit v \<Rightarrow> v | LeadingZero v \<Rightarrow> v)"

definition exp_sign_text :: "exp_sign \<Rightarrow> bytes" where
  "exp_sign_text s = (case s of ExpNone \<Rightarrow> [] | ExpPlus \<Rightarrow> [43] | ExpMinus \<Rightarrow> [45])"

definition to_string :: "number_spec \<Rightarrow> bytes" where
  "to_string n =
     sign_text (spec_sign n) @ integer_text (spec_integer n) @
     (case spec_fraction n of Some frac \<Rightarrow> 46 # frac | None \<Rightarrow> []) @
     (case spec_exponent n of Some e \<Rightarrow> 101 # exp_sign_text (exp_sign e) @ exp_digits e | None \<Rightarrow> [])"

definition is_rfc8259_valid :: "number_spec \<Rightarrow> bool" where
  "is_rfc8259_valid n \<longleftrightarrow>
     (if \<not> (spec_sign n = SignNone \<or> spec_sign n = SignMinus) then False
      else if (case spec_integer n of
                 LeadingZero _ \<Rightarrow> True | MultiDigit s \<Rightarrow> slice_get s 0 = Some 48 | _ \<Rightarrow> False) then False
      else if spec_fraction n = Some [] then False
      else if (case spec_exponent n of Some e \<Rightarrow> exp_digits e = [] | None \<Rightarrow> False) then False
      else True)"

text \<open>\<open>from_str\<close>, on the ASCII literals it is called with.\<close>

definition from_str :: "bytes \<Rightarrow> number_spec" where
  "from_str s =
     (let (sign, s) = (if slice_get s 0 = Some 45 then (SignMinus, drop 1 s) else (SignNone, s));
          int_str = takeWhile is_digit s;
          s = dropWhile is_digit s;
          integer = (if int_str = bs ''0'' then Zero
                     else if length int_str = 1 then SingleDigit (int_str ! 0 - 48)
                     else MultiDigit int_str);
          (fraction, s) =
            (if slice_get s 0 = Some 46
             then (Some (takeWhile is_digit (drop 1 s)), dropWhile is_digit (drop 1 s)) else (None, s));
          exponent =
            (if slice_get s 0 = Some 101 \<or> slice_get s 0 = Some 69 then
               (let s = drop 1 s;
                    (esign, s) =
                      (if slice_get s 0 = Some 43 then (ExpPlus, drop 1 s)
                       else if slice_get s 0 = Some 45 then (ExpMinus, drop 1 s) else (ExpNone, s)) in
                Some \<lparr>exp_sign = esign, exp_digits = s\<rparr>)
             else None) in
      \<lparr>spec_sign = sign, spec_integer = integer, spec_fraction = fraction, spec_exponent = exponent\<rparr>)"

section \<open>The generator\<close>

text \<open>
  \<open>ir lo hi\<close> is \<open>int_in_range(lo..=hi)\<close>, \<open>ratio n d\<close> is true with probability \<open>n / d\<close>, \<open>one_of\<close> (there \<open>choose\<close>) picks
  an element. They draw from a source of type \<open>'u\<close> and may run out of it.
\<close>

type_synonym ('a, 'u) draw = "'u \<Rightarrow> ('a \<times> 'u, unit) outcome"

definition boundary_literals :: "string list" where
  "boundary_literals =
     [''1e308'', ''1e-308'', ''1e309'', ''1e-324'', ''-1e308'',
      ''9223372036854775807'', ''9223372036854775808'', ''-9223372036854775808'', ''-9223372036854775809'',
      ''18446744073709551615'', ''18446744073709551616'']"

definition plain_spec :: "num_sign \<Rightarrow> integer_part \<Rightarrow> number_spec" where
  "plain_spec s i = \<lparr>spec_sign = s, spec_integer = i, spec_fraction = None, spec_exponent = None\<rparr>"

definition arbitrary_boundary :: "(nat \<Rightarrow> nat \<Rightarrow> (nat, 'u) draw) \<Rightarrow> (number_spec, 'u) draw" where
  "arbitrary_boundary ir u =
     and_then (ir 0 15 u) (\<lambda>(choice, u).
       if choice < 11 then Ok (from_str (bs (boundary_literals ! choice)), u)
       else if choice = 11 then Ok (plain_spec SignNone (LeadingZero (bs ''00'')), u)
       else if choice = 12 then Ok (plain_spec SignNone (LeadingZero (bs ''01'')), u)
       else if choice = 13 then Ok (plain_spec SignMinus (LeadingZero (bs ''00'')), u)
       else if choice = 14 then Ok (plain_spec SignPlus (SingleDigit 1), u)
       else if choice = 15 then Ok (plain_spec SignDoubleMinus (SingleDigit 1), u)
       else Panic)"

fun random_digits :: "(nat \<Rightarrow> nat \<Rightarrow> (nat, 'u) draw) \<Rightarrow> nat \<Rightarrow> (bytes, 'u) draw" where
  "random_digits ir 0 u = Ok ([], u)"
| "random_digits ir (Suc n) u =
     and_then (ir 0 9 u) (\<lambda>(d, u). and_then (random_digits ir n u) (\<lambda>(s, u). Ok (dec_bytes d @ s, u)))"

definition random_sign :: "(nat \<Rightarrow> nat \<Rightarrow> (nat, 'u) draw) \<Rightarrow> (num_sign, 'u) draw" where
  "random_sign ir u =
     and_then (ir 0 10 u) (\<lambda>(k, u).
       Ok (if k = 0 then SignPlus else if k = 1 then SignDoubleMinus
           else if 2 \<le> k \<and> k \<le> 4 then SignMinus else SignNone, u))"

definition random_integer :: "(nat \<Rightarrow> nat \<Rightarrow> (nat, 'u) draw) \<Rightarrow> (integer_part, 'u) draw" where
  "random_integer ir u =
     and_then (ir 0 10 u) (\<lambda>(k, u).
       if k = 0 then and_then (ir 0 999 u) (\<lambda>(n, u). Ok (LeadingZero (bs ''0'' @ dec_bytes n), u))
       else if k = 1 then Ok (LeadingZero (bs ''00''), u)
       else if k = 2 then Ok (Zero, u)
       else if 3 \<le> k \<and> k \<le> 5 then and_then (ir 1 9 u) (\<lambda>(d, u). Ok (SingleDigit (of_nat d), u))
       else
         and_then (ir 1 20 u) (\<lambda>(len, u).
         and_then (ir 1 9 u) (\<lambda>(first, u).
         and_then (random_digits ir len u) (\<lambda>(s, u). Ok (MultiDigit (dec_bytes first @ s), u)))))"

definition random_fraction ::
  "(nat \<Rightarrow> nat \<Rightarrow> (nat, 'u) draw) \<Rightarrow> (nat \<Rightarrow> nat \<Rightarrow> (bool, 'u) draw) \<Rightarrow> (bytes option, 'u) draw" where
  "random_fraction ir ratio u =
     and_then (ratio 1 3 u) (\<lambda>(yes, u).
       if yes then
         and_then (ir 1 20 u) (\<lambda>(len, u). and_then (random_digits ir len u) (\<lambda>(s, u). Ok (Some s, u)))
       else Ok (None, u))"

definition random_exponent ::
  "(nat \<Rightarrow> nat \<Rightarrow> (nat, 'u) draw) \<Rightarrow> (nat \<Rightarrow> nat \<Rightarrow> (bool, 'u) draw) \<Rightarrow> (exponent option, 'u) draw" where
  "random_exponent ir ratio u =
     and_then (ratio 1 3 u) (\<lambda>(yes, u).
       if yes then
         and_then (ir 0 2 u) (\<lambda>(k, u).
         and_then (ir 0 350 u) (\<lambda>(n, u).
           Ok (Some \<lparr>exp_sign = (if k = 0 then ExpPlus else if k = 1 then ExpMinus else ExpNone),
                     exp_digits = dec_bytes n\<rparr>, u)))
       else Ok (None, u))"

definition arbitrary_random ::
  "(nat \<Rightarrow> nat \<Rightarrow> (nat, 'u) draw) \<Rightarrow> (nat \<Rightarrow> nat \<Rightarrow> (bool, 'u) draw) \<Rightarrow> (number_spec, 'u) draw" where
  "arbitrary_random ir ratio u =
     and_then (random_sign ir u) (\<lambda>(s, u).
     and_then (random_integer ir u) (\<lambda>(i, u).
     and_then (random_fraction ir ratio u) (\<lambda>(f, u).
     and_then (random_exponent ir ratio u) (\<lambda>(e, u).
       Ok (\<lparr>spec_sign = s, spec_integer = i, spec_fraction = f, spec_exponent = e\<rparr>, u)))))"

definition arbitrary_number ::
  "(nat \<Rightarrow> nat \<Rightarrow> (nat, 'u) draw) \<Rightarrow> (nat \<Rightarrow> nat \<Rightarrow> (bool, 'u) draw) \<Rightarrow> (number_spec, 'u) draw" where
  "arbitrary_number ir ratio u =
     and_then (ratio 7 10 u) (\<lambda>(use_boundary, u).
       if use_boundary then arbitrary_boundary ir u else arbitrary_random ir ratio u)"

section \<open>Test cases\<close>

record test_case =
  tc_number :: number_spec
  whitespace_prefix :: bytes
  whitespace_suffix :: bytes

definition ws_choices :: "bytes list" where
  "ws_choices = [[], [32], [32, 32], [9], [10], [13, 10], [32, 9, 10]]"

definition arbitrary_test_case ::
  "(nat \<Rightarrow> nat \<Rightarrow> (nat, 'u) draw) \<Rightarrow> (nat \<Rightarrow> nat \<Rightarrow> (bool, 'u) draw) \<Rightarrow> (bytes list \<Rightarrow> (bytes, 'u) draw) \<Rightarrow>
     (test_case, 'u) draw" where
  "arbitrary_test_case ir ratio one_of u =
     and_then (arbitrary_number ir ratio u) (\<lambda>(n, u).
     and_then (one_of ws_choices u) (\<lambda>(pre, u).
     and_then (one_of ws_choices u) (\<lambda>(suf, u).
       Ok (\<lparr>tc_number = n, whitespace_prefix = pre, whitespace_suffix = suf\<rparr>, u))))"

definition to_json :: "test_case \<Rightarrow> bytes" where
  "to_json tc = 91 # (whitespace_prefix tc @ to_string (tc_number tc) @ whitespace_suffix tc) @ [93]"

section \<open>The checks of the target\<close>

definition FUZZ_MAX_DEPTH :: u32 where
  "FUZZ_MAX_DEPTH = 128"

definition allowed_divergence :: "string \<Rightarrow> bool" where
  "allowed_divergence msg \<longleftrightarrow> sublist ''number out of range'' msg \<or> sublist ''invalid number'' msg"

subsection \<open>Arithmetic on \<open>f64\<close>\<close>

definition f64_zero :: f64 where
  "f64_zero = F64_finite False 0 0"

definition signed :: "bool \<Rightarrow> nat \<Rightarrow> int \<Rightarrow> int" where
  "signed neg m k = (if neg then - int m else int m) * 2 ^ nat k"

fun f64_sub :: "f64 \<Rightarrow> f64 \<Rightarrow> f64" where
  "f64_sub (F64_finite s m e) (F64_finite t n f) =
     (let k = min e f; x = signed s m (e - k) - signed t n (f - k) in
      f64_nearest (x < 0 \<or> x = 0 \<and> m = 0 \<and> s \<and> \<not> t) (nat \<bar>x\<bar> * 2 ^ nat k) (2 ^ nat (- k)))"
| "f64_sub (F64_finite s m e) (F64_inf t) = F64_inf (\<not> t)"
| "f64_sub (F64_inf s) (F64_finite t n f) = F64_inf s"
| "f64_sub (F64_inf s) (F64_inf t) = (if s = t then F64_nan else F64_inf s)"
| "f64_sub _ _ = F64_nan"

fun f64_abs :: "f64 \<Rightarrow> f64" where
  "f64_abs (F64_finite s m e) = F64_finite False m e"
| "f64_abs (F64_inf s) = F64_inf False"
| "f64_abs F64_nan = F64_nan"

fun f64_div :: "f64 \<Rightarrow> f64 \<Rightarrow> f64" where
  "f64_div (F64_finite s m e) (F64_finite t n f) =
     (if n = 0 then (if m = 0 then F64_nan else F64_inf (s \<noteq> t))
      else f64_nearest (s \<noteq> t) (m * 2 ^ nat (e - f)) (n * 2 ^ nat (f - e)))"
| "f64_div (F64_finite s m e) (F64_inf t) = F64_finite (s \<noteq> t) 0 0"
| "f64_div (F64_inf s) (F64_finite t n f) = F64_inf (s \<noteq> t)"
| "f64_div _ _ = F64_nan"

fun f64_less :: "f64 \<Rightarrow> f64 \<Rightarrow> bool" where
  "f64_less (F64_finite s m e) (F64_finite t n f) \<longleftrightarrow>
     (let k = min e f in signed s m (e - k) < signed t n (f - k))"
| "f64_less (F64_finite s m e) (F64_inf t) \<longleftrightarrow> \<not> t"
| "f64_less (F64_inf s) (F64_finite t n f) \<longleftrightarrow> s"
| "f64_less (F64_inf s) (F64_inf t) \<longleftrightarrow> s \<and> \<not> t"
| "f64_less _ _ \<longleftrightarrow> False"

fun f64_is_zero :: "f64 \<Rightarrow> bool" where
  "f64_is_zero (F64_finite s m e) \<longleftrightarrow> m = 0"
| "f64_is_zero _ \<longleftrightarrow> False"

definition f64_mismatch :: "f64 \<Rightarrow> f64 \<Rightarrow> bool" where
  "f64_mismatch f64_val num =
     (let abs_error = f64_abs (f64_sub f64_val num);
          rel_error = (if f64_is_zero num then abs_error else f64_div abs_error (f64_abs num));
          tolerance = decimal_f64 False 1 (- 10) in
      f64_less tolerance rel_error \<or> f64_less tolerance abs_error)"

subsection \<open>The extraction\<close>

text \<open>
  Parsing and the two reads: the codes, the values and the document, if there is one. \<open>addr\<close> is
  the address the allocator returns.
\<close>

definition extract_number ::
  "scanner \<Rightarrow> target \<Rightarrow> nat \<Rightarrow> heap \<Rightarrow> bytes \<Rightarrow> (int \<times> int \<times> int \<times> f64 \<times> nat option) option \<times> heap" where
  "extract_number sc tgt addr h json =
     (let (doc, _, h) = qjson_parse sc tgt addr h (Bytes json) True in
      if doc = None then (None, h)
      else
        (let path = bs ''0'';
             (i64_rc, i64_val, h) = qjson_get_i64 h doc (Bytes path) True;
             (f64_rc, f64_val, h) = qjson_get_f64 h doc (Bytes path) True in
         (Some (i64_rc, written 0 i64_val, f64_rc, written f64_zero f64_val, doc), h)))"

text \<open>
  \<open>serde_i64\<close> and \<open>serde_f64\<close> are the first element of the array \<open>serde_json::from_str\<close> reads, as an
  \<open>i64\<close> or \<open>f64\<close>, if there is one. A value that is not finite leaves the document allocated.
\<close>

definition test_number_extraction ::
  "scanner \<Rightarrow> target \<Rightarrow> nat \<Rightarrow> (bytes \<Rightarrow> int option) \<Rightarrow> (bytes \<Rightarrow> f64 option) \<Rightarrow> heap \<Rightarrow> bytes \<Rightarrow> (heap, unit) outcome" where
  "test_number_extraction sc tgt addr serde_i64 serde_f64 h json =
     (case extract_number sc tgt addr h json of
        (None, h) \<Rightarrow> Ok h
      | (Some (i64_rc, i64_val, f64_rc, f64_val, doc), h) \<Rightarrow>
          if i64_rc = 0 \<and> (case serde_i64 json of Some num \<Rightarrow> i64_val \<noteq> num | None \<Rightarrow> False) then Panic
          else if f64_rc = 0 \<and> \<not> f64_is_finite f64_val then Panic
          else if f64_rc = 0 \<and> (case serde_f64 json of Some num \<Rightarrow> \<not> f64_is_finite num | None \<Rightarrow> False) then Ok h
          else if f64_rc = 0 \<and> (case serde_f64 json of Some num \<Rightarrow> f64_mismatch f64_val num | None \<Rightarrow> False) then Panic
          else Ok (qjson_free h doc))"

subsection \<open>The target\<close>

text \<open>\<open>serde\<close> is \<open>serde_json::from_slice\<close>, which accepts or gives a message.\<close>

definition check_number ::
  "scanner \<Rightarrow> target \<Rightarrow> nat \<Rightarrow> (bytes \<Rightarrow> string option) \<Rightarrow> (bytes \<Rightarrow> int option) \<Rightarrow> (bytes \<Rightarrow> f64 option) \<Rightarrow>
     heap \<Rightarrow> test_case \<Rightarrow> (heap, unit) outcome" where
  "check_number sc tgt addr serde serde_i64 serde_f64 h tc =
     (let json = to_json tc;
          eager = parse_with_options sc tgt json \<lparr>opt_mode = QJSON_MODE_EAGER, opt_max_depth = FUZZ_MAX_DEPTH\<rparr>;
          serde_err = serde json in
      if eager = Panic then Panic
      else if \<not> is_rfc8259_valid (tc_number tc) then
        (if is_ok eager then Panic else if serde_err = None then Panic else Ok h)
      else if is_ok eager \<noteq> (serde_err = None) \<and>
              \<not> (is_ok eager \<and> (case serde_err of Some msg \<Rightarrow> allowed_divergence msg | None \<Rightarrow> False)) then Panic
      else
        (let lz = parse_with_options sc tgt json \<lparr>opt_mode = QJSON_MODE_LAZY, opt_max_depth = FUZZ_MAX_DEPTH\<rparr> in
         if lz = Panic then Panic
         else
           and_then
             (if is_ok eager \<and> is_ok lz then test_number_extraction sc tgt addr serde_i64 serde_f64 h json else Ok h)
             (\<lambda>h. if is_ok eager \<and> \<not> is_ok lz then Panic else Ok h)))"

section \<open>The specification of a number text\<close>

text \<open>What the generator yields.\<close>

definition integer_wf :: "integer_part \<Rightarrow> bool" where
  "integer_wf i \<longleftrightarrow>
     (case i of
        Zero \<Rightarrow> True
      | SingleDigit d \<Rightarrow> 1 \<le> d \<and> d \<le> 9
      | MultiDigit s \<Rightarrow> list_all is_digit s \<and> 2 \<le> length s \<and> length s \<le> 21
      | LeadingZero s \<Rightarrow> list_all is_digit s \<and> 2 \<le> length s \<and> length s \<le> 4 \<and> s ! 0 = 48)"

definition spec_wf :: "number_spec \<Rightarrow> bool" where
  "spec_wf n \<longleftrightarrow> integer_wf (spec_integer n) \<and>
     (case spec_fraction n of Some f \<Rightarrow> list_all is_digit f \<and> length f \<le> 20 | None \<Rightarrow> True) \<and>
     (case spec_exponent n of Some e \<Rightarrow> list_all is_digit (exp_digits e) \<and> length (exp_digits e) \<le> 3 | None \<Rightarrow> True)"

text \<open>The digits before a tail are determined.\<close>

definition no_digit :: "bytes \<Rightarrow> bool" where
  "no_digit t \<longleftrightarrow> t = [] \<or> \<not> is_digit (hd t)"

lemma digits_tail_unique:
  assumes "list_all is_digit ds" "list_all is_digit ds'" "no_digit t" "no_digit t'" "ds @ t = ds' @ t'"
  shows "ds = ds' \<and> t = t'"
proof -
  have "takeWhile is_digit (ds @ t) = ds" "dropWhile is_digit (ds @ t) = t"
    if "list_all is_digit ds" "no_digit t" for ds t
    using that by (cases t; auto simp: list_all_iff no_digit_def takeWhile_append dropWhile_append)+
  then show ?thesis using assms by metis
qed

lemma frac_exp_no_digit: "frac_part fs \<Longrightarrow> exp_part es \<Longrightarrow> no_digit (fs @ es)"
  by (auto simp: frac_part_def exp_part_def no_digit_def is_digit_def)

lemma exp_no_digit: "exp_part es \<Longrightarrow> no_digit es"
  using frac_exp_no_digit[of "[]" es] by (simp add: frac_part_def)

lemma int_part_digits: "int_part ds \<Longrightarrow> list_all is_digit ds \<and> ds \<noteq> []"
  by (auto simp: int_part_def is_digit_def[of 48] dest: is_digit19_imp)

text \<open>Sign, digits and tail.\<close>

lemma json_number_split:
  assumes ds: "list_all is_digit ds" "ds \<noteq> []" and t: "no_digit t" and m: "m = [] \<or> m = [45]"
  shows "json_number (m @ ds @ t) \<longleftrightarrow> int_part ds \<and> (\<exists>fs es. t = fs @ es \<and> frac_part fs \<and> exp_part es)"
proof
  assume "json_number (m @ ds @ t)"
  then obtain m' ds' fs es where s: "m @ ds @ t = m' @ ds' @ fs @ es" "m' = [] \<or> m' = [45]"
    and p: "int_part ds'" "frac_part fs" "exp_part es" by (auto simp: json_number_def)
  note d' = int_part_digits[OF p(1)]
  have hd: "hd ds \<noteq> 45" "hd ds' \<noteq> 45" using ds d' by (cases ds; cases ds'; auto simp: is_digit_def)+
  have "ds @ t = ds' @ fs @ es"
    using m s hd ds(2) d' by (cases ds; cases ds') auto
  from digits_tail_unique[OF ds(1) conjunct1[OF d'] t frac_exp_no_digit[OF p(2,3)] this] p
  show "int_part ds \<and> (\<exists>fs es. t = fs @ es \<and> frac_part fs \<and> exp_part es)" by blast
next
  assume "int_part ds \<and> (\<exists>fs es. t = fs @ es \<and> frac_part fs \<and> exp_part es)"
  with m show "json_number (m @ ds @ t)" unfolding json_number_def by blast
qed

lemma json_number_head: "json_number s \<Longrightarrow> s \<noteq> [] \<and> (is_digit (hd s) \<or> hd s = 45 \<and> tl s \<noteq> [] \<and> is_digit (hd (tl s)))"
proof -
  assume "json_number s"
  then obtain m ds t where s: "s = m @ ds @ t" "m = [] \<or> m = [45]" "int_part ds" by (auto simp: json_number_def)
  from int_part_digits[OF s(3)] s(1,2) show ?thesis by (cases ds) auto
qed

text \<open>The tail of a specification: fraction and exponent.\<close>

definition exp_text :: "exponent option \<Rightarrow> bytes" where
  "exp_text e = (case e of Some e \<Rightarrow> 101 # exp_sign_text (exp_sign e) @ exp_digits e | None \<Rightarrow> [])"

lemma exp_text_part:
  assumes "\<And>x. e = Some x \<Longrightarrow> list_all is_digit (exp_digits x)"
  shows "exp_part (exp_text e) \<longleftrightarrow> (\<forall>x. e = Some x \<longrightarrow> exp_digits x \<noteq> [])"
proof (cases e)
  case (Some x)
  have "exp_part (101 # exp_sign_text (exp_sign x) @ exp_digits x) \<longleftrightarrow> exp_digits x \<noteq> []"
  proof
    assume "exp_part (101 # exp_sign_text (exp_sign x) @ exp_digits x)"
    then show "exp_digits x \<noteq> []"
      by (cases "exp_sign x") (auto simp: exp_part_def exp_sign_text_def append_eq_Cons_conv Cons_eq_append_conv is_digit_def)
  next
    assume "exp_digits x \<noteq> []"
    with assms[OF Some] show "exp_part (101 # exp_sign_text (exp_sign x) @ exp_digits x)"
      unfolding exp_part_def
      by (intro disjI2 exI[of _ 101] exI[of _ "exp_sign_text (exp_sign x)"] exI[of _ "exp_digits x"])
        (auto simp: exp_sign_text_def split: exp_sign.split)
  qed
  with Some show ?thesis by (simp add: exp_text_def)
qed (simp add: exp_text_def exp_part_def)

lemma exp_text_hd: "exp_text e = [] \<or> hd (exp_text e) = 101"
  by (simp add: exp_text_def split: option.split)

lemma tail_part:
  assumes "\<And>f. fr = Some f \<Longrightarrow> list_all is_digit f" "\<And>x. e = Some x \<Longrightarrow> list_all is_digit (exp_digits x)"
  defines "t \<equiv> (case fr of Some frac \<Rightarrow> 46 # frac | None \<Rightarrow> []) @ exp_text e"
  shows "(\<exists>fs es. t = fs @ es \<and> frac_part fs \<and> exp_part es) \<longleftrightarrow>
    fr \<noteq> Some [] \<and> (\<forall>x. e = Some x \<longrightarrow> exp_digits x \<noteq> [])"
proof -
  have nd: "no_digit (exp_text e)" using exp_text_hd[of e] by (auto simp: no_digit_def is_digit_def)
  have "(\<exists>fs es. t = fs @ es \<and> frac_part fs \<and> exp_part es) \<longleftrightarrow> fr \<noteq> Some [] \<and> exp_part (exp_text e)"
  proof (cases fr)
    case None
    have "fs = []" if "exp_text e = fs @ es" "frac_part fs" for fs es
      using that exp_text_hd[of e] by (auto simp: frac_part_def)
    with None show ?thesis by (auto simp: t_def frac_part_def)
  next
    case (Some f)
    have "f = ds \<and> exp_text e = es" if "f @ exp_text e = ds @ es" "list_all is_digit ds" "exp_part es" for ds es
      using digits_tail_unique[OF assms(1)[OF Some] that(2) nd exp_no_digit[OF that(3)] that(1)] .
    moreover have "\<not> exp_part (46 # x)" for x by (simp add: exp_part_def)
    moreover have "f \<noteq> [] \<Longrightarrow> frac_part (46 # f)" using assms(1)[OF Some] by (auto simp: frac_part_def)
    ultimately show ?thesis
      using Some by (auto simp: t_def frac_part_def append_eq_Cons_conv Cons_eq_append_conv)
  qed
  then show ?thesis using exp_text_part[of e, OF assms(2)] by simp
qed

lemma integer_text_digits: "integer_wf i \<Longrightarrow> list_all is_digit (integer_text i) \<and> integer_text i \<noteq> []"
  using dec_bytes_props by (auto simp: integer_wf_def integer_text_def is_digit_def[of 48] split: integer_part.splits)

lemma integer_text_part:
  assumes "integer_wf i"
  shows "int_part (integer_text i) \<longleftrightarrow>
    \<not> (case i of LeadingZero _ \<Rightarrow> True | MultiDigit s \<Rightarrow> slice_get s 0 = Some 48 | _ \<Rightarrow> False)"
proof (cases i)
  case Zero
  then show ?thesis by (simp add: integer_text_def int_part_def)
next
  case (SingleDigit d)
  with assms have d: "1 \<le> unat d" "unat d \<le> 9" by (auto simp: integer_wf_def word_le_nat_alt)
  then have "dec_bytes (unat d) = [of_nat (48 + unat d)]" by (simp add: dec_bytes.simps[of "unat d"])
  moreover have "is_digit19 (of_nat (48 + unat d))"
    using d by (simp add: is_digit19_def word_le_nat_alt unat_of_nat8 del: of_nat_add)
  ultimately show ?thesis by (auto simp: SingleDigit integer_text_def int_part_def simp del: of_nat_add)
next
  case (MultiDigit s)
  with assms obtain a b r where s: "s = a # b # r" "list_all is_digit s"
    by (cases s; cases "tl s") (auto simp: integer_wf_def)
  have "is_digit19 a \<longleftrightarrow> a \<noteq> 48" using s by (auto simp: is_digit_def is_digit19_def word_le_nat_alt word_unat_eq_iff)
  with s show ?thesis by (auto simp: MultiDigit integer_text_def int_part_def slice_get_def)
next
  case (LeadingZero s)
  with assms obtain b r where s: "s = 48 # b # r"
    by (cases s; cases "tl s") (auto simp: integer_wf_def)
  then show ?thesis by (simp add: LeadingZero integer_text_def int_part_def is_digit19_def)
qed

lemma spec_valid_iff:
  assumes "spec_wf n"
  shows "json_number (to_string n) \<longleftrightarrow> is_rfc8259_valid n"
proof -
  define t where "t = (case spec_fraction n of Some frac \<Rightarrow> 46 # frac | None \<Rightarrow> []) @ exp_text (spec_exponent n)"
  define ds where "ds = integer_text (spec_integer n)"
  from assms have wf: "integer_wf (spec_integer n)" "\<And>f. spec_fraction n = Some f \<Longrightarrow> list_all is_digit f"
    "\<And>x. spec_exponent n = Some x \<Longrightarrow> list_all is_digit (exp_digits x)" by (auto simp: spec_wf_def)
  have ds: "list_all is_digit ds" "ds \<noteq> []" unfolding ds_def using integer_text_digits[OF wf(1)] by auto
  have nd: "no_digit t"
    using exp_text_hd[of "spec_exponent n"] by (auto simp: t_def no_digit_def is_digit_def split: option.split)
  have str: "to_string n = sign_text (spec_sign n) @ ds @ t" by (simp add: to_string_def t_def ds_def exp_text_def)
  have tail: "(\<exists>fs es. t = fs @ es \<and> frac_part fs \<and> exp_part es) \<longleftrightarrow>
    spec_fraction n \<noteq> Some [] \<and> (\<forall>x. spec_exponent n = Some x \<longrightarrow> exp_digits x \<noteq> [])"
    unfolding t_def using wf(2,3) by (rule tail_part)
  show ?thesis
  proof (cases "spec_sign n = SignNone \<or> spec_sign n = SignMinus")
    case True
    then have "sign_text (spec_sign n) = [] \<or> sign_text (spec_sign n) = [45]" by (auto simp: sign_text_def)
    from json_number_split[OF ds nd this] tail integer_text_part[OF wf(1)] True show ?thesis
      unfolding str by (auto simp: is_rfc8259_valid_def ds_def[symmetric] split: option.splits)
  next
    case False
    then have "\<not> json_number (to_string n)"
      using json_number_head[of "to_string n"] ds by (cases "spec_sign n") (auto simp: str sign_text_def is_digit_def)
    with False show ?thesis by (simp add: is_rfc8259_valid_def)
  qed
qed

section \<open>What the generator yields\<close>

text \<open>The documented behaviour of the byte source.\<close>

definition sound_source ::
  "(nat \<Rightarrow> nat \<Rightarrow> (nat, 'u) draw) \<Rightarrow> (nat \<Rightarrow> nat \<Rightarrow> (bool, 'u) draw) \<Rightarrow> (bytes list \<Rightarrow> (bytes, 'u) draw) \<Rightarrow> bool" where
  "sound_source ir ratio one_of \<longleftrightarrow>
     (\<forall>lo hi u. lo \<le> hi \<longrightarrow> (case ir lo hi u of Ok (n, _) \<Rightarrow> lo \<le> n \<and> n \<le> hi | Err _ \<Rightarrow> True | Panic \<Rightarrow> False)) \<and>
     (\<forall>n d u. ratio n d u \<noteq> Panic) \<and>
     (\<forall>xs u. xs \<noteq> [] \<longrightarrow> (case one_of xs u of Ok (x, _) \<Rightarrow> x \<in> set xs | Err _ \<Rightarrow> True | Panic \<Rightarrow> False))"

text \<open>A draw that cannot panic and yields only what satisfies a predicate.\<close>

definition yields :: "('a \<Rightarrow> bool) \<Rightarrow> ('a \<times> 'u, unit) outcome \<Rightarrow> bool" where
  "yields P r \<longleftrightarrow> (case r of Ok (x, _) \<Rightarrow> P x | Err _ \<Rightarrow> True | Panic \<Rightarrow> False)"

lemma yields_simps [simp]: "yields P (Ok (x, u)) = P x" "yields P (Err e)" "\<not> yields P Panic"
  by (simp_all add: yields_def)

lemma yields_bind [intro?]: "yields P r \<Longrightarrow> (\<And>x u. P x \<Longrightarrow> yields Q (f (x, u))) \<Longrightarrow> yields Q (and_then r f)"
  by (cases r) (auto simp: yields_def)

lemma sound_sourceD:
  assumes "sound_source ir ratio one_of"
  shows "lo \<le> hi \<Longrightarrow> yields (\<lambda>n. lo \<le> n \<and> n \<le> hi) (ir lo hi u)" "yields (\<lambda>_. True) (ratio n d u)"
    "xs \<noteq> [] \<Longrightarrow> yields (\<lambda>x. x \<in> set xs) (one_of xs u)"
  using assms unfolding sound_source_def yields_def by (auto split: outcome.splits)

lemma dec_bytes_length: "n < 10 \<Longrightarrow> length (dec_bytes n) = 1" "n < 1000 \<Longrightarrow> length (dec_bytes n) \<le> 3"
proof -
  show small: "length (dec_bytes n) = 1" if "n < 10" for n using that by (simp add: dec_bytes.simps[of n])
  have mid: "length (dec_bytes n) \<le> 2" if "n < 100" for n
    using that small[of "n div 10"] small[of n] by (cases "n < 10") (simp_all add: dec_bytes.simps[of n])
  show "length (dec_bytes n) \<le> 3" if "n < 1000"
    using that mid[of "n div 10"] small[of n] by (cases "n < 10") (simp_all add: dec_bytes.simps[of n])
qed

lemma random_digits_yields:
  assumes "sound_source ir ratio one_of"
  shows "yields (\<lambda>s. list_all is_digit s \<and> length s = n) (random_digits ir n u)"
proof (induction n arbitrary: u)
  case (Suc n)
  show ?case
    unfolding random_digits.simps
    by (rule yields_bind[OF sound_sourceD(1)[OF assms]])
      (auto intro!: yields_bind[OF Suc] simp: dec_bytes_props dec_bytes_length(1))
qed simp

lemma random_integer_yields:
  assumes src: "sound_source ir ratio one_of"
  shows "yields integer_wf (random_integer ir u)"
proof -
  note ir = sound_sourceD(1)[OF src]
  have zero: "integer_wf (LeadingZero (bs ''0'' @ dec_bytes n))" if "n \<le> 999" for n
    using dec_bytes_props[of n] dec_bytes_length(2)[of n] that by (cases "dec_bytes n") (auto simp: integer_wf_def is_digit_def[of 48])
  have single: "integer_wf (SingleDigit (of_nat d))" if "1 \<le> d \<and> d \<le> 9" for d
    using that by (simp add: integer_wf_def word_le_nat_alt unat_of_nat8)
  have multi: "integer_wf (MultiDigit (dec_bytes first @ s))" if "list_all is_digit s \<and> length s = n" "1 \<le> n \<and> n \<le> 20" "first \<le> 9" for first s n
    using dec_bytes_props[of first] dec_bytes_length(1)[of first] that by (cases "dec_bytes first") (auto simp: integer_wf_def)
  show ?thesis
    unfolding random_integer_def
    by (rule yields_bind[OF ir], simp)
      (auto intro!: yields_bind[OF ir] yields_bind[OF random_digits_yields[OF src]] zero[simplified] single multi
        simp: integer_wf_def[of Zero] integer_wf_def[of "LeadingZero [48, 48]"] is_digit_def[of 48])
qed

lemma boundary_yields:
  assumes src: "sound_source ir ratio one_of"
  shows "yields spec_wf (arbitrary_boundary ir u)"
proof -
  have lit: "list_all (\<lambda>s. spec_wf (from_str (bs s))) boundary_literals"
    by code_simp
  have len: "length boundary_literals = 11" by (simp add: boundary_literals_def)
  have "spec_wf (from_str (bs (boundary_literals ! k)))" if "k < 11" for k
    using lit that len by (simp add: list_all_length)
  moreover have "spec_wf (plain_spec s (LeadingZero (bs ''00'')))" "spec_wf (plain_spec s (LeadingZero (bs ''01'')))"
    "spec_wf (plain_spec s (SingleDigit 1))" for s
    by (simp_all add: plain_spec_def spec_wf_def integer_wf_def is_digit_def)
  ultimately show ?thesis
    unfolding arbitrary_boundary_def by (intro yields_bind[OF sound_sourceD(1)[OF src]]) auto
qed

lemma number_yields:
  assumes src: "sound_source ir ratio one_of"
  shows "yields spec_wf (arbitrary_number ir ratio u)"
proof -
  note ir = sound_sourceD(1)[OF src] and ratio = sound_sourceD(2)[OF src]
  have sign: "yields (\<lambda>_. True) (random_sign ir u)" for u
    unfolding random_sign_def by (rule yields_bind[OF ir]) auto
  have frac: "yields (\<lambda>f. \<forall>x. f = Some x \<longrightarrow> list_all is_digit x \<and> length x \<le> 20) (random_fraction ir ratio u)" for u
    unfolding random_fraction_def
    by (rule yields_bind[OF ratio]) (auto intro!: yields_bind[OF ir] yields_bind[OF random_digits_yields[OF src]])
  have exponent: "yields (\<lambda>e. \<forall>x. e = Some x \<longrightarrow> list_all is_digit (exp_digits x) \<and> length (exp_digits x) \<le> 3) (random_exponent ir ratio u)" for u
    unfolding random_exponent_def
    by (rule yields_bind[OF ratio]) (auto intro!: yields_bind[OF ir] simp: dec_bytes_props dec_bytes_length(2))
  have "yields spec_wf (arbitrary_random ir ratio u)" for u
    unfolding arbitrary_random_def
    by (rule yields_bind[OF sign], clarsimp, rule yields_bind[OF random_integer_yields[OF src]], clarsimp,
        rule yields_bind[OF frac], clarsimp, rule yields_bind[OF exponent]) (simp add: spec_wf_def split: option.split)
  then show ?thesis
    unfolding arbitrary_number_def by (intro yields_bind[OF ratio]) (simp add: boundary_yields[OF src])
qed

definition test_case_wf :: "test_case \<Rightarrow> bool" where
  "test_case_wf tc \<longleftrightarrow> spec_wf (tc_number tc) \<and> ws (whitespace_prefix tc) \<and> ws (whitespace_suffix tc) \<and>
     length (whitespace_prefix tc) \<le> 3 \<and> length (whitespace_suffix tc) \<le> 3"

lemma test_case_yields:
  assumes src: "sound_source ir ratio one_of"
  shows "yields test_case_wf (arbitrary_test_case ir ratio one_of u)"
proof -
  have ws: "x \<in> set ws_choices \<Longrightarrow> ws x \<and> length x \<le> 3" for x by (auto simp: ws_choices_def is_ws_def)
  have ne: "ws_choices \<noteq> []" by (simp add: ws_choices_def)
  show ?thesis
    unfolding arbitrary_test_case_def
    by (rule yields_bind[OF number_yields[OF src]], clarsimp, rule yields_bind[OF sound_sourceD(3)[OF src ne]], clarsimp,
        rule yields_bind[OF sound_sourceD(3)[OF src ne]]) (auto simp: test_case_wf_def ws)
qed

section \<open>Parsing a test case\<close>

lemma strip_between:
  assumes "ws w" "ws w'" "v \<noteq> []" "\<forall>b \<in> set v. \<not> is_ws b"
  shows "strip_right (dropWhile is_ws (w @ v @ w')) = v"
proof -
  have "dropWhile is_ws (w @ v @ w') = v @ w'"
    using assms by (cases v) (auto simp: ws_def list_all_iff dropWhile_append)
  moreover have "dropWhile is_ws (rev w' @ rev v) = rev v"
    using assms by (cases v rule: rev_cases) (auto simp: ws_def list_all_iff dropWhile_append)
  ultimately show ?thesis by (simp add: strip_right_def)
qed

text \<open>An array of one scalar.\<close>

lemma singleton_text:
  assumes v: "v \<noteq> []" "\<forall>b \<in> set v. \<not> is_ws b \<and> \<not> is_structural b" and w: "ws w" "ws w'" and m: "1 \<le> m"
  shows "json_text m (91 # (w @ v @ w') @ [93]) \<longleftrightarrow> json_scalar v"
proof -
  let ?g = "w @ v @ w'"
  have plain: "list_all (\<lambda>b. \<not> is_structural b) ?g"
    using v(2) ws_no_structural[OF w(1)] ws_no_structural[OF w(2)] by (auto simp: list_all_iff)
  have strip: "strip_right (dropWhile is_ws ?g) = v" using strip_between[OF w v(1)] v(2) by blast
  have gap: "walk_gap 1 ?g ArrAfterOpen = Ok c \<longleftrightarrow> json_scalar v \<and> c = ArrAfterValue" for c
    using validate_scalar_iff[OF v(1)] unfolding walk_gap_def Let_def strip by (auto simp: v(1) expects_value_def)
  have "walk m [Top] 0 (91 # ?g @ [93]) = walk m [ArrAfterOpen, TopDone] 1 (?g @ [93])"
    using m by (simp add: walk_structural expects_value_def)
  also have "\<dots> = and_then (walk_gap 1 ?g ArrAfterOpen) (\<lambda>c. walk m [c, TopDone] (1 + length ?g) [93])"
    by (rule walk_split[OF plain]) simp
  finally have walk: "walk m [Top] 0 (91 # ?g @ [93]) =
      and_then (walk_gap 1 ?g ArrAfterOpen) (\<lambda>c. walk m [c, TopDone] (1 + length ?g) [93])" .
  have "walk m [ArrAfterValue, TopDone] (1 + length ?g) [93] = Ok ()"
    by (simp add: walk_structural walk_end)
  then have "walk m [Top] 0 (91 # ?g @ [93]) = Ok () \<longleftrightarrow> json_scalar v"
    unfolding walk and_then_eq_Ok gap by blast
  then show ?thesis by (simp only: walk_iff)
qed

lemma spec_text_bytes:
  assumes "spec_wf n"
  shows "to_string n \<noteq> []" "\<forall>b \<in> set (to_string n). is_digit b \<or> b = 43 \<or> b = 45 \<or> b = 46 \<or> b = 101"
proof -
  have i: "list_all is_digit (integer_text (spec_integer n))" "integer_text (spec_integer n) \<noteq> []"
    using assms integer_text_digits by (auto simp: spec_wf_def)
  show "to_string n \<noteq> []" using i(2) by (simp add: to_string_def)
  have sets: "set (sign_text s) \<subseteq> {43, 45}" "set (exp_sign_text es) \<subseteq> {43, 45}" for s es
    by (cases s; simp add: sign_text_def) (cases es; simp add: exp_sign_text_def)
  have f: "is_digit b \<or> b = 46" if "b \<in> set (case spec_fraction n of Some frac \<Rightarrow> 46 # frac | None \<Rightarrow> [])" for b
    using that assms by (auto simp: spec_wf_def list_all_iff split: option.splits)
  have e: "is_digit b \<or> b = 43 \<or> b = 45 \<or> b = 101"
    if "b \<in> set (case spec_exponent n of Some e \<Rightarrow> 101 # exp_sign_text (exp_sign e) @ exp_digits e | None \<Rightarrow> [])" for b
    using that assms sets(2) by (fastforce simp: spec_wf_def list_all_iff split: option.splits)
  show "\<forall>b \<in> set (to_string n). is_digit b \<or> b = 43 \<or> b = 45 \<or> b = 46 \<or> b = 101"
  proof
    fix b assume "b \<in> set (to_string n)"
    then consider "b \<in> set (sign_text (spec_sign n))" | "b \<in> set (integer_text (spec_integer n))"
      | "b \<in> set (case spec_fraction n of Some frac \<Rightarrow> 46 # frac | None \<Rightarrow> [])"
      | "b \<in> set (case spec_exponent n of Some e \<Rightarrow> 101 # exp_sign_text (exp_sign e) @ exp_digits e | None \<Rightarrow> [])"
      unfolding to_string_def set_append by blast
    then show "is_digit b \<or> b = 43 \<or> b = 45 \<or> b = 46 \<or> b = 101"
    proof cases
      case 1
      with sets(1) show ?thesis by blast
    next
      case 2
      with i(1) show ?thesis by (simp add: list_all_iff)
    qed (use f e in blast)+
  qed
qed

lemma test_case_text:
  assumes wf: "test_case_wf tc" and m: "1 \<le> m"
  shows "json_text m (to_json tc) \<longleftrightarrow> is_rfc8259_valid (tc_number tc)" "no_stray (to_json tc)"
proof -
  let ?v = "to_string (tc_number tc)"
  from wf have spec: "spec_wf (tc_number tc)" and w: "ws (whitespace_prefix tc)" "ws (whitespace_suffix tc)"
    by (simp_all add: test_case_wf_def)
  note v = spec_text_bytes[OF spec]
  have plain: "\<forall>b \<in> set ?v. \<not> is_ws b \<and> \<not> is_structural b"
  proof
    fix b assume "b \<in> set ?v"
    with v(2) have "is_digit b \<or> b = 43 \<or> b = 45 \<or> b = 46 \<or> b = 101" by blast
    then show "\<not> is_ws b \<and> \<not> is_structural b"
      using digit_not_structural[of b] by (auto simp: is_ws_def is_structural_def)
  qed
  have "\<not> json_literal ?v" using v(2) by (auto simp: json_literal_def is_digit_def)
  then have "json_scalar ?v \<longleftrightarrow> is_rfc8259_valid (tc_number tc)"
    using spec_valid_iff[OF spec] by (simp add: json_scalar_def)
  with singleton_text[OF v(1) plain w m] show "json_text m (to_json tc) \<longleftrightarrow> is_rfc8259_valid (tc_number tc)"
    by (simp add: to_json_def)
  have "list_all (\<lambda>b. \<not> is_structural b \<and> b \<noteq> 92) ?v" using plain v(2) by (auto simp: list_all_iff is_digit_def)
  then have "tidy ?v" using balanced_plain[of ?v] by (simp add: tidy_def clean_plain list_all_iff)
  then have "tidy (to_json tc)"
    unfolding to_json_def by (intro tidy_container(1) tidy_append tidy_ws[OF w(1)] tidy_ws[OF w(2)] \<open>tidy ?v\<close>)
  then show "no_stray (to_json tc)" by (simp add: tidy_def no_stray_def)
qed

text \<open>
  The documented behaviour of \<open>serde_json\<close>: it accepts only JSON, and what it rejects of a JSON text
  within its nesting limit are numbers out of range.
\<close>

definition sound_serde :: "(bytes \<Rightarrow> string option) \<Rightarrow> bool" where
  "sound_serde serde \<longleftrightarrow>
     (\<forall>buf. serde buf = None \<longrightarrow> (\<exists>d. json_text d buf)) \<and>
     (\<forall>buf msg. json_text 127 buf \<longrightarrow> serde buf = Some msg \<longrightarrow> sublist ''number out of range'' msg)"

lemma test_case_length: "test_case_wf tc \<Longrightarrow> length (to_json tc) < 2 ^ 32"
proof -
  assume wf: "test_case_wf tc"
  then have spec: "spec_wf (tc_number tc)" by (simp add: test_case_wf_def)
  have sgn: "length (sign_text s) \<le> 2" "length (exp_sign_text e) \<le> 1" for s e
    by (cases s; simp add: sign_text_def) (cases e; simp add: exp_sign_text_def)
  have "length (integer_text (spec_integer (tc_number tc))) \<le> 21"
    using spec dec_bytes_length(1)
    by (auto simp: spec_wf_def integer_wf_def integer_text_def word_le_nat_alt split: integer_part.splits)
  moreover have "length (case spec_fraction (tc_number tc) of Some frac \<Rightarrow> 46 # frac | None \<Rightarrow> []) \<le> 21"
    using spec by (auto simp: spec_wf_def split: option.split)
  moreover have "length (case spec_exponent (tc_number tc) of Some e \<Rightarrow> 101 # exp_sign_text (exp_sign e) @ exp_digits e | None \<Rightarrow> []) \<le> 5"
    using spec sgn(2) by (fastforce simp: spec_wf_def intro: add_le_mono[of _ 1 _ 3, simplified] split: option.split)
  ultimately have "length (to_string (tc_number tc)) \<le> 49"
    using sgn(1)[of "spec_sign (tc_number tc)"] by (simp add: to_string_def)
  with wf show ?thesis by (simp add: test_case_wf_def to_json_def)
qed

section \<open>What the target extracts\<close>

text \<open>Its path \<open>0\<close> is a key, so both reads of an array are type mismatches.\<close>

lemma array_doc: "json_doc (91 # r) v \<Longrightarrow> \<exists>vs. v = JArray vs"
proof -
  assume "json_doc (91 # r) v"
  then obtain w t w' where s: "91 # r = w @ t @ w'" "ws w" "tree t v" unfolding json_doc_def by blast
  from s(1,2) have "w = []" by (cases w) (auto simp: is_ws_def)
  moreover have "t \<noteq> []" using s(3) json_scalar_nonempty by (auto elim: tree.cases)
  ultimately have "hd t = 91" using s(1) by (cases t) auto
  with s(3) show ?thesis by (cases rule: tree.cases) (auto dest: json_scalar_hd simp: is_digit_def)
qed

lemma root_op_fails:
  assumes d: "h p = Some d" "doc_inv d" "denotes d (cursor_root d) v" and path: "\<not> null_with_length path"
    and err: "lookup_path v (slice_bytes path) = Err e"
  shows "\<exists>d'. root_op h (Some p) path True body = (err_code e, None, h(p \<mapsto> d')) \<and> keeps d d'"
proof -
  let ?d = "clear_last_error_offset d"
  have root: "cursor_root ?d = cursor_root d" by (simp add: cursor_root_def clear_last_error_offset_def)
  have inv: "doc_inv ?d" "denotes ?d (cursor_root d) v"
    using d keeps_doc_inv[OF keeps_updates(2)] by (simp_all add: keeps_denotes[OF keeps_updates(2)])
  from resolve_ok[OF inv, of "slice_bytes path"] err obtain d' where
    r: "resolve ?d (cursor_root d) (slice_bytes path) = (Err e, d')" "doc_inv d'" "same_text ?d d'" by (auto simp: agrees_def)
  have "keeps d d'" using keeps_trans[OF keeps_updates(2) same_text_keeps[OF r(3,2)]] .
  with path d(1) r(1) root show ?thesis
    by (intro exI[of _ d']) (simp add: root_op_def clear_doc_error_offset_if_available_def resolve_root_path_def on_doc_def
        bind_doc_def ffi_catch_def)
qed

lemma array_read_fails:
  assumes "h p = Some d" "doc_inv d" "denotes d (cursor_root d) (JArray vs)"
  shows "\<exists>d'. root_op h (Some p) (Bytes (bs ''0'')) True body = (err_code QJSON_TYPE_MISMATCH, None, h(p \<mapsto> d')) \<and> keeps d d'"
proof -
  have "lookup_path (JArray vs) (slice_bytes (Bytes (bs ''0''))) = Err QJSON_TYPE_MISMATCH"
    by (simp add: lookup_path.simps[of _ "[48]"] path_next_word in_key_def)
  with root_op_fails[where h = h and p = p and d = d and v = "JArray vs" and path = "Bytes (bs ''0'')" and body = body] assms
  show ?thesis by simp
qed

lemma number_extraction:
  assumes wf: "test_case_wf tc" and valid: "is_rfc8259_valid (tc_number tc)"
  shows "\<exists>d. extract_number (scan memchr2_ref tgt) tgt addr h (to_json tc) =
    (Some (err_code QJSON_TYPE_MISMATCH, 0, err_code QJSON_TYPE_MISMATCH, f64_zero, Some addr), h(addr \<mapsto> d))"
proof -
  let ?buf = "to_json tc"
  note len = test_case_length[OF wf]
  from test_case_text(1)[OF wf, of 1] valid obtain v where v: "json_doc ?buf v" "tree_depth v \<le> 1"
    by (auto simp: json_text_iff_tree)
  have "1 \<le> unat (effective_max_depth options_default)" using effective_max_depth_bounds by blast
  with dispatch.parse_json[OF len v(1), where tgt = tgt and tgta = tgt and opts = options_default] v(2) obtain d where
    d: "parse_with_options_detailed (scan memchr2_ref tgt) tgt ?buf options_default = Ok d"
      "d = document_new ?buf (offsets (tokens ?buf) @ [U32_MAX]) (is_eager options_default)"
    by (auto split: outcome.splits)
  have inv: "doc_inv d" unfolding d(2) using len by (rule doc_new_inv)
  have root: "denotes d (cursor_root d) v"
    using root_denotes[OF doc_inv_indexed[OF inv]] v(1) by (simp add: d(2) document_new_def)
  obtain vs where vs: "v = JArray vs" using array_doc v(1) by (auto simp: to_json_def)
  have inv': "doc_inv d'" "denotes d' (cursor_root d') v" if "keeps d d'" for d'
  proof -
    have "cursor_root d' = cursor_root d" using that by (simp add: cursor_root_def keeps_def)
    with inv root keeps_doc_inv[OF that] show "doc_inv d'" "denotes d' (cursor_root d') v"
      by (simp_all add: keeps_denotes[OF that])
  qed
  obtain d1 where r1: "qjson_get_i64 (h(addr \<mapsto> d)) (Some addr) (Bytes (bs ''0'')) True =
      (err_code QJSON_TYPE_MISMATCH, None, h(addr \<mapsto> d1))" "keeps d d1"
    using array_read_fails[where h = "h(addr \<mapsto> d)" and p = addr and d = d and vs = vs and body = read_i64] inv root vs
    by (auto simp: qjson_get_i64_def)
  obtain d2 where "qjson_get_f64 (h(addr \<mapsto> d1)) (Some addr) (Bytes (bs ''0'')) True =
      (err_code QJSON_TYPE_MISMATCH, None, h(addr \<mapsto> d2))"
    using array_read_fails[where h = "h(addr \<mapsto> d1)" and p = addr and d = d1 and vs = vs and body = read_f64] inv'[OF r1(2)] vs
    by (auto simp: qjson_get_f64_def)
  with r1(1) d(1) show ?thesis
    by (intro exI[of _ d2]) (simp add: extract_number_def qjson_parse_def qjson_parse_ex_def Let_def written_def)
qed

lemma check_number_ok:
  assumes wf: "test_case_wf tc" and serde: "sound_serde serde" and fresh: "h addr = None"
  shows "check_number (scan memchr2_ref tgt) tgt addr serde si sf h tc = Ok h"
    "is_ok (parse_with_options (scan memchr2_ref tgt) tgt (to_json tc) \<lparr>opt_mode = QJSON_MODE_EAGER, opt_max_depth = FUZZ_MAX_DEPTH\<rparr>) \<longleftrightarrow>
      is_rfc8259_valid (tc_number tc)"
proof -
  let ?buf = "to_json tc"
  let ?eager = "\<lparr>opt_mode = QJSON_MODE_EAGER, opt_max_depth = FUZZ_MAX_DEPTH\<rparr>"
  let ?lazy = "\<lparr>opt_mode = QJSON_MODE_LAZY, opt_max_depth = FUZZ_MAX_DEPTH\<rparr>"
  let ?parse = "parse_with_options (scan memchr2_ref tgt) tgt ?buf"
  note len = test_case_length[OF wf] and jt = test_case_text(1)[OF wf] and ns = test_case_text(2)[OF wf order.refl]
  have mode: "is_eager ?eager" by (simp add: is_eager_def)
  have depth: "1 \<le> unat (effective_max_depth ?eager)" using effective_max_depth_bounds by blast
  have no_panic: "?parse opts \<noteq> Panic" for opts
    using dispatch.parse_no_panic[OF ns len, of tgt tgt opts] by (simp add: parse_with_options_def)
  have is_ok_iff: "is_ok (?parse opts) \<longleftrightarrow> (\<exists>d. parse_with_options_detailed (scan memchr2_ref tgt) tgt ?buf opts = Ok d)" for opts
    by (cases "parse_with_options_detailed (scan memchr2_ref tgt) tgt ?buf opts") (simp_all add: parse_with_options_def)
  show eager: "is_ok (?parse ?eager) \<longleftrightarrow> is_rfc8259_valid (tc_number tc)"
    unfolding is_ok_iff using parse_eager_scan[OF len mode, of tgt] jt[OF depth] by auto
  have lz: "is_ok (?parse ?lazy)" if valid: "is_rfc8259_valid (tc_number tc)"
  proof -
    from jt[of 1] valid obtain v where v: "json_doc ?buf v" "tree_depth v \<le> 1"
      by (auto simp: json_text_iff_tree)
    moreover have "1 \<le> unat (effective_max_depth ?lazy)" using effective_max_depth_bounds by blast
    ultimately show ?thesis
      using dispatch.parse_json[OF len v(1), where tgt = tgt and tgta = tgt and opts = ?lazy] unfolding is_ok_iff
      by (auto split: outcome.splits)
  qed
  have rejects: "serde ?buf \<noteq> None" if "\<not> is_rfc8259_valid (tc_number tc)"
  proof
    assume "serde ?buf = None"
    with serde obtain d where "json_text d ?buf" unfolding sound_serde_def by blast
    then have "json_text (max 1 d) ?buf"
      by (auto simp: json_text_iff_tree intro: le_trans[OF _ max.cobounded2])
    with jt[of "max 1 d"] that show False by simp
  qed
  have diverges: "allowed_divergence msg" if "is_rfc8259_valid (tc_number tc)" "serde ?buf = Some msg" for msg
    using that serde jt[of 127] by (auto simp: sound_serde_def allowed_divergence_def)
  have extracts: "test_number_extraction (scan memchr2_ref tgt) tgt addr si sf h ?buf = Ok h" if "is_rfc8259_valid (tc_number tc)"
  proof -
    from number_extraction[OF wf that] obtain d where
      "extract_number (scan memchr2_ref tgt) tgt addr h ?buf =
        (Some (err_code QJSON_TYPE_MISMATCH, 0, err_code QJSON_TYPE_MISMATCH, f64_zero, Some addr), h(addr \<mapsto> d))" by blast
    with fresh show ?thesis by (simp add: test_number_extraction_def qjson_free_def fun_upd_idem)
  qed
  show "check_number (scan memchr2_ref tgt) tgt addr serde si sf h tc = Ok h"
    using eager lz rejects diverges no_panic[of ?eager] no_panic[of ?lazy] extracts
    by (cases "serde ?buf") (auto simp: check_number_def Let_def)
qed

end
