(* ===== verification/Fuzz_Eager.thy ===== *)
theory Fuzz_Eager
  imports Fuzz_Numbers
begin

text \<open>
  \<open>fuzz/fuzz_targets/fuzz_parse_eager.rs\<close>: the depth filter, the scan for unpaired surrogate escapes,
  and the accept or reject comparison of the eager parser with \<open>serde_json\<close>, an argument here. The
  depth filter of \<open>fuzz_parse_lazy.rs\<close> is the same function.
\<close>

section \<open>The depth filter\<close>

definition saturating_succ :: "u32 \<Rightarrow> u32" where
  "saturating_succ d = (if d = U32_MAX then d else d + 1)"

definition saturating_pred :: "u32 \<Rightarrow> u32" where
  "saturating_pred d = (if d = 0 then d else d - 1)"

fun container_depth_loop :: "u32 \<Rightarrow> u32 \<Rightarrow> bool \<Rightarrow> bool \<Rightarrow> bytes \<Rightarrow> bool" where
  "container_depth_loop limit depth in_string escaped [] = False"
| "container_depth_loop limit depth in_string escaped (b # data) =
     (if in_string then
        (if escaped then container_depth_loop limit depth in_string False data
         else if b = 92 then container_depth_loop limit depth in_string True data
         else if b = 34 then container_depth_loop limit depth False escaped data
         else container_depth_loop limit depth in_string escaped data)
      else if b = 34 then container_depth_loop limit depth True escaped data
      else if b = 123 \<or> b = 91 then
        (let depth = saturating_succ depth in
         if depth > limit then True else container_depth_loop limit depth in_string escaped data)
      else if b = 125 \<or> b = 93 then container_depth_loop limit (saturating_pred depth) in_string escaped data
      else container_depth_loop limit depth in_string escaped data)"

definition exceeds_container_depth :: "bytes \<Rightarrow> u32 \<Rightarrow> bool" where
  "exceeds_container_depth data limit = container_depth_loop limit 0 False False data"

section \<open>The scan for unpaired surrogates\<close>

definition fuzz_hex_value :: "u8 \<Rightarrow> u8 option" where
  "fuzz_hex_value b =
     (if 48 \<le> b \<and> b \<le> 57 then Some (b - 48)
      else if 97 \<le> b \<and> b \<le> 102 then Some (b - 97 + 10)
      else if 65 \<le> b \<and> b \<le> 70 then Some (b - 65 + 10)
      else None)"

fun hex_escape_loop :: "u16 \<Rightarrow> bytes \<Rightarrow> u16 option" where
  "hex_escape_loop v [] = Some v"
| "hex_escape_loop v (b # bytes) =
     (case fuzz_hex_value b of None \<Rightarrow> None | Some d \<Rightarrow> hex_escape_loop (push_bit 4 v OR ucast d) bytes)"

definition decode_hex_escape :: "bytes \<Rightarrow> nat \<Rightarrow> u16 option" where
  "decode_hex_escape data pos =
     (if pos + 4 > length data then None else hex_escape_loop 0 (slice pos (pos + 4) data))"

definition is_high_surrogate :: "u16 \<Rightarrow> bool" where
  "is_high_surrogate v \<longleftrightarrow> 0xD800 \<le> v \<and> v \<le> 0xDBFF"

definition is_low_surrogate :: "u16 \<Rightarrow> bool" where
  "is_low_surrogate v \<longleftrightarrow> 0xDC00 \<le> v \<and> v \<le> 0xDFFF"

function unpaired_loop :: "bytes \<Rightarrow> nat \<Rightarrow> bool \<Rightarrow> bool" where
  "unpaired_loop data i in_string =
     (if i \<ge> length data then False
      else if \<not> in_string then unpaired_loop data (i + 1) (data ! i = 34)
      else if data ! i = 34 then unpaired_loop data (i + 1) False
      else if data ! i = 92 then
        (if i + 1 \<ge> length data then False
         else if data ! (i + 1) \<noteq> 117 then unpaired_loop data (i + 2) True
         else
           (case decode_hex_escape data (i + 2) of
              None \<Rightarrow> False
            | Some first \<Rightarrow>
                if is_low_surrogate first then True
                else if is_high_surrogate first then
                  (let next = i + 6 in
                   if next + 1 < length data \<and> data ! next = 92 \<and> data ! (next + 1) = 117 then
                     (case decode_hex_escape data (next + 2) of
                        None \<Rightarrow> False
                      | Some second \<Rightarrow> if is_low_surrogate second then unpaired_loop data (next + 6) True else True)
                   else True)
                else unpaired_loop data (i + 6) True))
      else unpaired_loop data (i + 1) True)"
  by pat_completeness auto
termination
  by (relation "measure (\<lambda>(data, i, _). length data - i)") auto

declare unpaired_loop.simps [simp del]

definition contains_escaped_unpaired_surrogate :: "bytes \<Rightarrow> bool" where
  "contains_escaped_unpaired_surrogate data = unpaired_loop data 0 False"

section \<open>The target\<close>

definition DEPTH_SKIP_LIMIT :: u32 where
  "DEPTH_SKIP_LIMIT = 64"

text \<open>\<open>serde_err\<close> is the message of the error of \<open>serde_json\<close>, \<open>None\<close> if it accepts.\<close>

definition serde_rejected_allowed_value :: "bytes \<Rightarrow> string option \<Rightarrow> bool" where
  "serde_rejected_allowed_value data serde_err =
     (case serde_err of
        None \<Rightarrow> False
      | Some msg \<Rightarrow>
          sublist ''number out of range'' msg \<or>
          (sublist ''surrogate'' msg \<or> sublist ''unexpected end of hex escape'' msg) \<and>
            contains_escaped_unpaired_surrogate data)"

definition fuzz_parse_eager :: "scanner \<Rightarrow> target \<Rightarrow> (bytes \<Rightarrow> string option) \<Rightarrow> bytes \<Rightarrow> (unit, unit) outcome" where
  "fuzz_parse_eager sc tgt serde data =
     (if exceeds_container_depth data DEPTH_SKIP_LIMIT then Ok ()
      else
        (let parsed = parse_with_options sc tgt data \<lparr>opt_mode = QJSON_MODE_EAGER, opt_max_depth = FUZZ_MAX_DEPTH\<rparr>;
             serde_err = serde data in
         if parsed = Panic then Panic
         else if is_ok parsed \<noteq> (serde_err = None) \<and>
                 \<not> (is_ok parsed \<and> serde_rejected_allowed_value data serde_err) then Panic
         else Ok ()))"

section \<open>The depth filter bounds the nesting\<close>

fun lex_of :: "bool \<Rightarrow> bool \<Rightarrow> lex_state" where
  "lex_of False escaped = Outside"
| "lex_of True False = Inside"
| "lex_of True True = Escaped"

lemma container_depth_loop_nesting:
  assumes "unat depth + length data < 2 ^ 32" "depth \<le> limit" "in_string \<or> \<not> escaped"
  shows "container_depth_loop limit depth in_string escaped data \<longleftrightarrow>
    unat limit < max_nesting (unat depth) (lex_tokens (lex_of in_string escaped) n data)"
  using assms
proof (induction data arbitrary: depth in_string escaped n)
  case Nil
  then show ?case by (simp add: word_le_nat_alt)
next
  case (Cons b data)
  have small: "unat depth + length data < 2 ^ 32" using Cons.prems(1) by simp
  have le: "unat depth \<le> unat limit" using Cons.prems(2) by (simp add: word_le_nat_alt)
  note IH = Cons.IH[OF small Cons.prems(2), of _ _ "Suc n"]
  show ?case
  proof (cases in_string)
    case True
    then show ?thesis
      using IH[of True False] IH[of True True] IH[of False False] by (cases escaped) auto
  next
    case out: False
    with Cons.prems(3) have esc: "\<not> escaped" by simp
    consider (opens) "b = 123 \<or> b = 91" | (closes) "b = 125 \<or> b = 93" | (quote) "b = 34"
      | (other) "b \<noteq> 34" "b \<noteq> 123" "b \<noteq> 91" "b \<noteq> 125" "b \<noteq> 93" by blast
    then show ?thesis
    proof cases
      case opens
      have ne: "depth \<noteq> U32_MAX" using Cons.prems(1) by auto
      have s: "saturating_succ depth = depth + 1" "unat (depth + 1) = Suc (unat depth)"
        using ne Cons.prems(1) by (auto simp: saturating_succ_def unat_word_ariths)
      show ?thesis
      proof (cases "depth + 1 \<le> limit")
        case True
        with Cons.IH[of "depth + 1" False False "Suc n"] Cons.prems(1) opens out esc s le show ?thesis
          by (auto simp: not_less max_def)
      next
        case False
        then have "unat limit < Suc (unat depth)" using s(2) by (simp add: word_le_nat_alt)
        with opens out esc s False max_nesting_ge[of "Suc (unat depth)" "lex_tokens Outside (Suc n) data"] show ?thesis
          by (auto simp: not_less less_max_iff_disj)
      qed
    next
      case closes
      have p: "unat (saturating_pred depth) = unat depth - 1" "saturating_pred depth \<le> limit"
        using Cons.prems(2) by (auto simp: saturating_pred_def unat_minus_one word_le_nat_alt)
      with Cons.IH[of "saturating_pred depth" False False "Suc n"] closes out esc small Cons.prems(2) show ?thesis
        by (auto simp: max_def word_le_nat_alt)
    next
      case quote
      with IH[of True False] out esc show ?thesis by auto
    next
      case other
      with IH[of False False] out esc show ?thesis by (auto simp: is_structural_def)
    qed
  qed
qed

lemma exceeds_container_depth_nesting:
  assumes "length data < 2 ^ 32"
  shows "exceeds_container_depth data limit \<longleftrightarrow> unat limit < max_nesting 0 (tokens data)"
  using container_depth_loop_nesting[of 0 data limit False False 0] assms
  by (simp add: exceeds_container_depth_def tokens_def)

section \<open>JSON has no unpaired surrogate\<close>

lemma fuzz_hex_value_loop:
  "hex_escape_loop v bytes = (case hex4_loop () bytes v of Ok x \<Rightarrow> Some x | _ \<Rightarrow> None)"
  by (induction v bytes rule: hex_escape_loop.induct) (auto simp: fuzz_hex_value_def)

lemma decode_hex_escape_eq:
  assumes "drop pos data = h @ s" "length h = 4"
  shows "decode_hex_escape data pos = map_option of_nat (hex_value 0 h)"
proof -
  have len: "pos + 4 \<le> length data" using assms length_drop[of pos data] by (cases h) auto
  have sl: "slice pos (pos + 4) data = h" using assms by (simp add: slice_def)
  have "hex4_loop () h (0 :: u16) = (case hex_value 0 h of None \<Rightarrow> Err () | Some u \<Rightarrow> Ok (of_nat u))"
    using hex4_loop_value[of "0 :: u16" h "()"] assms(2) by simp
  then show ?thesis using len by (simp add: decode_hex_escape_def sl fuzz_hex_value_loop split: option.split)
qed

lemma hex_plain:
  assumes "hex_value v h = Some u"
  shows "\<forall>b \<in> set h. b \<noteq> 34 \<and> b \<noteq> 92"
  using assms
proof (induction v h rule: hex_value.induct)
  case (2 v b bytes)
  then show ?case by (auto simp: hex_digit_def split: option.splits)
qed simp

lemma unquoted_iff: "unquoted body \<longleftrightarrow> lex_run Inside body = Inside \<and> lex_tokens Inside n body = []"
  unfolding unquoted_def by (metis lex_tokens_Nil)

lemma unquoted_Cons: "b \<noteq> 34 \<Longrightarrow> b \<noteq> 92 \<Longrightarrow> unquoted (b # t) \<longleftrightarrow> unquoted t"
  by (simp add: unquoted_def[of "b # t"] unquoted_iff[of t "Suc 0"])

lemma unquoted_plain: "\<forall>b \<in> set h. b \<noteq> 34 \<and> b \<noteq> 92 \<Longrightarrow> unquoted (h @ s) \<longleftrightarrow> unquoted s"
  by (induction h) (simp_all add: unquoted_Cons)

lemma unquoted_escape: "unquoted (92 # c # s) \<longleftrightarrow> unquoted s"
  by (simp add: unquoted_def[of "92 # c # s"] unquoted_iff[of s "Suc (Suc 0)"])

lemma unpaired_plain:
  "drop i data = h @ t \<Longrightarrow> \<forall>b \<in> set h. b \<noteq> 34 \<and> b \<noteq> 92 \<Longrightarrow>
    unpaired_loop data i True = unpaired_loop data (i + length h) True"
proof (induction h arbitrary: i)
  case (Cons b h)
  from drop_eq_ConsD[of i data b "h @ t"] Cons.prems(1) have d: "i < length data" "data ! i = b" "drop (Suc i) data = h @ t"
    by simp_all
  with Cons.prems(2) have "unpaired_loop data i True = unpaired_loop data (i + 1) True"
    by (simp add: unpaired_loop.simps[of data i])
  with Cons.IH[OF d(3)] Cons.prems(2) show ?case by simp
qed simp

lemma is_surrogate_of_nat:
  "u < 65536 \<Longrightarrow> is_low_surrogate (of_nat u) \<longleftrightarrow> 0xDC00 \<le> u \<and> u \<le> 0xDFFF"
  "u < 65536 \<Longrightarrow> is_high_surrogate (of_nat u) \<longleftrightarrow> 0xD800 \<le> u \<and> u \<le> 0xDBFF"
  by (simp_all add: is_low_surrogate_def is_high_surrogate_def word_le_nat_alt unat_of_nat)

text \<open>Inside a literal that denotes text the scan reaches the closing quote.\<close>

lemma unpaired_string:
  assumes "string_denotes body cps" "unquoted body" "drop i data = body @ 34 # r"
  shows "unpaired_loop data i True = unpaired_loop data (i + length body + 1) False"
  using assms
proof (induction arbitrary: i rule: string_denotes.induct)
  case den_nil
  with drop_eq_ConsD[of i data 34 r] show ?case by (simp add: unpaired_loop.simps[of data i])
next
  case (den_plain b s cps)
  have b: "b \<noteq> 34" using den_plain.prems(1) by (auto simp: unquoted_def)
  have un: "unquoted s" using unquoted_plain[of "[b]" s] den_plain b by simp
  from unpaired_plain[of i data "[b]" "s @ 34 # r"] den_plain b
  have "unpaired_loop data i True = unpaired_loop data (i + 1) True" by simp
  moreover have "drop (i + 1) data = s @ 34 # r" using drop_eq_ConsD[of i data b "s @ 34 # r"] den_plain.prems by simp
  ultimately show ?case using den_plain.IH[OF un] by simp
next
  case (den_escape c v s cps)
  have c: "c \<noteq> 117" using den_escape(1) by (auto simp: simple_escape_value_def)
  have d: "drop i data = [92, c] @ s @ 34 # r" using den_escape.prems(2) by simp
  from drop_eq_nth[OF d, of 0] drop_eq_nth[OF d, of 1] c
  have "unpaired_loop data i True = unpaired_loop data (i + 2) True"
    by (simp add: unpaired_loop.simps[of data i])
  moreover have "drop (i + 2) data = s @ 34 # r" using drop_add[OF d] by simp
  ultimately show ?case using den_escape.IH den_escape.prems(1) by (simp add: unquoted_escape)
next
  case (den_unicode h u s cps)
  have d: "drop i data = [92, 117] @ h @ s @ 34 # r" using den_unicode.prems(2) by simp
  note d2 = drop_add[OF d, simplified]
  have u: "u < 65536" using hex_value_less[OF den_unicode(2)] den_unicode(1) by simp
  have "\<not> is_low_surrogate (of_nat u)" "\<not> is_high_surrogate (of_nat u)"
    using den_unicode(3) by (auto simp: is_surrogate_of_nat[OF u] is_surrogate_def)
  with drop_eq_nth[OF d, of 0] drop_eq_nth[OF d, of 1] decode_hex_escape_eq[of "i + 2" data h, OF _ den_unicode(1)] d2
    den_unicode(2)
  have "unpaired_loop data i True = unpaired_loop data (i + 6) True"
    by (simp add: unpaired_loop.simps[of data i])
  moreover have "drop (i + 6) data = s @ 34 # r" using drop_add[of "i + 2" data h "s @ 34 # r"] d2 den_unicode(1) by (simp add: add.commute)
  moreover have "unquoted s" using den_unicode.prems(1) unquoted_plain[OF hex_plain[OF den_unicode(2)]] by (simp add: unquoted_escape)
  ultimately show ?case using den_unicode.IH den_unicode(1) by simp
next
  case (den_pair h hi l lo s cps)
  have d: "drop i data = [92, 117] @ h @ [92, 117] @ l @ s @ 34 # r" using den_pair.prems(2) by simp
  note d2 = drop_add[OF d, simplified]
  have d6: "drop (i + 6) data = [92, 117] @ l @ s @ 34 # r" using drop_add[of "i + 2" data h] d2 den_pair(1) by (simp add: add.commute)
  note d8 = drop_add[OF d6, simplified]
  have u: "hi < 65536" "lo < 65536" using hex_value_less[OF den_pair(2)] hex_value_less[OF den_pair(6)] den_pair(1,5) by simp_all
  have n: "i < length data" "Suc i < length data" "data ! i = 92" "data ! Suc i = 117" "7 + i < length data"
    "data ! (i + 6) = 92" "data ! (7 + i) = 117"
    using drop_eq_nth[OF d, of 0] drop_eq_nth[OF d, of 1] drop_eq_nth[OF d6, of 0] drop_eq_nth[OF d6, of 1]
    by (simp_all add: add.commute)
  have e: "decode_hex_escape data (Suc (Suc i)) = Some (of_nat hi)" "decode_hex_escape data (8 + i) = Some (of_nat lo)"
    using decode_hex_escape_eq[of "i + 2" data h, OF _ den_pair(1)] d2 decode_hex_escape_eq[of "8 + i" data l, OF _ den_pair(5)] d8
      den_pair(2,6) by (simp_all add: add.commute)
  have "\<not> is_low_surrogate (of_nat hi)" "is_high_surrogate (of_nat hi)" "is_low_surrogate (of_nat lo)"
    using den_pair(3,4,7,8) is_surrogate_of_nat u by simp_all
  with n e have "unpaired_loop data i True = unpaired_loop data (12 + i) True"
    by (simp add: unpaired_loop.simps[of data i])
  then have "unpaired_loop data i True = unpaired_loop data (i + 12) True" by (simp add: add.commute)
  moreover have "drop (i + 12) data = s @ 34 # r" using drop_add[of "i + 8" data l "s @ 34 # r"] d8 den_pair(5) by (simp add: add.commute)
  moreover have "unquoted s"
    using den_pair.prems(1) unquoted_plain[OF hex_plain[OF den_pair(2)]] unquoted_plain[OF hex_plain[OF den_pair(6)]]
    by (simp add: unquoted_escape)
  ultimately show ?case using den_pair.IH den_pair(1,5) by simp
next
  case (den_utf8 cp s cps)
  have p: "\<forall>b \<in> set (utf8 cp). b \<noteq> 34 \<and> b \<noteq> 92"
  proof
    fix b assume "b \<in> set (utf8 cp)"
    with utf8_high[OF den_utf8(1,2)] have "128 \<le> b" by blast
    then show "b \<noteq> 34 \<and> b \<noteq> 92" by auto
  qed
  from unpaired_plain[of i data "utf8 cp", OF _ p] den_utf8.prems(2)
  have "unpaired_loop data i True = unpaired_loop data (i + length (utf8 cp)) True" by simp
  moreover have "drop (i + length (utf8 cp)) data = s @ 34 # r" using drop_add[of i data "utf8 cp"] den_utf8.prems(2) by simp
  moreover have "unquoted s" using den_utf8.prems(1) unquoted_plain[OF p] by simp
  ultimately show ?case using den_utf8.IH by (simp add: add.assoc)
qed

text \<open>A segment the scan passes outside strings.\<close>

definition passes :: "bytes \<Rightarrow> bool" where
  "passes s \<longleftrightarrow> (\<forall>data i r. drop i data = s @ r \<longrightarrow> unpaired_loop data i False = unpaired_loop data (i + length s) False)"

lemma passes_Nil: "passes []"
  by (simp add: passes_def)

lemma passes_append: "passes a \<Longrightarrow> passes b \<Longrightarrow> passes (a @ b)"
  unfolding passes_def
proof (intro allI impI)
  fix data i r
  assume a: "\<forall>data i r. drop i data = a @ r \<longrightarrow> unpaired_loop data i False = unpaired_loop data (i + length a) False"
    and b: "\<forall>data i r. drop i data = b @ r \<longrightarrow> unpaired_loop data i False = unpaired_loop data (i + length b) False"
    and d: "drop i data = (a @ b) @ r"
  then have "unpaired_loop data i False = unpaired_loop data (i + length a) False" by simp
  also have "\<dots> = unpaired_loop data (i + length a + length b) False"
    using b drop_add[of i data a "b @ r"] d by simp
  finally show "unpaired_loop data i False = unpaired_loop data (i + length (a @ b)) False"
    by (simp add: add.assoc)
qed

lemma passes_Cons: "b \<noteq> 34 \<Longrightarrow> passes s \<Longrightarrow> passes (b # s)"
proof -
  assume b: "b \<noteq> 34" and s: "passes s"
  have "passes [b]"
    unfolding passes_def
  proof (intro allI impI)
    fix data i r assume "drop i data = [b] @ r"
    with drop_eq_ConsD[of i data b r] b show "unpaired_loop data i False = unpaired_loop data (i + length [b]) False"
      by (simp add: unpaired_loop.simps[of data i])
  qed
  from passes_append[OF this s] show "passes (b # s)" by simp
qed

lemma passes_plain: "\<forall>b \<in> set s. b \<noteq> 34 \<Longrightarrow> passes s"
  by (induction s) (simp_all add: passes_Nil passes_Cons)

lemma passes_ws: "ws w \<Longrightarrow> passes w"
  by (intro passes_plain) (auto simp: ws_def list_all_iff is_ws_def)

lemma passes_scalar: "json_literal s \<Longrightarrow> passes s" "json_number s \<Longrightarrow> passes s"
  using json_scalar_no_structural(1)[of s] by (auto simp: json_scalar_def list_all_iff intro!: passes_plain)

lemma passes_string: "json_string s \<Longrightarrow> passes s"
  unfolding passes_def
proof (intro allI impI)
  fix data i r assume "json_string s" and d: "drop i data = s @ r"
  then obtain body cps where s: "s = 34 # body @ [34]" "unquoted body" "string_denotes body cps" by (auto simp: json_string_def)
  from drop_eq_ConsD[of i data 34 "body @ 34 # r"] d s(1)
  have q: "i < length data" "data ! i = 34" "drop (Suc i) data = body @ 34 # r" by simp_all
  from unpaired_string[OF s(3,2) q(3)] q(1,2) s(1)
  show "unpaired_loop data i False = unpaired_loop data (i + length s) False"
    by (simp add: unpaired_loop.simps[of data i])
qed

lemma passes_container: "passes s \<Longrightarrow> passes (91 # s @ [93])" "passes s \<Longrightarrow> passes (123 # s @ [125])"
  by (simp_all add: passes_Cons passes_append passes_Nil)

lemmas passes_intros = passes_append passes_Cons passes_ws passes_string passes_container passes_scalar

lemma json_passes:
  "json_value d s \<Longrightarrow> passes s"
  "json_elements d es \<Longrightarrow> passes es"
  "json_members d ms \<Longrightarrow> passes ms"
  by (induction rule: json_value_json_elements_json_members.inducts) (simp_all add: passes_intros)

lemma json_no_unpaired: "json_text d buf \<Longrightarrow> \<not> contains_escaped_unpaired_surrogate buf"
proof -
  assume "json_text d buf"
  then have "passes buf" unfolding json_text_def by (blast intro: passes_intros json_passes(1))
  then have "unpaired_loop buf 0 False = unpaired_loop buf (0 + length buf) False"
    unfolding passes_def by (metis append_Nil2 drop0)
  then show ?thesis by (simp add: contains_escaped_unpaired_surrogate_def unpaired_loop.simps[of buf "length buf"])
qed

section \<open>The target does not fail\<close>

lemma fuzz_parse_eager_ok:
  assumes len: "length data < 2 ^ 32" and serde: "sound_serde serde"
  shows "fuzz_parse_eager (scan memchr2_ref tgt) tgt serde data = Ok ()"
proof (cases "exceeds_container_depth data DEPTH_SKIP_LIMIT")
  case True
  then show ?thesis by (simp add: fuzz_parse_eager_def)
next
  case False
  let ?opts = "\<lparr>opt_mode = QJSON_MODE_EAGER, opt_max_depth = FUZZ_MAX_DEPTH\<rparr>"
  let ?r = "parse_with_options_detailed (scan memchr2_ref tgt) tgt data ?opts"
  have mode: "is_eager ?opts" by (simp add: is_eager_def)
  have limit: "unat (effective_max_depth ?opts) = 128"
    by (simp add: effective_max_depth_def FUZZ_MAX_DEPTH_def QJSON_MAX_MAX_DEPTH_def min_def)
  have shallow: "json_text d data \<longleftrightarrow> json_text 64 data" if "64 \<le> d" for d
  proof -
    have "max_nesting 0 (tokens data) \<le> 64"
      using False exceeds_container_depth_nesting[OF len] by (simp add: DEPTH_SKIP_LIMIT_def not_less)
    then show ?thesis using that json_doc_nesting unfolding json_text_iff_tree by (metis order_trans)
  qed
  have np: "?r \<noteq> Panic" using parse_returns(1)[OF len] mode by blast
  have ok: "is_ok (parse_with_options (scan memchr2_ref tgt) tgt data ?opts) \<longleftrightarrow> json_text 64 data"
    using parse_eager_scan[OF len mode, of tgt] shallow[of 128] limit
    by (cases ?r) (auto simp: parse_with_options_def)
  have accepts: "json_text 64 data" if "serde data = None"
  proof -
    from that serde obtain d where "json_text d data" unfolding sound_serde_def by blast
    then have "json_text (max 64 d) data"
      by (auto simp: json_text_iff_tree intro: le_trans[OF _ max.cobounded2])
    with shallow[of "max 64 d"] show ?thesis by simp
  qed
  have diverges: "serde_rejected_allowed_value data (Some msg)" if "json_text 64 data" "serde data = Some msg" for msg
    using that serde shallow[of 127] by (auto simp: sound_serde_def serde_rejected_allowed_value_def)
  from np have "parse_with_options (scan memchr2_ref tgt) tgt data ?opts \<noteq> Panic" by (simp add: parse_with_options_def)
  then show ?thesis
    using False ok accepts diverges by (cases "serde data") (auto simp: fuzz_parse_eager_def Let_def)
qed

end
