(* ===== verification/Fuzz_Lazy.thy ===== *)
theory Fuzz_Lazy
  imports Fuzz_Eager
begin

text \<open>
  The raw key scan of \<open>fuzz/fuzz_targets/fuzz_parse_lazy.rs\<close>: an independent reader of the text of an
  object, against which the target compares the object functions of the library. It returns the
  raw keys of the object in the order of the text. A failed assertion is \<open>Panic\<close>.
\<close>

section \<open>The scan\<close>

function skip_json_ws :: "bytes \<Rightarrow> nat \<Rightarrow> nat" where
  "skip_json_ws bytes pos =
     (if pos < length bytes \<and> (bytes ! pos = 32 \<or> bytes ! pos = 9 \<or> bytes ! pos = 10 \<or> bytes ! pos = 13)
      then skip_json_ws bytes (pos + 1) else pos)"
  by pat_completeness auto
termination
  by (relation "measure (\<lambda>(bytes, pos). length bytes - pos)") auto

function string_end_loop :: "bytes \<Rightarrow> nat \<Rightarrow> bool \<Rightarrow> nat option" where
  "string_end_loop bytes pos escaped =
     (if pos < length bytes then
        (if escaped then string_end_loop bytes (pos + 1) False
         else if bytes ! pos = 92 then string_end_loop bytes (pos + 1) True
         else if bytes ! pos = 34 then Some pos
         else string_end_loop bytes (pos + 1) False)
      else None)"
  by pat_completeness auto
termination
  by (relation "measure (\<lambda>(bytes, pos, _). length bytes - pos)") auto

definition scan_json_string_end :: "bytes \<Rightarrow> nat \<Rightarrow> nat option" where
  "scan_json_string_end bytes quote_pos =
     (if slice_get bytes quote_pos \<noteq> Some 34 then None else string_end_loop bytes (quote_pos + 1) False)"

declare skip_json_ws.simps [simp del] string_end_loop.simps [simp del]

lemma skip_json_ws_ge: "pos \<le> skip_json_ws bytes pos"
  by (induction bytes pos rule: skip_json_ws.induct) (subst skip_json_ws.simps, auto)

lemma string_end_loop_ge: "string_end_loop bytes pos escaped = Some e \<Longrightarrow> pos \<le> e"
proof (induction bytes pos escaped rule: string_end_loop.induct)
  case (1 bytes pos escaped)
  then show ?case by (auto simp: string_end_loop.simps[of bytes pos] split: if_splits)
qed

lemma scan_json_string_end_gt: "scan_json_string_end bytes pos = Some e \<Longrightarrow> pos < e"
  by (auto simp: scan_json_string_end_def dest: string_end_loop_ge split: if_splits)

function container_loop :: "bytes \<Rightarrow> nat \<Rightarrow> nat \<Rightarrow> nat option" where
  "container_loop bytes pos depth =
     (if pos < length bytes then
        (if bytes ! pos = 34 then
           (case scan_json_string_end bytes pos of None \<Rightarrow> None | Some e \<Rightarrow> container_loop bytes (e + 1) depth)
         else if bytes ! pos = 123 \<or> bytes ! pos = 91 then container_loop bytes (pos + 1) (depth + 1)
         else if bytes ! pos = 125 \<or> bytes ! pos = 93 then
           (if depth = 0 then None
            else if depth - 1 = 0 then Some (pos + 1)
            else container_loop bytes (pos + 1) (depth - 1))
         else container_loop bytes (pos + 1) depth)
      else None)"
  by pat_completeness auto
termination
  by (relation "measure (\<lambda>(bytes, pos, _). length bytes - pos)") (auto dest: scan_json_string_end_gt)

definition skip_json_container :: "bytes \<Rightarrow> nat \<Rightarrow> nat option" where
  "skip_json_container bytes pos = container_loop bytes pos 0"

function scalar_end :: "bytes \<Rightarrow> nat \<Rightarrow> nat" where
  "scalar_end bytes pos =
     (if pos < length bytes \<and> \<not> (bytes ! pos = 44 \<or> bytes ! pos = 125 \<or> bytes ! pos = 93)
      then scalar_end bytes (pos + 1) else pos)"
  by pat_completeness auto
termination
  by (relation "measure (\<lambda>(bytes, pos). length bytes - pos)") auto

declare container_loop.simps [simp del] scalar_end.simps [simp del]

definition skip_json_value :: "bytes \<Rightarrow> nat \<Rightarrow> nat option" where
  "skip_json_value bytes pos =
     (let pos = skip_json_ws bytes pos in
      case slice_get bytes pos of
        None \<Rightarrow> None
      | Some b \<Rightarrow>
          if b = 34 then map_option (\<lambda>e. e + 1) (scan_json_string_end bytes pos)
          else if b = 123 \<or> b = 91 then skip_json_container bytes pos
          else Some (scalar_end bytes pos))"

lemma container_loop_gt: "container_loop bytes pos depth = Some e \<Longrightarrow> pos < e"
proof (induction bytes pos depth rule: container_loop.induct)
  case (1 bytes pos depth)
  then show ?case
    by (fastforce simp: container_loop.simps[of bytes pos] dest: scan_json_string_end_gt split: if_splits option.splits)
qed

lemma scalar_end_ge: "pos \<le> scalar_end bytes pos"
  by (induction bytes pos rule: scalar_end.induct) (subst scalar_end.simps, auto)

lemma skip_json_value_ge: "skip_json_value bytes pos = Some e \<Longrightarrow> pos \<le> e"
proof -
  assume v: "skip_json_value bytes pos = Some e"
  have "skip_json_ws bytes pos \<le> e"
    using v scalar_end_ge[of "skip_json_ws bytes pos" bytes] scan_json_string_end_gt[of bytes "skip_json_ws bytes pos"]
      container_loop_gt[of bytes "skip_json_ws bytes pos" 0 e]
    by (fastforce simp: skip_json_value_def skip_json_container_def Let_def split: option.splits if_splits)
  with skip_json_ws_ge[of pos bytes] show ?thesis by simp
qed

text \<open>The assertions on the bytes after a key and after its value, and the loop over the members.\<close>

function raw_keys_loop :: "bytes \<Rightarrow> bytes list \<Rightarrow> nat \<Rightarrow> (bytes list, unit) outcome" where
  "raw_keys_loop obj keys pos =
     (let pos = skip_json_ws obj pos in
      if slice_get obj pos = Some 125 then Ok keys
      else if slice_get obj pos \<noteq> Some 34 then Panic
      else
        (let key_start = pos + 1 in
         case scan_json_string_end obj pos of
           None \<Rightarrow> Panic
         | Some key_end \<Rightarrow>
             and_then (slice_at obj key_start key_end) (\<lambda>key.
               let keys = keys @ [key]; pos = skip_json_ws obj (key_end + 1) in
               if slice_get obj pos \<noteq> Some 58 then Panic
               else
                 (case skip_json_value obj (pos + 1) of
                    None \<Rightarrow> Panic
                  | Some pos \<Rightarrow>
                      (let pos = skip_json_ws obj pos in
                       if slice_get obj pos = Some 44 then raw_keys_loop obj keys (pos + 1)
                       else if slice_get obj pos = Some 125 then Ok keys
                       else Panic)))))"
  by pat_completeness auto
termination
proof (relation "measure (\<lambda>(obj, keys, pos). length obj - pos)", goal_cases)
  case (2 obj keys pos p0 key_start key_end key keys' p1 p2 p3)
  have "pos \<le> p0" "p0 < key_end" "key_end + 1 \<le> p1" "p1 + 1 \<le> p2" "p2 \<le> p3"
    using 2 skip_json_ws_ge skip_json_value_ge by (auto dest: scan_json_string_end_gt)
  moreover have "p3 < length obj" using 2 by (auto simp: slice_get_def split: if_splits)
  ultimately show ?case by simp
qed simp

declare raw_keys_loop.simps [simp del]

definition raw_object_keys :: "bytes \<Rightarrow> (bytes list, unit) outcome" where
  "raw_object_keys obj =
     (let pos = skip_json_ws obj 0 in
      if slice_get obj pos \<noteq> Some 123 then Panic else raw_keys_loop obj [] (pos + 1))"

section \<open>The scans on JSON text\<close>

lemma slice_get_drop0: "drop i xs = x # r \<Longrightarrow> slice_get xs i = Some x"
  using drop_eq_ConsD[of i xs x r] by (simp add: slice_get_def)

lemma skip_json_ws_drop:
  "drop pos bytes = w @ r \<Longrightarrow> ws w \<Longrightarrow> r = [] \<or> \<not> is_ws (hd r) \<Longrightarrow> skip_json_ws bytes pos = pos + length w"
proof (induction w arbitrary: pos)
  case Nil
  then show ?case
    by (cases r) (auto simp: skip_json_ws.simps[of bytes pos] is_ws_def dest: drop_eq_ConsD)
next
  case (Cons b w)
  from drop_eq_ConsD[of pos bytes b "w @ r"] Cons.prems(1)
  have d: "pos < length bytes" "bytes ! pos = b" "drop (Suc pos) bytes = w @ r" by simp_all
  with Cons.prems(2) have "skip_json_ws bytes pos = skip_json_ws bytes (Suc pos)"
    by (auto simp: skip_json_ws.simps[of bytes pos] is_ws_def)
  with Cons.IH[OF d(3)] Cons.prems(2,3) show ?case by simp
qed

lemma string_end_loop_lex:
  assumes "drop pos bytes = body @ 34 # r" "lex_run st body = Inside" "lex_tokens st n body = []"
    "st = (if escaped then Escaped else Inside)"
  shows "string_end_loop bytes pos escaped = Some (pos + length body)"
  using assms
proof (induction body arbitrary: pos st n escaped)
  case Nil
  then have "\<not> escaped" by (auto split: if_splits)
  with Nil drop_eq_ConsD[of pos bytes 34 r] show ?case by (simp add: string_end_loop.simps[of bytes pos])
next
  case (Cons b body)
  from drop_eq_ConsD[of pos bytes b "body @ 34 # r"] Cons.prems(1)
  have d: "pos < length bytes" "bytes ! pos = b" "drop (Suc pos) bytes = body @ 34 # r" by simp_all
  show ?case
    using Cons.IH[OF d(3), of "lex_step st b" "Suc n"] Cons.prems(2-4) d(1,2)
    by (auto simp: string_end_loop.simps[of bytes pos] split: if_splits)
qed

lemma scan_string:
  assumes "drop pos bytes = 34 # body @ 34 # r" "unquoted body"
  shows "scan_json_string_end bytes pos = Some (pos + 1 + length body)"
  using string_end_loop_lex[of "Suc pos" bytes body r Inside 0 False] drop_eq_ConsD[OF assms(1)] assms(2) slice_get_drop0[OF assms(1)]
  by (simp add: scan_json_string_end_def unquoted_def)

text \<open>A segment the container scan passes at any positive depth.\<close>

definition glides :: "bytes \<Rightarrow> bool" where
  "glides s \<longleftrightarrow> (\<forall>bytes pos r k. drop pos bytes = s @ r \<longrightarrow> 0 < k \<longrightarrow>
     container_loop bytes pos k = container_loop bytes (pos + length s) k)"

lemma glides_Nil: "glides []"
  by (simp add: glides_def)

lemma glides_append: "glides a \<Longrightarrow> glides b \<Longrightarrow> glides (a @ b)"
  unfolding glides_def
proof (intro allI impI)
  fix bytes pos r and k :: nat
  assume a: "\<forall>bytes pos r k. drop pos bytes = a @ r \<longrightarrow> 0 < k \<longrightarrow> container_loop bytes pos k = container_loop bytes (pos + length a) k"
    and b: "\<forall>bytes pos r k. drop pos bytes = b @ r \<longrightarrow> 0 < k \<longrightarrow> container_loop bytes pos k = container_loop bytes (pos + length b) k"
    and d: "drop pos bytes = (a @ b) @ r" and k: "0 < k"
  then have "container_loop bytes pos k = container_loop bytes (pos + length a) k" by simp
  also have "\<dots> = container_loop bytes (pos + length a + length b) k"
    using b drop_add[of pos bytes a "b @ r"] d k by simp
  finally show "container_loop bytes pos k = container_loop bytes (pos + length (a @ b)) k"
    by (simp add: add.assoc)
qed

lemma glides_Cons:
  assumes "b \<noteq> 34" "b \<noteq> 123" "b \<noteq> 91" "b \<noteq> 125" "b \<noteq> 93" "glides s"
  shows "glides (b # s)"
proof -
  have "glides [b]"
    unfolding glides_def
  proof (intro allI impI)
    fix bytes pos r and k :: nat assume "drop pos bytes = [b] @ r"
    with drop_eq_ConsD[of pos bytes b r] assms show "container_loop bytes pos k = container_loop bytes (pos + length [b]) k"
      by (simp add: container_loop.simps[of bytes pos])
  qed
  from glides_append[OF this assms(6)] show ?thesis by simp
qed

lemma glides_plain: "list_all (\<lambda>b. \<not> is_structural b) s \<Longrightarrow> glides s"
  by (induction s) (auto simp: is_structural_def intro!: glides_Cons glides_Nil)

lemma glides_string: "json_string s \<Longrightarrow> glides s"
  unfolding glides_def
proof (intro allI impI)
  fix bytes pos r and k :: nat assume "json_string s" and d: "drop pos bytes = s @ r"
  then obtain body where s: "s = 34 # body @ [34]" "unquoted body" by (auto simp: json_string_def)
  from drop_eq_ConsD[of pos bytes 34 "body @ 34 # r"] scan_string[of pos bytes body r] d s
  show "container_loop bytes pos k = container_loop bytes (pos + length s) k"
    by (simp add: container_loop.simps[of bytes pos])
qed

text \<open>A container is passed at any depth; at depth 0 the scan ends behind it.\<close>

lemma container_end:
  assumes "glides s" "drop pos bytes = (o1 # s @ [c1]) @ r" "o1 = 123 \<or> o1 = 91" "c1 = 125 \<or> c1 = 93"
  shows "container_loop bytes pos k =
    (if k = 0 then Some (pos + length s + 2) else container_loop bytes (pos + length s + 2) k)"
proof -
  from drop_eq_ConsD[of pos bytes o1 "s @ c1 # r"] assms(2)
  have o1: "pos < length bytes" "bytes ! pos = o1" "drop (Suc pos) bytes = s @ c1 # r" by simp_all
  from drop_eq_ConsD[OF drop_add[OF o1(3)]]
  have c1: "Suc pos + length s < length bytes" "bytes ! (Suc pos + length s) = c1" by simp_all
  have "container_loop bytes pos k = container_loop bytes (Suc pos) (Suc k)"
    using o1 assms(3) by (auto simp: container_loop.simps[of bytes pos k])
  also have "\<dots> = container_loop bytes (Suc pos + length s) (Suc k)"
    using assms(1) o1(3) unfolding glides_def by blast
  also have "\<dots> = (if k = 0 then Some (pos + length s + 2) else container_loop bytes (pos + length s + 2) k)"
    using c1 assms(4) by (auto simp: container_loop.simps[of bytes "Suc (pos + length s)"])
  finally show ?thesis .
qed

lemma glides_container: "glides s \<Longrightarrow> glides (91 # s @ [93])" "glides s \<Longrightarrow> glides (123 # s @ [125])"
  using container_end[of s] unfolding glides_def[of "91 # s @ [93]"] glides_def[of "123 # s @ [125]"] by auto

lemma glides_ws: "ws w \<Longrightarrow> glides w"
  by (intro glides_plain ws_no_structural)

lemma glides_scalar: "json_literal s \<Longrightarrow> glides s" "json_number s \<Longrightarrow> glides s"
  by (rule glides_plain, rule json_scalar_no_structural(1), simp add: json_scalar_def)+

lemma glides_sep: "glides s \<Longrightarrow> glides (44 # s)" "glides s \<Longrightarrow> glides (58 # s)"
  by (simp_all add: glides_Cons)

lemmas glides_intros = glides_append glides_sep glides_ws glides_string glides_container glides_scalar

lemma json_glides:
  "json_value d s \<Longrightarrow> glides s"
  "json_elements d es \<Longrightarrow> glides es"
  "json_members d ms \<Longrightarrow> glides ms"
  by (induction rule: json_value_json_elements_json_members.inducts) (simp_all add: glides_intros)

lemma tree_glides:
  "elements es vs \<Longrightarrow> glides es" "members ms kvs \<Longrightarrow> glides ms"
proof -
  assume "elements es vs"
  moreover have "\<forall>v \<in> set vs. tree_depth v \<le> fold max (map tree_depth vs) 0"
    using fold_max_le[of "map tree_depth vs" 0] by auto
  ultimately show "glides es" using tree_json_value(2) json_glides(2) by blast
next
  assume "members ms kvs"
  moreover have "\<forall>kv \<in> set kvs. tree_depth (snd kv) \<le> fold max (map (\<lambda>kv. tree_depth (snd kv)) kvs) 0"
    using fold_max_le[of "map (\<lambda>kv. tree_depth (snd kv)) kvs" 0] by auto
  ultimately show "glides ms" using tree_json_value(3) json_glides(3) by blast
qed

lemma scalar_end_drop:
  "drop pos bytes = s @ c # r \<Longrightarrow> \<forall>b \<in> set s. b \<noteq> 44 \<and> b \<noteq> 125 \<and> b \<noteq> 93 \<Longrightarrow> c = 44 \<or> c = 125 \<Longrightarrow>
    scalar_end bytes pos = pos + length s"
proof (induction s arbitrary: pos)
  case Nil
  with drop_eq_ConsD[of pos bytes c r] show ?case by (auto simp: scalar_end.simps[of bytes pos])
next
  case (Cons b s)
  from drop_eq_ConsD[of pos bytes b "s @ c # r"] Cons.prems(1)
  have d: "pos < length bytes" "bytes ! pos = b" "drop (Suc pos) bytes = s @ c # r" by simp_all
  with Cons.prems(2) have "scalar_end bytes pos = scalar_end bytes (Suc pos)"
    by (simp add: scalar_end.simps[of bytes pos])
  with Cons.IH[OF d(3)] Cons.prems(2,3) show ?case by simp
qed

text \<open>Behind a value only whitespace is left before the separator.\<close>

lemma skip_value:
  assumes v: "tree t v" and ws: "ws w" "ws w'" and d: "drop pos bytes = w @ t @ w' @ c # r" and c: "c = 44 \<or> c = 125"
  shows "\<exists>q. skip_json_value bytes pos = Some q \<and> skip_json_ws bytes q = pos + length w + length t + length w'"
proof -
  let ?p = "pos + length w"
  have c_ws: "\<not> is_ws c" using c by (auto simp: is_ws_def)
  have dt: "drop ?p bytes = t @ w' @ c # r" using drop_add[OF d] .
  have dw: "drop (?p + length t) bytes = w' @ c # r" using drop_add[OF dt] .
  have dc: "drop (?p + length t + length w') bytes = c # r" using drop_add[OF dw] .
  have behind: "skip_json_ws bytes (?p + length t) = ?p + length t + length w'"
    by (rule skip_json_ws_drop[OF dw ws(2)]) (simp add: c_ws)
  have start: "skip_json_ws bytes pos = ?p" if "t = b # t'" "\<not> is_ws b" for b t'
    by (rule skip_json_ws_drop[OF d ws(1)]) (simp add: that)
  have container: "skip_json_value bytes pos = Some (?p + length t)"
    if "t = o1 # s @ [c1]" "glides s" "o1 = 123 \<or> o1 = 91" "c1 = 125 \<or> c1 = 93" for o1 s c1
  proof -
    have "\<not> is_ws o1" using that(3) by (auto simp: is_ws_def)
    moreover have "container_loop bytes ?p 0 = Some (?p + length s + 2)"
      using container_end[OF that(2) _ that(3,4), of ?p bytes "w' @ c # r" 0] dt that(1) by simp
    ultimately show ?thesis
      using that(1,3) start slice_get_drop0[of ?p bytes o1] dt
      by (auto simp: skip_json_value_def skip_json_container_def)
  qed
  from v show ?thesis
  proof (cases rule: tree.cases)
    case (tree_scalar)
    note sc = json_scalar_no_structural[OF tree_scalar(2)]
    obtain b t' where t: "t = b # t'" using json_scalar_nonempty[OF tree_scalar(2)] by (cases t) auto
    have b: "\<not> is_ws b" "\<not> is_structural b" using sc t by auto
    have sep: "\<forall>b \<in> set (t @ w'). b \<noteq> 44 \<and> b \<noteq> 125 \<and> b \<noteq> 93"
      using sc(1) ws_no_structural[OF ws(2)] by (auto simp: list_all_iff is_structural_def)
    have "scalar_end bytes ?p = ?p + length (t @ w')"
      by (rule scalar_end_drop[OF _ sep c]) (simp add: dt)
    moreover have "skip_json_ws bytes (?p + length t + length w') = ?p + length t + length w'"
      using skip_json_ws_drop[of "?p + length t + length w'" bytes "[]" "c # r"] dc c_ws by simp
    ultimately show ?thesis
      using start[OF t b(1)] slice_get_drop0[of ?p bytes b] dt t b(2)
      by (auto simp: skip_json_value_def is_structural_def add.assoc)
  next
    case (tree_string body)
    then have "scan_json_string_end bytes ?p = Some (?p + 1 + length body)"
      using dt by (intro scan_string[of _ _ _ "w' @ c # r"]) (simp_all add: json_string_unquoted)
    moreover have "\<not> is_ws 34" by (simp add: is_ws_def)
    ultimately show ?thesis
      using start[of 34 "body @ [34]"] slice_get_drop0[of ?p bytes 34] dt tree_string(1) behind
      by (simp add: skip_json_value_def add.assoc)
  next
    case (tree_empty_array w1)
    with container[of 91 w1 93] behind glides_ws show ?thesis by auto
  next
    case (tree_array es vs)
    with container[of 91 es 93] behind tree_glides(1) show ?thesis by auto
  next
    case (tree_empty_object w1)
    with container[of 123 w1 125] behind glides_ws show ?thesis by auto
  next
    case (tree_object ms kvs)
    with container[of 123 ms 125] behind tree_glides(2) show ?thesis by auto
  qed
qed

section \<open>The keys of an object\<close>

text \<open>One member: the key is collected and the scan stands on the separator.\<close>

lemma raw_keys_member:
  assumes ws: "ws w" "ws w1" "ws w2" "ws w3" and k: "json_string (34 # k @ [34])" and v: "tree t v"
    and d: "drop pos obj = w @ (34 # k @ [34]) @ w1 @ 58 # w2 @ t @ w3 @ c # r" and c: "c = 44 \<or> c = 125"
  defines "p \<equiv> pos + length (w @ (34 # k @ [34]) @ w1 @ 58 # w2 @ t @ w3)"
  shows "raw_keys_loop obj keys pos = (if c = 44 then raw_keys_loop obj (keys @ [k]) (p + 1) else Ok (keys @ [k]))"
    "drop p obj = c # r"
proof -
  let ?q = "pos + length w"
  have dq: "drop ?q obj = 34 # k @ 34 # w1 @ 58 # w2 @ t @ w3 @ c # r" using drop_add[OF d] by simp
  have q: "skip_json_ws obj pos = ?q"
    using skip_json_ws_drop[of pos obj w "34 # k @ 34 # w1 @ 58 # w2 @ t @ w3 @ c # r"] d ws(1) by (simp add: is_ws_def)
  have se: "scan_json_string_end obj ?q = Some (?q + 1 + length k)"
    by (rule scan_string[OF dq]) (rule json_string_unquoted[OF k])
  have dk: "drop (?q + 1 + length k) obj = 34 # w1 @ 58 # w2 @ t @ w3 @ c # r"
    using drop_add[of ?q obj "34 # k"] dq by simp
  have key: "slice_at obj (?q + 1) (?q + 1 + length k) = (Ok k :: (bytes, unit) outcome)"
    using slice_of_drop[of ?q obj "[34]" k "34 # w1 @ 58 # w2 @ t @ w3 @ c # r"] dq drop_eq_ConsD[OF dk]
    by (simp add: slice_at_def)
  have d1: "drop (?q + length k + 2) obj = w1 @ 58 # w2 @ t @ w3 @ c # r"
    using drop_eq_ConsD[OF dk] by simp
  have w1: "skip_json_ws obj (?q + length k + 2) = ?q + length k + 2 + length w1"
    by (rule skip_json_ws_drop[OF d1 ws(2)]) (simp add: is_ws_def)
  have d2: "drop (?q + length k + 2 + length w1) obj = 58 # w2 @ t @ w3 @ c # r" using drop_add[OF d1] .
  from drop_eq_ConsD[OF d2] have d3: "drop (?q + length k + 2 + length w1 + 1) obj = w2 @ t @ w3 @ c # r" by simp
  from skip_value[OF v ws(3,4) d3 c] obtain e where e:
    "skip_json_value obj (?q + length k + 2 + length w1 + 1) = Some e" "skip_json_ws obj e = p"
    by (auto simp: p_def algebra_simps)
  show dp: "drop p obj = c # r"
    using drop_add[of pos obj "w @ (34 # k @ [34]) @ w1 @ 58 # w2 @ t @ w3" "c # r"] d by (simp add: p_def)
  show "raw_keys_loop obj keys pos = (if c = 44 then raw_keys_loop obj (keys @ [k]) (p + 1) else Ok (keys @ [k]))"
    using q se key w1 e slice_get_drop0[OF dq] slice_get_drop0[OF d2] slice_get_drop0[OF dp] c
    by (subst raw_keys_loop.simps) (auto simp: Let_def)
qed

lemma raw_keys_members:
  "tree t v \<Longrightarrow> True" "elements es vs \<Longrightarrow> True"
  "members ms kvs \<Longrightarrow> drop pos obj = ms @ 125 # r \<Longrightarrow> raw_keys_loop obj keys pos = Ok (keys @ map fst kvs)"
proof (induction arbitrary: and and pos keys rule: tree_elements_members.inducts)
  case (members_one w k w1 w2 t v w3)
  with raw_keys_member(1)[of w w1 w2 w3 k t v pos obj 125 r keys] show ?case by simp
next
  case (members_more w k w1 w2 t v w3 ms kvs)
  then have d: "drop pos obj = w @ (34 # k @ [34]) @ w1 @ 58 # w2 @ t @ w3 @ 44 # ms @ 125 # r" by simp
  note h = members_more.hyps
  note m = raw_keys_member(1)[OF h(1,3,4,6,2,5) d, of keys] raw_keys_member(2)[OF h(1,3,4,6,2,5) d]
  from drop_eq_ConsD[OF m(2)] members_more.IH(2) m(1) show ?case by simp
qed simp_all

lemma raw_object_keys_tree:
  assumes "tree obj (JObject kvs)"
  shows "raw_object_keys obj = Ok (map fst kvs)"
  using assms
proof (cases rule: tree.cases)
  case (tree_empty_object w)
  have "skip_json_ws obj 0 = 0" "skip_json_ws obj 1 = 1 + length w"
    using skip_json_ws_drop[of 0 obj "[]" obj] skip_json_ws_drop[of 1 obj w "[125]"] tree_empty_object
    by (simp_all add: is_ws_def)
  then show ?thesis
    using tree_empty_object slice_get_drop0[of 0 obj] slice_get_drop0[of "1 + length w" obj 125 "[]"]
    by (simp add: raw_object_keys_def raw_keys_loop.simps[of "123 # w @ [125]" "[]" "Suc 0"] Let_def)
next
  case (tree_object ms)
  have "skip_json_ws obj 0 = 0"
    using skip_json_ws_drop[of 0 obj "[]" obj] tree_object by (simp add: is_ws_def)
  with raw_keys_members(3)[of ms kvs 1 obj "[]" "[]"] tree_object slice_get_drop0[of 0 obj]
  show ?thesis by (simp add: raw_object_keys_def)
qed

end
