(* ===== verification/Fuzz_Ffi.thy ===== *)
theory Fuzz_Ffi
  imports Fuzz_Depth Fuzz_Lazy
begin

text \<open>
  \<open>fuzz/fuzz_targets/fuzz_ffi_ops.rs\<close>: a driver of the C interface that parses, reads, navigates and frees in
  the order its input says, with a bounded store of cursors. A step returns the codes the calls
  returned, which the target passes to \<open>black_box\<close>; \<open>Panic\<close> is a failed assertion or a read outside the
  memory a string reference spans. The driver's runs are shown to be clients in the sense of \<open>Calls\<close>.
\<close>

section \<open>The state\<close>

definition MAX_OPS :: nat where
  "MAX_OPS = 256"

definition MAX_CURSORS :: nat where
  "MAX_CURSORS = 16"

datatype fuzz_op =
    Parse bytes
  | GetStr u8 bytes
  | GetI64 u8 bytes
  | GetF64 u8 bytes
  | GetBool u8 bytes
  | CursorField u8 bytes
  | CursorIndex u8 u32
  | ObjectEntryAt u8 u32
  | Free

record fuzz_case =
  case_json :: bytes
  case_ops :: "fuzz_op list"

record fuzz_state =
  fz_doc :: "nat option"
  fz_cursors :: "qjson_cursor list"
  fz_heap :: heap

type_synonym run = "(int list \<times> fuzz_state, unit) outcome"

definition fuzz_state_default :: fuzz_state where
  "fuzz_state_default = \<lparr>fz_doc = None, fz_cursors = [], fz_heap = (\<lambda>_. None)\<rparr>"

definition ffi_bytes :: "bytes \<Rightarrow> c_slice" where
  "ffi_bytes b = (if b = [] then Null 0 else Bytes b)"

text \<open>What a written string pointer and its length are used for; nothing written is a null pointer of length 0.\<close>

definition consume_ffi_bytes :: "heap \<Rightarrow> nat option \<Rightarrow> str_ref option \<Rightarrow> (u8, unit) outcome" where
  "consume_ffi_bytes h doc r =
     (case r of
        None \<Rightarrow> Ok 0
      | Some ref \<Rightarrow>
          let len = ref_len ref in
          if len = 0 then Ok 0
          else
            (case Option.bind doc h of
               None \<Rightarrow> Panic
             | Some d \<Rightarrow>
                 let bytes = ref_bytes (doc_buf d) (scratch d) ref in
                 and_then (at bytes 0) (\<lambda>a.
                 and_then (at bytes (len div 2)) (\<lambda>b.
                 and_then (at bytes (len - 1)) (\<lambda>c. Ok (a XOR b XOR c))))))"

definition cursor_ptr :: "fuzz_state \<Rightarrow> u8 \<Rightarrow> qjson_cursor option" where
  "cursor_ptr s slot =
     (if fz_cursors s = [] then None else Some (fz_cursors s ! (unat slot mod length (fz_cursors s))))"

definition store_cursor :: "qjson_cursor \<Rightarrow> u8 \<Rightarrow> fuzz_state \<Rightarrow> fuzz_state" where
  "store_cursor c slot s =
     (if length (fz_cursors s) < MAX_CURSORS then s\<lparr>fz_cursors := fz_cursors s @ [c]\<rparr>
      else s\<lparr>fz_cursors := (fz_cursors s)[unat slot mod MAX_CURSORS := c]\<rparr>)"

section \<open>The operations\<close>

definition state_free :: "fuzz_state \<Rightarrow> fuzz_state" where
  "state_free s = \<lparr>fz_doc = None, fz_cursors = [], fz_heap = qjson_free (fz_heap s) (fz_doc s)\<rparr>"

text \<open>A cursor the target was given is stored if the call succeeded.\<close>

definition store_if_ok :: "int \<Rightarrow> qjson_cursor option \<Rightarrow> u8 \<Rightarrow> fuzz_state \<Rightarrow> fuzz_state" where
  "store_if_ok rc w slot s = (if rc = 0 then store_cursor (written zeroed_cursor w) slot s else s)"

definition state_parse :: "scanner \<Rightarrow> target \<Rightarrow> nat \<Rightarrow> bytes \<Rightarrow> fuzz_state \<Rightarrow> run" where
  "state_parse sc tgt addr json s =
     (let s = state_free s;
          (doc, err, h) = qjson_parse sc tgt addr (fz_heap s) (Bytes json) True;
          code = qe_code (written qjson_error_default err);
          s = s\<lparr>fz_doc := doc, fz_heap := h\<rparr> in
      if doc = None then Ok ([code], s)
      else
        (let (rc, root, h) = qjson_open (fz_heap s) doc (Null 0) True in
         Ok ([code, rc], store_if_ok rc root 0 (s\<lparr>fz_heap := h\<rparr>))))"

definition consume_if_ok :: "int \<Rightarrow> heap \<Rightarrow> nat option \<Rightarrow> str_ref option \<Rightarrow> (u8, unit) outcome" where
  "consume_if_ok rc h doc r = (if rc = 0 then consume_ffi_bytes h doc r else Ok 0)"

definition state_get_str :: "target \<Rightarrow> u8 \<Rightarrow> bytes \<Rightarrow> fuzz_state \<Rightarrow> run" where
  "state_get_str tgt slot path s =
     (let (rc, r, h) = qjson_get_str tgt (fz_heap s) (fz_doc s) (ffi_bytes path) True in
      and_then (consume_if_ok rc h (fz_doc s) r) (\<lambda>_.
        let c = cursor_ptr s slot;
            (rc', r', h) = qjson_cursor_get_str tgt h c (ffi_bytes path) True in
        and_then (consume_if_ok rc' h (Option.bind c qc_doc) r') (\<lambda>_.
          Ok ([rc, rc'], s\<lparr>fz_heap := h\<rparr>))))"

definition state_get_i64 :: "u8 \<Rightarrow> bytes \<Rightarrow> fuzz_state \<Rightarrow> run" where
  "state_get_i64 slot path s =
     (let (rc, _, h) = qjson_get_i64 (fz_heap s) (fz_doc s) (ffi_bytes path) True;
          (rc', _, h) = qjson_cursor_get_i64 h (cursor_ptr s slot) (ffi_bytes path) True in
      Ok ([rc, rc'], s\<lparr>fz_heap := h\<rparr>))"

definition state_get_f64 :: "u8 \<Rightarrow> bytes \<Rightarrow> fuzz_state \<Rightarrow> run" where
  "state_get_f64 slot path s =
     (let (rc, _, h) = qjson_get_f64 (fz_heap s) (fz_doc s) (ffi_bytes path) True;
          (rc', _, h) = qjson_cursor_get_f64 h (cursor_ptr s slot) (ffi_bytes path) True in
      Ok ([rc, rc'], s\<lparr>fz_heap := h\<rparr>))"

definition state_get_bool :: "u8 \<Rightarrow> bytes \<Rightarrow> fuzz_state \<Rightarrow> run" where
  "state_get_bool slot path s =
     (let (rc, _, h) = qjson_get_bool (fz_heap s) (fz_doc s) (ffi_bytes path) True;
          (rc', _, h) = qjson_cursor_get_bool h (cursor_ptr s slot) (ffi_bytes path) True in
      Ok ([rc, rc'], s\<lparr>fz_heap := h\<rparr>))"

definition state_cursor_field :: "u8 \<Rightarrow> bytes \<Rightarrow> fuzz_state \<Rightarrow> run" where
  "state_cursor_field slot key s =
     (let (rc, out, h) = qjson_cursor_field (fz_heap s) (cursor_ptr s slot) (ffi_bytes key) True in
      Ok ([rc], store_if_ok rc out slot (s\<lparr>fz_heap := h\<rparr>)))"

definition state_cursor_index :: "u8 \<Rightarrow> u32 \<Rightarrow> fuzz_state \<Rightarrow> run" where
  "state_cursor_index slot i s =
     (let (rc, out, h) = qjson_cursor_index (fz_heap s) (cursor_ptr s slot) (unat i) True in
      Ok ([rc], store_if_ok rc out slot (s\<lparr>fz_heap := h\<rparr>)))"

definition state_object_entry_at :: "target \<Rightarrow> u8 \<Rightarrow> u32 \<Rightarrow> fuzz_state \<Rightarrow> run" where
  "state_object_entry_at tgt slot i s =
     (let c = cursor_ptr s slot;
          (rc, w, h) = qjson_cursor_object_entry_at tgt (fz_heap s) c (unat i) True in
      and_then (consume_if_ok rc h (Option.bind c qc_doc) (map_option fst w)) (\<lambda>_.
        Ok ([rc], store_if_ok rc (map_option snd w) slot (s\<lparr>fz_heap := h\<rparr>))))"

fun state_apply :: "scanner \<Rightarrow> target \<Rightarrow> nat \<Rightarrow> fuzz_op \<Rightarrow> fuzz_state \<Rightarrow> run" where
  "state_apply sc tgt addr (Parse json) s = state_parse sc tgt addr json s"
| "state_apply sc tgt addr (GetStr slot path) s = state_get_str tgt slot path s"
| "state_apply sc tgt addr (GetI64 slot path) s = state_get_i64 slot path s"
| "state_apply sc tgt addr (GetF64 slot path) s = state_get_f64 slot path s"
| "state_apply sc tgt addr (GetBool slot path) s = state_get_bool slot path s"
| "state_apply sc tgt addr (CursorField slot key) s = state_cursor_field slot key s"
| "state_apply sc tgt addr (CursorIndex slot i) s = state_cursor_index slot i s"
| "state_apply sc tgt addr (ObjectEntryAt slot i) s = state_object_entry_at tgt slot i s"
| "state_apply sc tgt addr Free s = Ok ([], state_free s)"

fun apply_all :: "scanner \<Rightarrow> target \<Rightarrow> nat \<Rightarrow> fuzz_op list \<Rightarrow> fuzz_state \<Rightarrow> run" where
  "apply_all sc tgt addr [] s = Ok ([], s)"
| "apply_all sc tgt addr (op # ops) s =
     and_then (state_apply sc tgt addr op s) (\<lambda>(codes, s).
     and_then (apply_all sc tgt addr ops s) (\<lambda>(codes', s). Ok (codes @ codes', s)))"

text \<open>The state is dropped at the end, which frees the document.\<close>

definition fuzz_ffi_ops :: "scanner \<Rightarrow> target \<Rightarrow> nat \<Rightarrow> fuzz_case \<Rightarrow> run" where
  "fuzz_ffi_ops sc tgt addr cs =
     and_then (state_parse sc tgt addr (case_json cs) fuzz_state_default) (\<lambda>(codes, s).
     and_then (apply_all sc tgt addr (take MAX_OPS (case_ops cs)) s) (\<lambda>(codes', s).
       Ok (codes @ codes', state_free s)))"

section \<open>String references stay in their buffers\<close>

definition ref_fits :: "document \<Rightarrow> str_ref \<Rightarrow> bool" where
  "ref_fits d r \<longleftrightarrow> length (ref_bytes (doc_buf d) (scratch d) r) = ref_len r"

lemma decode_string_fits:
  assumes "decode_string tgt buf start end_pos s skipping = (s', Ok r)"
  shows "length (ref_bytes buf s' r) = ref_len r"
proof -
  from assms have "slice_at buf start end_pos \<noteq> Panic" "slice_at buf start end_pos \<noteq> Err e" for e
    by (auto simp: decode_string_def slice_at_def split: if_splits)
  then have b: "start \<le> end_pos" "end_pos \<le> length buf" "slice_at buf start end_pos = (Ok (slice start end_pos buf) :: (bytes, qjson_err) outcome)"
    by (auto simp: slice_at_def split: if_splits)
  with assms show ?thesis
    by (auto simp: decode_string_def slice_def split: outcome.splits if_splits prod.splits)
qed

lemma read_str_fits: "read_str tgt d cur = (Ok r, d') \<Longrightarrow> ref_fits d' r"
  by (auto simp: read_str_def ref_fits_def or_set_offset_def bind_doc_def Let_def dest: decode_string_fits
      split: outcome.splits if_splits prod.splits)

lemma decode_key_fits: "decode_key tgt d i j = (Ok r, d') \<Longrightarrow> ref_fits d' r"
  by (auto simp: decode_key_def ref_fits_def Let_def dest: decode_string_fits split: outcome.splits prod.splits)

lemma entry_at_fits: "object_entry_at tgt p d cur i = (Ok (r, c), d') \<Longrightarrow> ref_fits d' r"
  by (auto simp: object_entry_at_def or_set_offset_def bind_doc_def dest: decode_key_fits split: outcome.splits prod.splits)

lemma after_nav_fits: "after_nav nav (read_str tgt) d cur = (Ok r, d') \<Longrightarrow> ref_fits d' r"
  by (auto simp: after_nav_def or_set_offset_def bind_doc_def dest: read_str_fits split: outcome.splits prod.splits)

lemma consume_ok:
  assumes "\<And>r. w = Some r \<Longrightarrow> \<exists>p d. doc = Some p \<and> h p = Some d \<and> ref_fits d r"
  shows "\<exists>acc. consume_if_ok rc h doc w = Ok acc"
proof (cases w)
  case None
  then show ?thesis by (simp add: consume_if_ok_def consume_ffi_bytes_def)
next
  case (Some r)
  from assms[OF Some] obtain p d where d: "doc = Some p" "h p = Some d" "length (ref_bytes (doc_buf d) (scratch d) r) = ref_len r"
    by (auto simp: ref_fits_def)
  then show ?thesis by (auto simp: Some consume_if_ok_def consume_ffi_bytes_def Let_def at_def)
qed

section \<open>The invariant\<close>

text \<open>
  At most one document lives, the one of the state, and the stored cursors are fine in it. One that a call
  did not write would be the zero cursor, which is too.
\<close>

definition fuzz_inv :: "fuzz_state \<Rightarrow> bool" where
  "fuzz_inv s \<longleftrightarrow> valid_heap (fz_heap s) \<and> live (fz_heap s) (fz_doc s) \<and>
     (\<forall>p. fz_heap s p \<noteq> None \<longrightarrow> fz_doc s = Some p) \<and>
     (\<forall>c \<in> set (fz_cursors s). cursor_ok (fz_heap s) (Some c)) \<and> length (fz_cursors s) \<le> MAX_CURSORS"

definition fine :: "run \<Rightarrow> bool" where
  "fine r \<longleftrightarrow> (\<exists>codes s. r = Ok (codes, s) \<and> err_code QJSON_OOM \<notin> set codes \<and> fuzz_inv s)"

lemma fine_Ok [simp]: "fine (Ok (codes, s)) \<longleftrightarrow> err_code QJSON_OOM \<notin> set codes \<and> fuzz_inv s"
  by (simp add: fine_def)

lemma fine_then:
  assumes "fine r" "\<And>codes s. err_code QJSON_OOM \<notin> set codes \<Longrightarrow> fuzz_inv s \<Longrightarrow> fine (f (codes, s))"
  shows "fine (and_then r f)"
  using assms by (auto simp: fine_def)

lemma heap_keeps_live: "heap_keeps h h' \<Longrightarrow> (h' p = None) = (h p = None)"
  unfolding heap_keeps_def by (metis option.rel_distinct option.rel_sel)

lemma fuzz_inv_keeps: "fuzz_inv s \<Longrightarrow> heap_keeps (fz_heap s) h \<Longrightarrow> fuzz_inv (s\<lparr>fz_heap := h\<rparr>)"
  by (auto simp: fuzz_inv_def live_def heap_keeps_live heap_keeps_valid cursor_ok_keeps split: option.splits)

lemma cursor_ptr_ok: "fuzz_inv s \<Longrightarrow> cursor_ok (fz_heap s) (cursor_ptr s slot)"
  by (auto simp: fuzz_inv_def cursor_ptr_def) (simp add: cursor_ok_def cursor_to_internal_def)

lemma store_cursor_inv: "fuzz_inv s \<Longrightarrow> cursor_ok (fz_heap s) (Some c) \<Longrightarrow> fuzz_inv (store_cursor c slot s)"
  by (auto simp: fuzz_inv_def store_cursor_def dest!: subsetD[OF set_update_subset_insert])

lemma zeroed_cursor_ok: "cursor_ok h (Some zeroed_cursor)"
  by (simp add: cursor_ok_def cursor_to_internal_def zeroed_cursor_def)

lemma store_inv:
  assumes "fuzz_inv s" "\<And>c. w = Some c \<Longrightarrow> cursor_ok (fz_heap s) (Some c)"
  shows "fuzz_inv (store_if_ok rc w slot s)"
  using assms by (cases w) (simp_all add: store_if_ok_def written_def store_cursor_inv zeroed_cursor_ok)

lemma state_free_inv: "fuzz_inv s \<Longrightarrow> state_free s = fuzz_state_default"
  by (cases "fz_doc s") (auto simp: fuzz_inv_def state_free_def fuzz_state_default_def qjson_free_def fun_eq_iff)

lemma default_inv: "fuzz_inv fuzz_state_default"
  by (simp add: fuzz_inv_def fuzz_state_default_def valid_heap_def live_def)

section \<open>Every operation keeps it\<close>

text \<open>The calls that read.\<close>

lemma two_reads:
  assumes inv: "fuzz_inv s" and r: "root_read tgt rd (fz_heap s) (fz_doc s) path True = (rc, h)"
    and c: "cursor_read tgt rd h (cursor_ptr s slot) path True = (rc', h')"
  shows "rc \<noteq> err_code QJSON_OOM" "rc' \<noteq> err_code QJSON_OOM" "fuzz_inv (s\<lparr>fz_heap := h'\<rparr>)"
proof -
  have valid: "valid_heap (fz_heap s)" "live (fz_heap s) (fz_doc s)" using inv by (simp_all add: fuzz_inv_def)
  from root_read_call[OF valid, of tgt rd path True] r
  have 1: "rc \<noteq> err_code QJSON_OOM" "heap_keeps (fz_heap s) h" by (simp_all add: safe_call_def)
  from cursor_read_call[OF heap_keeps_valid[OF 1(2) valid(1)] cursor_ok_keeps[OF 1(2) cursor_ptr_ok[OF inv]], of tgt rd slot path True] c
  have 2: "rc' \<noteq> err_code QJSON_OOM" "heap_keeps h h'" by (simp_all add: safe_call_def)
  show "rc \<noteq> err_code QJSON_OOM" "rc' \<noteq> err_code QJSON_OOM" "fuzz_inv (s\<lparr>fz_heap := h'\<rparr>)"
    using 1 2 fuzz_inv_keeps[OF inv heap_keeps_trans[OF 1(2) 2(2)]] by simp_all
qed

lemma get_numbers_fine:
  assumes "fuzz_inv s"
  shows "fine (state_get_i64 slot path s)" "fine (state_get_f64 slot path s)" "fine (state_get_bool slot path s)"
  using two_reads[OF assms, of undefined R_i64 "ffi_bytes path" _ _ slot] two_reads[OF assms, of undefined R_f64 "ffi_bytes path" _ _ slot]
    two_reads[OF assms, of undefined R_bool "ffi_bytes path" _ _ slot]
  by (simp_all add: state_get_i64_def state_get_f64_def state_get_bool_def code_heap_def split: prod.splits)

text \<open>A call on a cursor that wrote something ran on the document of the cursor.\<close>

lemma cursor_writes:
  assumes inv: "fuzz_inv s" and k: "heap_keeps (fz_heap s) h" and body: "\<And>p. safe_body (body p)"
    and r: "cursor_body h (cursor_ptr s slot) ok body = (rc, Some x, h')"
  shows "\<exists>p. Option.bind (cursor_ptr s slot) qc_doc = Some p \<and> wrote h' p (body p) x"
proof -
  let ?c = "cursor_ptr s slot"
  have valid: "valid_heap h" using k inv by (auto simp: fuzz_inv_def intro: heap_keeps_valid)
  have ok: "cursor_ok h ?c" by (rule cursor_ok_keeps[OF k cursor_ptr_ok[OF inv]])
  from r obtain p cur where p: "cursor_to_internal ?c = Ok (p, cur)"
    by (auto simp: cursor_body_def ffi_catch_def Let_def split: outcome.splits if_splits prod.splits)
  note s = cursor_body_safe[OF valid ok body r]
  from s(3) obtain q where q: "wrote h' q (body q) x" by blast
  then have "h' q \<noteq> None" by (auto simp: wrote_def)
  then have "fz_doc s = Some q" using inv by (auto simp: fuzz_inv_def heap_keeps_live[OF s(2)] heap_keeps_live[OF k])
  moreover have "h p \<noteq> None" using ok p by (auto simp: cursor_ok_def)
  then have "fz_doc s = Some p" using inv by (auto simp: fuzz_inv_def heap_keeps_live[OF k])
  moreover have "Option.bind ?c qc_doc = Some p"
    using p by (auto simp: cursor_to_internal_def split: option.splits)
  ultimately show ?thesis using q by auto
qed

lemma get_str_fine:
  assumes inv: "fuzz_inv s"
  shows "fine (state_get_str tgt slot path s)"
proof -
  obtain rc r h where r: "qjson_get_str tgt (fz_heap s) (fz_doc s) (ffi_bytes path) True = (rc, r, h)" by (metis prod_cases3)
  obtain rc' r' h' where r': "qjson_cursor_get_str tgt h (cursor_ptr s slot) (ffi_bytes path) True = (rc', r', h')" by (metis prod_cases3)
  note codes = two_reads[OF inv, of tgt R_str "ffi_bytes path" rc h slot rc' h', simplified, unfolded r r' code_heap_def, simplified]
  have valid: "valid_heap (fz_heap s)" "live (fz_heap s) (fz_doc s)" using inv by (simp_all add: fuzz_inv_def)
  note root = root_op_safe[OF valid safe_readers(7) r[unfolded qjson_get_str_def]]
  have "\<exists>p d. fz_doc s = Some p \<and> h p = Some d \<and> ref_fits d x" if "r = Some x" for x
    using root(3)[OF that] by (auto simp: wrote_def dest: read_str_fits)
  from consume_ok[OF this] obtain a where a: "consume_if_ok rc h (fz_doc s) r = Ok a" by blast
  note run = r'[unfolded qjson_cursor_get_str_def cursor_op_nav]
  have "\<exists>p d. Option.bind (cursor_ptr s slot) qc_doc = Some p \<and> h' p = Some d \<and> ref_fits d x" if "r' = Some x" for x
    using cursor_writes[OF inv root(2) safe_after_nav[OF safe_nav_resolve safe_readers(7)] run[unfolded that]]
    by (auto simp: wrote_def dest: after_nav_fits)
  from consume_ok[OF this] obtain b where b: "consume_if_ok rc' h' (Option.bind (cursor_ptr s slot) qc_doc) r' = Ok b" by blast
  show ?thesis using codes by (simp add: state_get_str_def r r' a b)
qed

text \<open>The calls that navigate.\<close>

lemma navigate_fine:
  assumes inv: "fuzz_inv s" and r: "cursor_body (fz_heap s) (cursor_ptr s slot) ok (\<lambda>p. after_nav nav (give_cursor p)) = (rc, w, h)"
    and nav: "safe_nav nav"
  shows "fine (Ok ([rc], store_if_ok rc w slot (s\<lparr>fz_heap := h\<rparr>)))"
proof -
  have "valid_heap (fz_heap s)" using inv by (simp add: fuzz_inv_def)
  from nav_gives[OF this cursor_ptr_ok[OF inv] nav, of slot ok] r
  have g: "rc \<noteq> err_code QJSON_OOM" "heap_keeps (fz_heap s) h" "\<And>c. w = Some c \<Longrightarrow> cursor_ok h (Some c)"
    by (simp_all add: gives_cursor_def safe_call_def)
  with store_inv[OF fuzz_inv_keeps[OF inv g(2)], of w rc slot] show ?thesis by simp
qed

lemma cursor_step_fine:
  assumes "fuzz_inv s"
  shows "fine (state_cursor_field slot key s)" "fine (state_cursor_index slot i s)"
  using navigate_fine[OF assms _ safe_nav_step]
  by (simp_all add: state_cursor_field_def state_cursor_index_def cursor_open_nav split: prod.split)

lemma entry_at_fine:
  assumes inv: "fuzz_inv s"
  shows "fine (state_object_entry_at tgt slot i s)"
proof -
  let ?c = "cursor_ptr s slot"
  obtain rc w h where r: "qjson_cursor_object_entry_at tgt (fz_heap s) ?c (unat i) True = (rc, w, h)" by (metis prod_cases3)
  have valid: "valid_heap (fz_heap s)" using inv by (simp add: fuzz_inv_def)
  note run = r[unfolded qjson_cursor_object_entry_at_def]
  note safe = cursor_body_safe[OF valid cursor_ptr_ok[OF inv] safe_object_entry_at run]
  have w: "\<exists>p. Option.bind ?c qc_doc = Some p \<and> (\<exists>d. h p = Some d \<and> ref_fits d k) \<and> cursor_ok h (Some c)" if "w = Some (k, c)" for k c
  proof -
    from cursor_writes[OF inv heap_keeps_refl safe_object_entry_at run[unfolded that]] obtain p where
      p: "Option.bind ?c qc_doc = Some p" "wrote h p (\<lambda>d cur. object_entry_at tgt p d cur (unat i)) (k, c)" by blast
    then show ?thesis
      by (fastforce simp: wrote_def dest: entry_at_fits object_entry_at_gives intro: internal_cursor_ok)
  qed
  have "\<exists>p d. Option.bind ?c qc_doc = Some p \<and> h p = Some d \<and> ref_fits d x" if "map_option fst w = Some x" for x
    using w that by fastforce
  from consume_ok[OF this] obtain a where a: "consume_if_ok rc h (Option.bind ?c qc_doc) (map_option fst w) = Ok a" by blast
  have "cursor_ok h (Some x)" if "map_option snd w = Some x" for x
    using w that by fastforce
  with store_inv[OF fuzz_inv_keeps[OF inv safe(2)], of "map_option snd w" rc slot] safe(1) show ?thesis
    by (simp add: state_object_entry_at_def r a)
qed

section \<open>No operation fails\<close>

text \<open>What the target is run on: any bytes, below 4 GiB.\<close>

definition op_fits :: "fuzz_op \<Rightarrow> bool" where
  "op_fits op \<longleftrightarrow> (case op of Parse json \<Rightarrow> length json < 2 ^ 32 | _ \<Rightarrow> True)"

context json_parser
begin

lemma state_parse_fine:
  assumes inv: "fuzz_inv s" and json: "length json < 2 ^ 32"
  shows "fine (state_parse scan tgt addr json s)"
proof -
  obtain doc e h where r: "qjson_parse scan tgt addr (\<lambda>_. None) (Bytes json) True = (doc, e, h)" by (metis prod_cases3)
  then obtain err where e: "e = Some err" and shape: "doc = None \<and> h = (\<lambda>_. None) \<or> doc = Some addr \<and> (\<exists>d. h = (\<lambda>_. None)(addr \<mapsto> d))"
    by (auto simp: qjson_parse_def qjson_parse_ex_def write_parse_error_def split: outcome.splits)
  have "parseable (Bytes json) (Some options_default)"
    using json by (simp add: parseable_def is_eager_def options_default_def)
  from parse_inv[OF client_new_inv _ this, of addr doc err h] r e
  have p: "qe_code err \<noteq> err_code QJSON_OOM" "valid_heap h"
    by (simp_all add: client_new_def qjson_parse_def api_inv_def)
  have inv1: "fuzz_inv \<lparr>fz_doc = doc, fz_cursors = [], fz_heap = h\<rparr>"
    using shape p(2) by (auto simp: fuzz_inv_def live_def split: if_splits)
  obtain rc w h' where o: "qjson_open h doc (Null 0) True = (rc, w, h')" by (metis prod_cases3)
  from open_gives[of h doc "Null 0" True] inv1 o
  have g: "rc \<noteq> err_code QJSON_OOM" "heap_keeps h h'" "\<And>c. w = Some c \<Longrightarrow> cursor_ok h' (Some c)"
    by (simp_all add: gives_cursor_def safe_call_def fuzz_inv_def)
  from store_inv[of "\<lparr>fz_doc = doc, fz_cursors = [], fz_heap = h'\<rparr>" w rc 0] fuzz_inv_keeps[OF inv1, of h'] g
  show ?thesis using p(1) inv1 e o
    by (cases doc) (simp_all add: state_parse_def state_free_inv[OF inv] fuzz_state_default_def r written_def Let_def)
qed

lemma state_apply_fine: "fuzz_inv s \<Longrightarrow> op_fits op \<Longrightarrow> fine (state_apply scan tgt addr op s)"
  by (cases op) (simp_all add: op_fits_def state_parse_fine get_str_fine get_numbers_fine cursor_step_fine entry_at_fine
      state_free_inv default_inv)

lemma apply_all_fine: "fuzz_inv s \<Longrightarrow> \<forall>op \<in> set ops. op_fits op \<Longrightarrow> fine (apply_all scan tgt addr ops s)"
proof (induction ops arbitrary: s)
  case (Cons op ops)
  have "fine (apply_all scan tgt addr ops s')" if "fuzz_inv s'" for s' using Cons.IH[OF that] Cons.prems(2) by simp
  then have "fine (and_then (apply_all scan tgt addr ops s') (\<lambda>(codes', s). Ok (codes @ codes', s)))"
    if "fuzz_inv s'" "err_code QJSON_OOM \<notin> set codes" for s' codes
    using that by (intro fine_then) auto
  moreover have "fine (state_apply scan tgt addr op s)" using state_apply_fine Cons.prems by simp
  ultimately show ?case unfolding apply_all.simps by (intro fine_then) (auto simp del: fine_Ok)
qed simp

lemma fuzz_ffi_ops_fine:
  assumes "op_fits (Parse (case_json cs))" "\<forall>op \<in> set (case_ops cs). op_fits op"
  shows "\<exists>codes. fuzz_ffi_ops scan tgt addr cs = Ok (codes, fuzz_state_default) \<and> err_code QJSON_OOM \<notin> set codes"
proof -
  have "fine (state_parse scan tgt addr (case_json cs) fuzz_state_default)"
    using assms(1) by (intro state_parse_fine default_inv) (simp_all add: op_fits_def)
  then obtain codes s where p: "state_parse scan tgt addr (case_json cs) fuzz_state_default = Ok (codes, s)"
    "err_code QJSON_OOM \<notin> set codes" "fuzz_inv s" unfolding fine_def by blast
  have "fine (apply_all scan tgt addr (take MAX_OPS (case_ops cs)) s)"
    using assms(2) p(3) by (intro apply_all_fine) (auto dest: in_set_takeD)
  then obtain codes' s' where a: "apply_all scan tgt addr (take MAX_OPS (case_ops cs)) s = Ok (codes', s')"
    "err_code QJSON_OOM \<notin> set codes'" "fuzz_inv s'" unfolding fine_def by blast
  then show ?thesis using p by (simp add: fuzz_ffi_ops_def state_free_inv)
qed

end

end
