(* ===== verification/Fuzz_Replay.thy ===== *)
theory Fuzz_Replay
  imports Fuzz_Ffi "HOL-Library.Finite_Map"
begin

text \<open>
  The replay of \<open>fuzz/fuzz_targets/fuzz_parse_lazy.rs\<close>: a document is parsed lazily, walked through the C
  interface into a value, with the reads in a varied order and by key and by path, and compared with the
  value \<open>serde_json\<close> reads. Numbers of \<open>serde_json\<close> are an abstract type with \<open>as_f64\<close> and \<open>from_f64\<close>; its
  maps, sorted by key there, are finite maps. A failed assertion, \<open>expect\<close> or read is \<open>Panic\<close>.
\<close>

section \<open>Values\<close>

datatype 'n json_val =
    Val_Null
  | Val_Bool bool
  | Val_Number 'n
  | Val_String bytes
  | Val_Array "'n json_val list"
  | Val_Object "(bytes, 'n json_val) fmap"

definition normalize_number :: "('n \<Rightarrow> f64 option) \<Rightarrow> (f64 \<Rightarrow> 'n option) \<Rightarrow> 'n \<Rightarrow> 'n option" where
  "normalize_number as_f64 from_f64 n = Option.bind (as_f64 n) from_f64"

text \<open>Every number in a value is replaced; one that cannot be converted is a panic.\<close>

definition normalize_numbers :: "('n \<Rightarrow> f64 option) \<Rightarrow> (f64 \<Rightarrow> 'n option) \<Rightarrow> 'n json_val \<Rightarrow> ('n json_val, unit) outcome" where
  "normalize_numbers as_f64 from_f64 v =
     (if \<forall>n \<in> set_json_val v. normalize_number as_f64 from_f64 n \<noteq> None
      then Ok (map_json_val (\<lambda>n. the (normalize_number as_f64 from_f64 n)) v)
      else Panic)"

datatype path_expected =
    Exp_Null
  | Exp_Bool bool
  | Exp_Number f64
  | Exp_String bytes
  | ArrayLen nat
  | ObjectLen nat

record path_check =
  pc_path :: bytes
  pc_expected :: path_expected

fun from_value :: "('n \<Rightarrow> f64 option) \<Rightarrow> 'n json_val \<Rightarrow> (path_expected, unit) outcome" where
  "from_value as_f64 Val_Null = Ok Exp_Null"
| "from_value as_f64 (Val_Bool b) = Ok (Exp_Bool b)"
| "from_value as_f64 (Val_Number n) = (case as_f64 n of None \<Rightarrow> Panic | Some x \<Rightarrow> Ok (Exp_Number x))"
| "from_value as_f64 (Val_String s) = Ok (Exp_String s)"
| "from_value as_f64 (Val_Array vs) = Ok (ArrayLen (length vs))"
| "from_value as_f64 (Val_Object m) = Ok (ObjectLen (fcard (fmdom m)))"

fun type_tag :: "path_expected \<Rightarrow> int" where
  "type_tag Exp_Null = 0"
| "type_tag (Exp_Bool _) = 1"
| "type_tag (Exp_Number _) = 2"
| "type_tag (Exp_String _) = 3"
| "type_tag (ArrayLen _) = 4"
| "type_tag (ObjectLen _) = 5"

definition MAX_PATH_CHECKS :: nat where
  "MAX_PATH_CHECKS = 256"

definition record_path_check :: "path_check list \<Rightarrow> bytes \<Rightarrow> path_expected \<Rightarrow> path_check list" where
  "record_path_check checks path e =
     (if MAX_PATH_CHECKS \<le> length checks then checks else checks @ [\<lparr>pc_path = path, pc_expected = e\<rparr>])"

section \<open>Calls\<close>

definition ffi_path :: "bytes \<Rightarrow> c_slice" where
  "ffi_path path = (if path = [] then Null 0 else Bytes path)"

text \<open>The assertion after every call that the code is 0.\<close>

definition expect_ok :: "'a c_ret \<Rightarrow> ('a option \<times> heap, unit) outcome" where
  "expect_ok r = (case r of (rc, x, h) \<Rightarrow> assert (rc = err_code QJSON_OK) (x, h))"

text \<open>
  The bytes a written pointer and length span, then the text they are, if they are UTF-8.
\<close>

definition raw_bytes :: "heap \<Rightarrow> nat option \<Rightarrow> str_ref option \<Rightarrow> (bytes, unit) outcome" where
  "raw_bytes h doc r =
     (case r of
        None \<Rightarrow> Ok []
      | Some ref \<Rightarrow>
          (case Option.bind doc h of
             None \<Rightarrow> Panic
           | Some d \<Rightarrow>
               let b = ref_bytes (doc_buf d) (scratch d) ref in
               if length b = ref_len ref then Ok b else Panic))"

definition from_utf8 :: "bytes \<Rightarrow> (bytes, unit) outcome" where
  "from_utf8 b = (if std_utf8 b then Ok b else Panic)"

definition type_value :: "qjson_type option \<Rightarrow> int" where
  "type_value t = (case t of None \<Rightarrow> -1 | Some t \<Rightarrow> int (type_code t))"

definition cursor_type_at :: "heap \<Rightarrow> qjson_cursor \<Rightarrow> bytes \<Rightarrow> (int \<times> heap, unit) outcome" where
  "cursor_type_at h cur path =
     and_then (expect_ok (qjson_cursor_typeof h (Some cur) (ffi_path path) True)) (\<lambda>(t, h). Ok (type_value t, h))"

definition cursor_type :: "heap \<Rightarrow> qjson_cursor \<Rightarrow> (int \<times> heap, unit) outcome" where
  "cursor_type h cur = cursor_type_at h cur []"

definition cursor_bool_at :: "heap \<Rightarrow> qjson_cursor \<Rightarrow> bytes \<Rightarrow> (bool \<times> heap, unit) outcome" where
  "cursor_bool_at h cur path =
     and_then (expect_ok (qjson_cursor_get_bool h (Some cur) (ffi_path path) True)) (\<lambda>(x, h). Ok (written (-1) x \<noteq> 0, h))"

definition cursor_number_at :: "heap \<Rightarrow> qjson_cursor \<Rightarrow> bytes \<Rightarrow> (f64 \<times> heap, unit) outcome" where
  "cursor_number_at h cur path =
     and_then (expect_ok (qjson_cursor_get_f64 h (Some cur) (ffi_path path) True)) (\<lambda>(x, h). Ok (written f64_zero x, h))"

definition cursor_string_at :: "target \<Rightarrow> heap \<Rightarrow> qjson_cursor \<Rightarrow> bytes \<Rightarrow> (bytes \<times> heap, unit) outcome" where
  "cursor_string_at tgt h cur path =
     and_then (expect_ok (qjson_cursor_get_str tgt h (Some cur) (ffi_path path) True)) (\<lambda>(r, h).
     and_then (raw_bytes h (qc_doc cur) r) (\<lambda>b.
     and_then (from_utf8 b) (\<lambda>s. Ok (s, h))))"

definition cursor_len_at :: "heap \<Rightarrow> qjson_cursor \<Rightarrow> bytes \<Rightarrow> (nat \<times> heap, unit) outcome" where
  "cursor_len_at h cur path =
     and_then (expect_ok (qjson_cursor_len h (Some cur) (ffi_path path) True)) (\<lambda>(n, h). Ok (written 0 n, h))"

definition cursor_bool :: "heap \<Rightarrow> qjson_cursor \<Rightarrow> (bool \<times> heap, unit) outcome" where
  "cursor_bool h cur =
     and_then (expect_ok (qjson_cursor_get_bool h (Some cur) (Null 0) True)) (\<lambda>(x, h). Ok (written (-1) x \<noteq> 0, h))"

definition cursor_number :: "(f64 \<Rightarrow> 'n option) \<Rightarrow> heap \<Rightarrow> qjson_cursor \<Rightarrow> ('n \<times> heap, unit) outcome" where
  "cursor_number from_f64 h cur =
     and_then (expect_ok (qjson_cursor_get_f64 h (Some cur) (Null 0) True)) (\<lambda>(x, h).
       case from_f64 (written f64_zero x) of None \<Rightarrow> Panic | Some n \<Rightarrow> Ok (n, h))"

definition cursor_string :: "target \<Rightarrow> heap \<Rightarrow> qjson_cursor \<Rightarrow> (bytes \<times> heap, unit) outcome" where
  "cursor_string tgt h cur =
     and_then (expect_ok (qjson_cursor_get_str tgt h (Some cur) (Null 0) True)) (\<lambda>(r, h).
     and_then (raw_bytes h (qc_doc cur) r) (\<lambda>b.
     and_then (from_utf8 b) (\<lambda>s. Ok (s, h))))"

definition replay_len :: "heap \<Rightarrow> qjson_cursor \<Rightarrow> (nat \<times> heap, unit) outcome" where
  "replay_len h cur =
     and_then (expect_ok (qjson_cursor_len h (Some cur) (Null 0) True)) (\<lambda>(n, h). Ok (written 0 n, h))"

definition cursor_object_entry_at :: "target \<Rightarrow> heap \<Rightarrow> qjson_cursor \<Rightarrow> nat \<Rightarrow> (bytes \<times> qjson_cursor \<times> heap, unit) outcome" where
  "cursor_object_entry_at tgt h cur i =
     and_then (expect_ok (qjson_cursor_object_entry_at tgt h (Some cur) i True)) (\<lambda>(w, h).
     and_then (raw_bytes h (qc_doc cur) (map_option fst w)) (\<lambda>b.
     and_then (from_utf8 b) (\<lambda>key. Ok (key, written zeroed_cursor (map_option snd w), h))))"

definition cursor_raw_object_keys :: "heap \<Rightarrow> qjson_cursor \<Rightarrow> bytes \<Rightarrow> nat \<Rightarrow> (bytes list \<times> heap, unit) outcome" where
  "cursor_raw_object_keys h cur data expected_len =
     and_then (expect_ok (qjson_cursor_bytes h (Some cur) True)) (\<lambda>(range, h).
       let (byte_start, byte_end) = written (0, 0) range in
       and_then (assert (byte_start \<le> byte_end \<and> byte_end \<le> length data) ()) (\<lambda>_.
       and_then (slice_at data byte_start byte_end) (\<lambda>obj.
       and_then (raw_object_keys obj) (\<lambda>keys. assert (length keys = expected_len) (keys, h)))))"

section \<open>The walk\<close>

definition varied_order :: "nat \<Rightarrow> nat list" where
  "varied_order len = (if len = 0 then [] else [len - 1, 0, len div 2] @ rev [0..<len])"

definition field_lookup_key_for_replay :: "bytes \<Rightarrow> bytes \<Rightarrow> bool \<Rightarrow> bytes option" where
  "field_lookup_key_for_replay decoded_key raw_key unique_decoded_key =
     (if unique_decoded_key \<and> decoded_key = raw_key then Some raw_key else None)"

text \<open>
  The functions of a container take the walk of its children as an argument: a cursor, the path to
  it (the source pushes a segment and truncates it again), whether the path names it, and the checks so far.
\<close>

type_synonym 'n visit = "heap \<Rightarrow> qjson_cursor \<Rightarrow> bytes \<Rightarrow> bool \<Rightarrow> path_check list \<Rightarrow>
  ('n json_val \<times> heap \<times> path_check list, unit) outcome"

definition cursor_index_value ::
  "'n visit \<Rightarrow> heap \<Rightarrow> qjson_cursor \<Rightarrow> nat \<Rightarrow> bytes \<Rightarrow> bool \<Rightarrow> path_check list \<Rightarrow>
     ('n json_val \<times> heap \<times> path_check list, unit) outcome" where
  "cursor_index_value visit h cur i path path_safe checks =
     and_then (expect_ok (qjson_cursor_index h (Some cur) i True)) (\<lambda>(child, h).
       visit h (written zeroed_cursor child) (if path_safe then append_index_segment path i else path) path_safe checks)"

fun index_values ::
  "'n visit \<Rightarrow> heap \<Rightarrow> qjson_cursor \<Rightarrow> nat list \<Rightarrow> bytes \<Rightarrow> bool \<Rightarrow> path_check list \<Rightarrow>
     ('n json_val list \<times> heap \<times> path_check list, unit) outcome" where
  "index_values visit h cur [] path path_safe checks = Ok ([], h, checks)"
| "index_values visit h cur (i # is) path path_safe checks =
     and_then (cursor_index_value visit h cur i path path_safe checks) (\<lambda>(v, h, checks).
     and_then (index_values visit h cur is path path_safe checks) (\<lambda>(vs, h, checks). Ok (v # vs, h, checks)))"

definition cursor_array ::
  "'n visit \<Rightarrow> heap \<Rightarrow> qjson_cursor \<Rightarrow> bytes \<Rightarrow> bool \<Rightarrow> path_check list \<Rightarrow>
     ('n json_val list \<times> heap \<times> path_check list, unit) outcome" where
  "cursor_array visit h cur path path_safe checks =
     and_then (replay_len h cur) (\<lambda>(len, h).
     and_then (index_values visit h cur [0..<len] path path_safe checks) (\<lambda>(values, h, checks).
     and_then (index_values visit h cur (varied_order len) [] False checks) (\<lambda>(_, h, checks).
       Ok (values, h, checks))))"

text \<open>The entries with their decoded and raw keys, and how often each decoded key occurs.\<close>

fun object_entries ::
  "target \<Rightarrow> heap \<Rightarrow> qjson_cursor \<Rightarrow> nat \<Rightarrow> bytes list \<Rightarrow> ((bytes \<times> bytes \<times> qjson_cursor) list \<times> heap, unit) outcome" where
  "object_entries tgt h cur i [] = Ok ([], h)"
| "object_entries tgt h cur i (raw_key # raw_keys) =
     and_then (cursor_object_entry_at tgt h cur i) (\<lambda>(key, value_cur, h).
     and_then (object_entries tgt h cur (i + 1) raw_keys) (\<lambda>(es, h). Ok ((key, raw_key, value_cur) # es, h)))"

definition key_counts :: "(bytes \<times> bytes \<times> qjson_cursor) list \<Rightarrow> bytes \<Rightarrow> nat" where
  "key_counts es = fold (\<lambda>(key, _, _) counts. counts(key := counts key + 1)) es (\<lambda>_. 0)"

type_synonym 'n entry = "bytes \<times> 'n json_val \<times> bytes option \<times> qjson_cursor"

fun object_values ::
  "'n visit \<Rightarrow> heap \<Rightarrow> (bytes \<Rightarrow> nat) \<Rightarrow> (bytes \<times> bytes \<times> qjson_cursor) list \<Rightarrow> bytes \<Rightarrow> bool \<Rightarrow> path_check list \<Rightarrow>
     ('n entry list \<times> heap \<times> path_check list, unit) outcome" where
  "object_values visit h counts [] path path_safe checks = Ok ([], h, checks)"
| "object_values visit h counts ((key, raw_key, value_cur) # es) path path_safe checks =
     (let lookup_key = field_lookup_key_for_replay key raw_key (counts key = 1);
          child_safe = (path_safe \<and> lookup_key \<noteq> None \<and> path_key_can_be_in_qjson_path key) in
      and_then (visit h value_cur (if child_safe then append_key_segment path key else path) child_safe checks) (\<lambda>(v, h, checks).
      and_then (object_values visit h counts es path path_safe checks) (\<lambda>(vs, h, checks).
        Ok ((key, v, lookup_key, value_cur) # vs, h, checks))))"

text \<open>Looking the fields up again, by key and in another order.\<close>

fun field_lookups ::
  "'n visit \<Rightarrow> heap \<Rightarrow> qjson_cursor \<Rightarrow> 'n entry list \<Rightarrow> nat list \<Rightarrow> path_check list \<Rightarrow> (heap \<times> path_check list, unit) outcome" where
  "field_lookups visit h cur es [] checks = Ok (h, checks)"
| "field_lookups visit h cur es (i # is) checks =
     and_then (at es i) (\<lambda>(key, expected, lookup_key, expected_cur).
       case lookup_key of
         None \<Rightarrow> field_lookups visit h cur es is checks
       | Some k \<Rightarrow>
           and_then (expect_ok (qjson_cursor_field h (Some cur) (Bytes k) True)) (\<lambda>(child, h).
             let child = written zeroed_cursor child in
             and_then (assert (qc_idx_start child = qc_idx_start expected_cur) ()) (\<lambda>_.
             and_then (assert (qc_idx_end child = qc_idx_end expected_cur) ()) (\<lambda>_.
             and_then (visit h child [] False checks) (\<lambda>(actual, h, checks).
             and_then (assert (actual = expected) ()) (\<lambda>_.
               field_lookups visit h cur es is checks))))))"

definition collect_map :: "(bytes \<times> 'n json_val) list \<Rightarrow> (bytes, 'n json_val) fmap" where
  "collect_map kvs = fold (\<lambda>(key, v). fmupd key v) kvs fmempty"

definition cursor_object ::
  "target \<Rightarrow> bytes \<Rightarrow> 'n visit \<Rightarrow> heap \<Rightarrow> qjson_cursor \<Rightarrow> bytes \<Rightarrow> bool \<Rightarrow> path_check list \<Rightarrow>
     ((bytes, 'n json_val) fmap \<times> heap \<times> path_check list, unit) outcome" where
  "cursor_object tgt data visit h cur path path_safe checks =
     and_then (replay_len h cur) (\<lambda>(len, h).
     and_then (cursor_raw_object_keys h cur data len) (\<lambda>(raw_keys, h).
     and_then (object_entries tgt h cur 0 raw_keys) (\<lambda>(raw_entries, h).
     and_then (object_values visit h (key_counts raw_entries) raw_entries path path_safe checks) (\<lambda>(es, h, checks).
     and_then (field_lookups visit h cur es (varied_order (length es)) checks) (\<lambda>(h, checks).
       Ok (collect_map (map (\<lambda>(key, v, _). (key, v)) es), h, checks))))))"

text \<open>The value by the type, and what is recorded for the path to it.\<close>

definition value_at ::
  "(f64 \<Rightarrow> 'n option) \<Rightarrow> target \<Rightarrow> bytes \<Rightarrow> 'n visit \<Rightarrow> int \<Rightarrow> 'n visit" where
  "value_at from_f64 tgt data visit ty h cur path path_safe checks =
     (if ty = 0 then Ok (Val_Null, h, checks)
      else if ty = 1 then and_then (cursor_bool h cur) (\<lambda>(b, h). Ok (Val_Bool b, h, checks))
      else if ty = 2 then and_then (cursor_number from_f64 h cur) (\<lambda>(n, h). Ok (Val_Number n, h, checks))
      else if ty = 3 then and_then (cursor_string tgt h cur) (\<lambda>(s, h). Ok (Val_String s, h, checks))
      else if ty = 4 then
        and_then (cursor_array visit h cur path path_safe checks) (\<lambda>(vs, h, checks). Ok (Val_Array vs, h, checks))
      else if ty = 5 then
        and_then (cursor_object tgt data visit h cur path path_safe checks) (\<lambda>(m, h, checks). Ok (Val_Object m, h, checks))
      else Panic)"

definition expected_at :: "('n \<Rightarrow> f64 option) \<Rightarrow> int \<Rightarrow> heap \<Rightarrow> qjson_cursor \<Rightarrow> 'n json_val \<Rightarrow> (path_expected \<times> heap, unit) outcome" where
  "expected_at as_f64 ty h cur v =
     (if ty = 4 then and_then (replay_len h cur) (\<lambda>(n, h). Ok (ArrayLen n, h))
      else if ty = 5 then and_then (replay_len h cur) (\<lambda>(n, h). Ok (ObjectLen n, h))
      else and_then (from_value as_f64 v) (\<lambda>e. Ok (e, h)))"

text \<open>
  The level argument is \<open>FUZZ_MAX_DEPTH + 1\<close> less the depth of the source; at 0 the assertion on the depth fails.
\<close>

fun cursor_to_value ::
  "('n \<Rightarrow> f64 option) \<Rightarrow> (f64 \<Rightarrow> 'n option) \<Rightarrow> target \<Rightarrow> bytes \<Rightarrow> nat \<Rightarrow> 'n visit" where
  "cursor_to_value as_f64 from_f64 tgt data 0 h cur path path_safe checks = Panic"
| "cursor_to_value as_f64 from_f64 tgt data (Suc levels) h cur path path_safe checks =
     and_then (cursor_type h cur) (\<lambda>(ty, h).
     and_then (value_at from_f64 tgt data (cursor_to_value as_f64 from_f64 tgt data levels) ty h cur path path_safe checks)
       (\<lambda>(v, h, checks).
         if path_safe then and_then (expected_at as_f64 ty h cur v) (\<lambda>(e, h). Ok (v, h, record_path_check checks path e))
         else Ok (v, h, checks)))"

section \<open>The getters on paths\<close>

definition root_type :: "heap \<Rightarrow> nat option \<Rightarrow> bytes \<Rightarrow> (int \<times> heap, unit) outcome" where
  "root_type h doc path = and_then (expect_ok (qjson_typeof h doc (ffi_path path) True)) (\<lambda>(t, h). Ok (type_value t, h))"

definition root_bool :: "heap \<Rightarrow> nat option \<Rightarrow> bytes \<Rightarrow> (bool \<times> heap, unit) outcome" where
  "root_bool h doc path =
     and_then (expect_ok (qjson_get_bool h doc (ffi_path path) True)) (\<lambda>(x, h). Ok (written (-1) x \<noteq> 0, h))"

definition root_number :: "heap \<Rightarrow> nat option \<Rightarrow> bytes \<Rightarrow> (f64 \<times> heap, unit) outcome" where
  "root_number h doc path =
     and_then (expect_ok (qjson_get_f64 h doc (ffi_path path) True)) (\<lambda>(x, h). Ok (written f64_zero x, h))"

definition root_string :: "target \<Rightarrow> heap \<Rightarrow> nat option \<Rightarrow> bytes \<Rightarrow> (bytes \<times> heap, unit) outcome" where
  "root_string tgt h doc path =
     and_then (expect_ok (qjson_get_str tgt h doc (ffi_path path) True)) (\<lambda>(r, h).
     and_then (raw_bytes h doc r) (\<lambda>b.
     and_then (from_utf8 b) (\<lambda>s. Ok (s, h))))"

definition root_len :: "heap \<Rightarrow> nat option \<Rightarrow> bytes \<Rightarrow> (nat \<times> heap, unit) outcome" where
  "root_len h doc path = and_then (expect_ok (qjson_len h doc (ffi_path path) True)) (\<lambda>(n, h). Ok (written 0 n, h))"

text \<open>Two reads that agree with each other and with the expected value; the heap after them.\<close>

definition same_reads ::
  "(heap \<Rightarrow> ('a \<times> heap, unit) outcome) \<Rightarrow> (heap \<Rightarrow> ('a \<times> heap, unit) outcome) \<Rightarrow> 'a \<Rightarrow> heap \<Rightarrow> (heap, unit) outcome" where
  "same_reads from_root from_cursor expected h =
     and_then (from_root h) (\<lambda>(root_value, h).
     and_then (from_cursor h) (\<lambda>(cursor_value, h).
     and_then (assert (root_value = cursor_value) ()) (\<lambda>_.
       assert (root_value = expected) h)))"

fun check_path :: "target \<Rightarrow> nat option \<Rightarrow> qjson_cursor \<Rightarrow> bytes \<Rightarrow> path_expected \<Rightarrow> heap \<Rightarrow> (heap, unit) outcome" where
  "check_path tgt doc root path Exp_Null h = Ok h"
| "check_path tgt doc root path (Exp_Bool b) h =
     same_reads (\<lambda>h. root_bool h doc path) (\<lambda>h. cursor_bool_at h root path) b h"
| "check_path tgt doc root path (Exp_Number x) h =
     same_reads (\<lambda>h. root_number h doc path) (\<lambda>h. cursor_number_at h root path) x h"
| "check_path tgt doc root path (Exp_String s) h =
     same_reads (\<lambda>h. root_string tgt h doc path) (\<lambda>h. cursor_string_at tgt h root path) s h"
| "check_path tgt doc root path (ArrayLen n) h =
     same_reads (\<lambda>h. root_len h doc path) (\<lambda>h. cursor_len_at h root path) n h"
| "check_path tgt doc root path (ObjectLen n) h =
     same_reads (\<lambda>h. root_len h doc path) (\<lambda>h. cursor_len_at h root path) n h"

fun verify_path_getter_consistency ::
  "target \<Rightarrow> nat option \<Rightarrow> qjson_cursor \<Rightarrow> path_check list \<Rightarrow> heap \<Rightarrow> (heap, unit) outcome" where
  "verify_path_getter_consistency tgt doc root [] h = Ok h"
| "verify_path_getter_consistency tgt doc root (c # checks) h =
     and_then (same_reads (\<lambda>h. root_type h doc (pc_path c)) (\<lambda>h. cursor_type_at h root (pc_path c)) (type_tag (pc_expected c)) h) (\<lambda>h.
     and_then (check_path tgt doc root (pc_path c) (pc_expected c) h) (\<lambda>h.
       verify_path_getter_consistency tgt doc root checks h))"

section \<open>The target\<close>

definition fuzz_one ::
  "('n \<Rightarrow> f64 option) \<Rightarrow> (f64 \<Rightarrow> 'n option) \<Rightarrow> (bytes \<Rightarrow> 'n json_val option) \<Rightarrow>
     scanner \<Rightarrow> target \<Rightarrow> nat \<Rightarrow> bytes \<Rightarrow> heap \<Rightarrow> (heap, unit) outcome" where
  "fuzz_one as_f64 from_f64 serde sc tgt addr data h =
     (if exceeds_container_depth data DEPTH_SKIP_LIMIT then Ok h
      else
        (case serde data of
           None \<Rightarrow> Ok h
         | Some value \<Rightarrow>
             and_then (normalize_numbers as_f64 from_f64 value) (\<lambda>expected.
               let opts = \<lparr>opt_mode = QJSON_MODE_LAZY, opt_max_depth = FUZZ_MAX_DEPTH\<rparr>;
                   (doc, err, h) = qjson_parse_ex sc tgt addr h (Bytes data) (Some opts) True in
               and_then (assert (doc \<noteq> None) ()) (\<lambda>_.
               and_then (expect_ok (qjson_open h doc (Null 0) True)) (\<lambda>(root, h).
                 let root = written zeroed_cursor root in
                 and_then (cursor_to_value as_f64 from_f64 tgt data (unat FUZZ_MAX_DEPTH + 1) h root [] True []) (\<lambda>(actual, h, checks).
                 and_then (assert (checks \<noteq> []) ()) (\<lambda>_.
                 and_then (verify_path_getter_consistency tgt doc root checks h) (\<lambda>h.
                   let h = qjson_free h doc in
                   assert (actual = expected) h))))))))"

end
