(* ===== verification/Fuzz_Replay_Correct.thy ===== *)
theory Fuzz_Replay_Correct
  imports Fuzz_Replay
begin

text \<open>
  No assertion of the replay fails: the walk through the C interface reads the value the text denotes,
  the raw keys and the lookups by key and by path agree with it. The specification is \<open>means\<close>, the value of
  a tree.
\<close>

section \<open>Texts\<close>

definition spells :: "bytes \<Rightarrow> bytes \<Rightarrow> bool" where
  "spells body s \<longleftrightarrow> (\<exists>cps. string_denotes body cps \<and> s = utf8_text cps)"

lemma spells_unique:
  assumes "spells body s" "spells body s'"
  shows "s = s'"
proof -
  from assms obtain cps cps' where c: "string_denotes body cps" "s = utf8_text cps" "string_denotes body cps'" "s' = utf8_text cps'"
    by (auto simp: spells_def)
  have sl: "slice 0 (length body) body = body" by (simp add: slice_def)
  from decode_string_denotes[of 0 "length body" body cps undefined "[]" True] decode_string_denotes[of 0 "length body" body cps' undefined "[]" True]
  show ?thesis using c by (auto simp: sl)
qed

lemma validate_utf8_std:
  assumes ok: "validate_utf8_sequence (a # r) 0 = Ok j" and a: "\<not> a < 0x80"
  shows "std_utf8 (a # r) = std_utf8 (drop j (a # r))"
proof -
  consider (two) "0xC2 \<le> a \<and> a \<le> 0xDF" | (three) "\<not> (0xC2 \<le> a \<and> a \<le> 0xDF)" "0xE0 \<le> a \<and> a \<le> 0xEF"
    | (four) "\<not> (0xC2 \<le> a \<and> a \<le> 0xDF)" "\<not> (0xE0 \<le> a \<and> a \<le> 0xEF)" "0xF0 \<le> a \<and> a \<le> 0xF4"
    using ok by (simp add: validate_utf8_sequence_def Let_def split: if_splits)
  then show ?thesis
  proof cases
    case two
    with ok obtain b r' where r: "r = b # r'" "is_cont b" "j = 2"
      by (cases r) (simp_all add: validate_utf8_sequence_def Let_def split: if_splits)
    have "std_utf8 (a # r) = std_utf8 r'"
      using r(2) by (simp only: r(1) std_utf8.simps(2)[of a] a two is_cont_def if_False if_True list.case simp_thms)
    then show ?thesis using r by simp
  next
    case three
    with ok have "2 < length (a # r)" by (simp add: validate_utf8_sequence_def Let_def split: if_splits)
    then obtain b c r' where bc: "r = b # c # r'" by (cases r; cases "tl r") auto
    have nth: "(a # b # c # r') ! 0 = a" "(a # b # c # r') ! (0 + 1) = b" "(a # b # c # r') ! (0 + 2) = c" by simp_all
    from ok have f: "\<not> b < (if a = 0xE0 then 0xA0 else 0x80)" "\<not> b > (if a = 0xED then 0x9F else 0xBF)" "is_cont c" "j = 0 + 3"
      unfolding bc validate_utf8_sequence_def Let_def nth
      by (simp_all only: three if_False if_True simp_thms de_Morgan_disj outcome.inject outcome.distinct split: if_split_asm)
    have "std_utf8 (a # r) = std_utf8 r'"
      using f(1-3) by (simp only: bc std_utf8.simps(2)[of a] a three is_cont_def not_less if_False if_True list.case simp_thms)
    then show ?thesis using f(4) bc by simp
  next
    case four
    with ok have "3 < length (a # r)" by (simp add: validate_utf8_sequence_def Let_def split: if_splits)
    then obtain b c d r' where bc: "r = b # c # d # r'" by (cases r; cases "tl r"; cases "tl (tl r)") auto
    have nth: "(a # b # c # d # r') ! 0 = a" "(a # b # c # d # r') ! (0 + 1) = b" "(a # b # c # d # r') ! (0 + 2) = c"
      "(a # b # c # d # r') ! (0 + 3) = d" by simp_all
    from ok have f: "\<not> b < (if a = 0xF0 then 0x90 else 0x80)" "\<not> b > (if a = 0xF4 then 0x8F else 0xBF)" "is_cont c" "is_cont d" "j = 0 + 4"
      unfolding bc validate_utf8_sequence_def Let_def nth
      by (simp_all only: four if_False if_True simp_thms de_Morgan_disj outcome.inject outcome.distinct split: if_split_asm)
    have "std_utf8 (a # r) = std_utf8 r'"
      using f(1-4) by (simp only: bc std_utf8.simps(2)[of a] a four is_cont_def not_less if_False if_True list.case simp_thms)
    then show ?thesis using f(5) bc by simp
  qed
qed

lemma std_utf8_char: "is_scalar_value cp \<Longrightarrow> std_utf8 (utf8 cp @ s) = std_utf8 s"
proof (cases "cp < 0x80")
  case True
  then have "utf8 cp = [of_nat cp]" "(of_nat cp :: u8) < 0x80"
    by (simp_all add: utf8_def word_less_nat_alt unat_of_nat)
  then show ?thesis by simp
next
  case False
  assume "is_scalar_value cp"
  with False have cp: "0x80 \<le> cp" "is_scalar_value cp" by simp_all
  have "drop 0 (utf8 cp @ s) = utf8 cp @ s" by simp
  note v = validate_utf8_sequence_utf8[OF this cp]
  obtain a r where ar: "utf8 cp = a # r" by (cases "utf8 cp") auto
  with validate_utf8_std[of a "r @ s"] v utf8_hd[OF cp] show ?thesis by (simp add: not_less del: std_utf8.simps)
qed

lemma std_utf8_text: "\<forall>cp \<in> set cps. is_scalar_value cp \<Longrightarrow> std_utf8 (utf8_text cps)"
  by (induction cps) (simp_all add: std_utf8_char)

lemma from_utf8_spells: "spells body s \<Longrightarrow> from_utf8 s = Ok s"
  using std_utf8_text string_denotes_scalar by (auto simp: spells_def from_utf8_def)

section \<open>Calls that succeed\<close>

text \<open>The body of a call at the value \<open>w\<close> returns something with \<open>P\<close> and keeps the document.\<close>

definition body_gives :: "(document \<Rightarrow> cursor \<Rightarrow> 'a with_doc) \<Rightarrow> json \<Rightarrow> (document \<Rightarrow> 'a \<Rightarrow> bool) \<Rightarrow> bool" where
  "body_gives body w P \<longleftrightarrow> (\<forall>d c. doc_inv d \<longrightarrow> denotes d c w \<longrightarrow>
     (\<exists>x d'. body d c = (Ok x, d') \<and> keeps d d' \<and> P d' x))"

lemma resolve_gives:
  assumes "doc_inv d" "denotes d cur v" "lookup_path v path = Ok w" "body_gives body w P"
  shows "\<exists>c d1 x d'. resolve d cur path = (Ok c, d1) \<and> body d1 c = (Ok x, d') \<and> keeps d d' \<and> P d' x"
proof -
  from resolve_ok[OF assms(1,2), of path] assms(3) obtain c d1 where
    r: "resolve d cur path = (Ok c, d1)" "denotes d c w" "doc_inv d1" "same_text d d1" by (auto simp: agrees_def)
  have k: "keeps d d1" using r(4,3) by (rule same_text_keeps)
  from assms(4) r(2,3) obtain x d' where "body d1 c = (Ok x, d')" "keeps d1 d'" "P d' x"
    unfolding body_gives_def keeps_denotes[OF k, symmetric] by blast
  with r(1) k show ?thesis by (blast intro: keeps_trans)
qed

lemma cleared:
  assumes "doc_inv d" "denotes d cur v"
  shows "doc_inv (clear_last_error_offset d)" "denotes (clear_last_error_offset d) cur v"
  using assms keeps_doc_inv[OF keeps_updates(2)] by (simp_all add: keeps_denotes[OF keeps_updates(2)])

lemma cursor_op_gives:
  assumes d: "h p = Some d" "doc_inv d" "denotes d cur v" and "lookup_path v (slice_bytes path) = Ok w" "body_gives body w P"
  shows "\<exists>x d'. cursor_op h (Some (internal_to_cursor (Some p) cur)) path True body = (err_code QJSON_OK, Some x, h(p \<mapsto> d')) \<and>
    keeps d d' \<and> P d' x"
proof -
  let ?d = "clear_last_error_offset d"
  from resolve_gives[OF cleared[OF d(2,3)] assms(4,5)] obtain c d1 x d' where
    r: "resolve ?d cur (slice_bytes path) = (Ok c, d1)" "body d1 c = (Ok x, d')" "keeps ?d d'" "P d' x" by blast
  from cursor_call[of h p d "\<lambda>p d cur. case resolve d cur (slice_bytes path) of
      (Ok cur', d) \<Rightarrow> body d cur' | (Err e, d) \<Rightarrow> or_set_offset cur (Err e) d | (Panic, d) \<Rightarrow> (Panic, d)" cur, OF d(1)] r(1,2)
  show ?thesis
    using r(4) keeps_trans[OF keeps_updates(2) r(3)] by (intro exI[of _ x] exI[of _ d']) (simp add: cursor_op_def)
qed

lemma root_op_gives:
  assumes d: "h p = Some d" "doc_inv d" "denotes d (cursor_root d) v" and path: "\<not> null_with_length path"
    and "lookup_path v (slice_bytes path) = Ok w" "body_gives body w P"
  shows "\<exists>x d'. root_op h (Some p) path True body = (err_code QJSON_OK, Some x, h(p \<mapsto> d')) \<and> keeps d d' \<and> P d' x"
proof -
  let ?d = "clear_last_error_offset d"
  have "cursor_root ?d = cursor_root d" by (simp add: cursor_root_def clear_last_error_offset_def)
  with resolve_gives[OF cleared[OF d(2,3)] assms(5,6)] obtain c d1 x d' where
    r: "resolve ?d (cursor_root ?d) (slice_bytes path) = (Ok c, d1)" "body d1 c = (Ok x, d')" "keeps ?d d'" "P d' x" by auto
  then show ?thesis
    using path d(1) keeps_trans[OF keeps_updates(2) r(3)]
    by (intro exI[of _ x] exI[of _ d']) (simp add: root_op_def clear_doc_error_offset_if_available_def resolve_root_path_def on_doc_def
        bind_doc_def ffi_catch_def)
qed

section \<open>Readers\<close>

definition reads_number :: "bytes \<Rightarrow> f64 \<Rightarrow> bool" where
  "reads_number t x \<longleftrightarrow> json_number t \<and> std_parse_f64 t = Some x \<and> f64_is_finite x"

lemma parse_f64_reads: "reads_number t x \<Longrightarrow> parse_f64 t skipping = Ok x"
  using json_number_starts[of t] std_utf8_ascii[OF json_number_ascii[of t]]
  by (auto simp: reads_number_def parse_f64_def validate_number_complete starts_number_def)

lemma gives_type: "body_gives read_type w (\<lambda>d x. x = json_type w)"
  by (auto simp: body_gives_def read_type_ok doc_inv_indexed)

lemma reads_as_gives:
  assumes "\<And>d c. indexed d \<Longrightarrow> denotes d c w \<Longrightarrow> reads_as d w (Ok x) (body d c)"
  shows "body_gives body w (\<lambda>d y. y = x)"
  using assms unfolding body_gives_def reads_as_def by (metis doc_inv_indexed keeps_refl prod.collapse outcome.simps(11))

lemma gives_len: "is_container w \<Longrightarrow> body_gives read_len w (\<lambda>d n. n = length (children w))"
  using read_len_ok[of _ _ w] by (intro reads_as_gives) simp

lemma gives_bool: "body_gives read_bool (JScalar (if b then bs ''true'' else bs ''false'')) (\<lambda>d x. x = (if b then 1 else 0))"
  using read_bool_ok[of _ _ "JScalar (if b then bs ''true'' else bs ''false'')"]
  by (intro reads_as_gives) (simp add: value_bool_def split: if_splits)

lemma gives_f64: "reads_number t x \<Longrightarrow> body_gives read_f64 (JScalar t) (\<lambda>d y. y = x)"
  using read_f64_ok[of _ _ "JScalar t"] by (intro reads_as_gives) (simp add: value_f64_def parse_f64_reads)

definition refers :: "bytes \<Rightarrow> document \<Rightarrow> str_ref \<Rightarrow> bool" where
  "refers s d r \<longleftrightarrow> ref_bytes (doc_buf d) (scratch d) r = s \<and> ref_len r = length s"

lemma gives_str:
  assumes "spells body s"
  shows "body_gives (read_str tgt) (JString body) (refers s)"
  unfolding body_gives_def
proof (intro allI impI)
  fix d c assume d: "doc_inv d" "denotes d c (JString body)"
  from read_str_ok[OF doc_inv_indexed[OF d(1)] d(2), of tgt] obtain cps sc r where
    r: "string_denotes body cps" "read_str tgt d c = (Ok r, d\<lparr>scratch := sc\<rparr>)" "ref_bytes (doc_buf d) sc r = utf8_text cps" by auto
  have "utf8_text cps = s" using r(1) by (intro spells_unique[OF _ assms]) (auto simp: spells_def)
  with r read_str_fits[OF r(2)] show "\<exists>x d'. read_str tgt d c = (Ok x, d') \<and> keeps d d' \<and> refers s d' x"
    by (intro exI[of _ r] exI[of _ "d\<lparr>scratch := sc\<rparr>"]) (simp add: refers_def ref_fits_def)
qed

lemma raw_bytes_refers: "h p = Some d \<Longrightarrow> refers s d r \<Longrightarrow> raw_bytes h (Some p) (Some r) = Ok s"
  by (simp add: raw_bytes_def refers_def)

text \<open>A read of the target: it returns \<open>x\<close> and keeps the document.\<close>

definition reads_ok :: "nat \<Rightarrow> heap \<Rightarrow> document \<Rightarrow> ('a \<times> heap, unit) outcome \<Rightarrow> 'a \<Rightarrow> bool" where
  "reads_ok p h d r x \<longleftrightarrow> (\<exists>d'. r = Ok (x, h(p \<mapsto> d')) \<and> keeps d d')"

lemma ffi_path_simps [simp]: "slice_bytes (ffi_path path) = path" "\<not> null_with_length (ffi_path path)"
  by (simp_all add: ffi_path_def)

lemma lookup_path_Nil [simp]: "lookup_path v [] = Ok v"
  by (simp add: lookup_path.simps path_next.simps)

lemma root_reads:
  assumes live: "h p = Some d" and inv: "doc_inv d" and root: "denotes d (cursor_root d) v" and w: "lookup_path v path = Ok w"
  shows "reads_ok p h d (root_type h (Some p) path) (int (type_code (json_type w)))"
    "is_container w \<Longrightarrow> reads_ok p h d (root_len h (Some p) path) (length (children w))"
    "w = JScalar (if b then bs ''true'' else bs ''false'') \<Longrightarrow> reads_ok p h d (root_bool h (Some p) path) b"
    "w = JScalar t \<Longrightarrow> reads_number t x \<Longrightarrow> reads_ok p h d (root_number h (Some p) path) x"
    "w = JString body \<Longrightarrow> spells body s \<Longrightarrow> reads_ok p h d (root_string tgt h (Some p) path) s"
proof -
  note op = root_op_gives[of h p d v "ffi_path path" w, OF live inv root, simplified, OF w]
  show "reads_ok p h d (root_type h (Some p) path) (int (type_code (json_type w)))"
    using op[OF gives_type] by (auto simp: reads_ok_def root_type_def qjson_typeof_def expect_ok_def type_value_def)
  show "reads_ok p h d (root_len h (Some p) path) (length (children w))" if "is_container w"
    using op[OF gives_len[OF that]] by (auto simp: reads_ok_def root_len_def qjson_len_def expect_ok_def written_def)
  show "reads_ok p h d (root_bool h (Some p) path) b" if "w = JScalar (if b then bs ''true'' else bs ''false'')"
    using op[unfolded that, OF gives_bool] by (cases b) (auto simp: reads_ok_def root_bool_def qjson_get_bool_def expect_ok_def written_def)
  show "reads_ok p h d (root_number h (Some p) path) x" if "w = JScalar t" "reads_number t x"
    using op[unfolded that(1), OF gives_f64[OF that(2)]] by (auto simp: reads_ok_def root_number_def qjson_get_f64_def expect_ok_def written_def)
  show "reads_ok p h d (root_string tgt h (Some p) path) s" if "w = JString body" "spells body s"
    using op[unfolded that(1), OF gives_str[OF that(2), of tgt]] from_utf8_spells[OF that(2)]
    by (auto simp: reads_ok_def root_string_def qjson_get_str_def expect_ok_def raw_bytes_refers)
qed

lemma cursor_reads:
  assumes live: "h p = Some d" and inv: "doc_inv d" and den: "denotes d cur v" and w: "lookup_path v path = Ok w"
  defines "c \<equiv> internal_to_cursor (Some p) cur"
  shows "reads_ok p h d (cursor_type_at h c path) (int (type_code (json_type w)))"
    "is_container w \<Longrightarrow> reads_ok p h d (cursor_len_at h c path) (length (children w))"
    "w = JScalar (if b then bs ''true'' else bs ''false'') \<Longrightarrow> reads_ok p h d (cursor_bool_at h c path) b"
    "w = JScalar t \<Longrightarrow> reads_number t x \<Longrightarrow> reads_ok p h d (cursor_number_at h c path) x"
    "w = JString body \<Longrightarrow> spells body s \<Longrightarrow> reads_ok p h d (cursor_string_at tgt h c path) s"
proof -
  note op = cursor_op_gives[of h p d cur v "ffi_path path" w, OF live inv den, simplified, OF w, folded c_def]
  have doc: "qc_doc c = Some p" by (simp add: c_def internal_to_cursor_def)
  show "reads_ok p h d (cursor_type_at h c path) (int (type_code (json_type w)))"
    using op[OF gives_type] by (auto simp: reads_ok_def cursor_type_at_def qjson_cursor_typeof_def expect_ok_def type_value_def)
  show "reads_ok p h d (cursor_len_at h c path) (length (children w))" if "is_container w"
    using op[OF gives_len[OF that]] by (auto simp: reads_ok_def cursor_len_at_def qjson_cursor_len_def expect_ok_def written_def)
  show "reads_ok p h d (cursor_bool_at h c path) b" if "w = JScalar (if b then bs ''true'' else bs ''false'')"
    using op[unfolded that, OF gives_bool] by (cases b) (auto simp: reads_ok_def cursor_bool_at_def qjson_cursor_get_bool_def expect_ok_def written_def)
  show "reads_ok p h d (cursor_number_at h c path) x" if "w = JScalar t" "reads_number t x"
    using op[unfolded that(1), OF gives_f64[OF that(2)]] by (auto simp: reads_ok_def cursor_number_at_def qjson_cursor_get_f64_def expect_ok_def written_def)
  show "reads_ok p h d (cursor_string_at tgt h c path) s" if "w = JString body" "spells body s"
    using op[unfolded that(1), OF gives_str[OF that(2), of tgt]] from_utf8_spells[OF that(2)]
    by (auto simp: reads_ok_def cursor_string_at_def qjson_cursor_get_str_def expect_ok_def raw_bytes_refers doc)
qed

text \<open>Without a path.\<close>

lemma plain_reads:
  "cursor_bool h c = cursor_bool_at h c []" "cursor_string tgt h c = cursor_string_at tgt h c []"
  "replay_len h c = cursor_len_at h c []" "cursor_type h c = cursor_type_at h c []"
  "cursor_number from_f64 h c = and_then (cursor_number_at h c []) (\<lambda>(x, h). case from_f64 x of None \<Rightarrow> Panic | Some n \<Rightarrow> Ok (n, h))"
  by (auto simp: cursor_bool_def cursor_bool_at_def cursor_string_def cursor_string_at_def replay_len_def cursor_len_at_def
      cursor_type_def cursor_number_def cursor_number_at_def ffi_path_def expect_ok_def assert_def split: prod.splits)

section \<open>The value of a tree\<close>

inductive means :: "(bytes \<Rightarrow> 'n \<Rightarrow> bool) \<Rightarrow> json \<Rightarrow> 'n json_val \<Rightarrow> bool"
  and means_list :: "(bytes \<Rightarrow> 'n \<Rightarrow> bool) \<Rightarrow> json list \<Rightarrow> 'n json_val list \<Rightarrow> bool"
  and means_members :: "(bytes \<Rightarrow> 'n \<Rightarrow> bool) \<Rightarrow> (bytes \<times> json) list \<Rightarrow> (bytes \<times> 'n json_val) list \<Rightarrow> bool"
  for num where
  means_null: "means num (JScalar (bs ''null'')) Val_Null"
| means_bool: "means num (JScalar (if b then bs ''true'' else bs ''false'')) (Val_Bool b)"
| means_number: "num t n \<Longrightarrow> means num (JScalar t) (Val_Number n)"
| means_string: "spells body s \<Longrightarrow> means num (JString body) (Val_String s)"
| means_array: "means_list num vs xs \<Longrightarrow> means num (JArray vs) (Val_Array xs)"
| means_object: "means_members num kvs es \<Longrightarrow> means num (JObject kvs) (Val_Object (collect_map es))"
| means_Nil: "means_list num [] []"
| means_Cons: "means num v x \<Longrightarrow> means_list num vs xs \<Longrightarrow> means_list num (v # vs) (x # xs)"
| members_Nil: "means_members num [] []"
| members_Cons: "spells k s \<Longrightarrow> means num v x \<Longrightarrow> means_members num kvs es \<Longrightarrow>
    means_members num ((k, v) # kvs) ((s, x) # es)"

lemma means_list_nth:
  "means_list num vs xs \<Longrightarrow> length xs = length vs \<and> (\<forall>i < length vs. means num (vs ! i) (xs ! i))"
proof (induction vs arbitrary: xs)
  case Nil
  then show ?case by (auto elim: means_list.cases)
next
  case (Cons v vs)
  from Cons.prems obtain x xs' where "xs = x # xs'" "means num v x" "means_list num vs xs'" by (auto elim: means_list.cases)
  with Cons.IH show ?case by (auto simp: nth_Cons split: nat.split)
qed

lemma means_members_nth:
  "means_members num kvs es \<Longrightarrow> length es = length kvs \<and>
    (\<forall>i < length kvs. spells (fst (kvs ! i)) (fst (es ! i)) \<and> means num (snd (kvs ! i)) (snd (es ! i)))"
proof (induction kvs arbitrary: es)
  case Nil
  then show ?case by (auto elim: means_members.cases)
next
  case (Cons kv kvs)
  from Cons.prems obtain s x es' where "es = (s, x) # es'" "spells (fst kv) s" "means num (snd kv) x" "means_members num kvs es'"
    by (cases kv) (auto elim: means_members.cases)
  with Cons.IH show ?case by (auto simp: nth_Cons split: nat.split)
qed

text \<open>What \<open>serde_json\<close> reads, and the value after the numbers are normalised.\<close>

definition serde_number :: "('n \<Rightarrow> f64 option) \<Rightarrow> bytes \<Rightarrow> 'n \<Rightarrow> bool" where
  "serde_number as_f64 t n \<longleftrightarrow> (\<exists>x. reads_number t x \<and> as_f64 n = Some x)"

definition normal_number :: "(f64 \<Rightarrow> 'n option) \<Rightarrow> bytes \<Rightarrow> 'n \<Rightarrow> bool" where
  "normal_number from_f64 t n \<longleftrightarrow> (\<exists>x. reads_number t x \<and> from_f64 x = Some n)"

definition sound_numbers :: "('n \<Rightarrow> f64 option) \<Rightarrow> (f64 \<Rightarrow> 'n option) \<Rightarrow> bool" where
  "sound_numbers as_f64 from_f64 \<longleftrightarrow> (\<forall>x. f64_is_finite x \<longrightarrow> (\<exists>n. from_f64 x = Some n \<and> as_f64 n = Some x))"

definition sound_values :: "('n \<Rightarrow> f64 option) \<Rightarrow> (bytes \<Rightarrow> 'n json_val option) \<Rightarrow> bool" where
  "sound_values as_f64 serde \<longleftrightarrow> (\<forall>data v. serde data = Some v \<longrightarrow> (\<exists>t. json_doc data t \<and> means (serde_number as_f64) t v))"

lemma collect_map_append: "collect_map (es @ [(k, v)]) = fmupd k v (collect_map es)"
  by (simp add: collect_map_def)

lemma collect_map_image: "fmmap f (collect_map es) = collect_map (map (\<lambda>(k, v). (k, f v)) es)"
proof (induction es rule: rev_induct)
  case (snoc e es)
  then show ?case by (cases e) (simp add: collect_map_append fmmap_fmupd)
qed (simp add: collect_map_def)

lemma collect_map_range: "fmlookup (collect_map es) k = Some v \<Longrightarrow> v \<in> snd ` set es"
proof (induction es rule: rev_induct)
  case (snoc e es)
  then show ?case by (cases e) (auto simp: collect_map_append split: if_splits)
qed (simp add: collect_map_def)

lemma normalize_means:
  fixes as_f64 :: "'n \<Rightarrow> f64 option"
  assumes "sound_numbers as_f64 from_f64"
  defines "f \<equiv> \<lambda>n. the (normalize_number as_f64 from_f64 n)" and "ok \<equiv> \<lambda>n. normalize_number as_f64 from_f64 n \<noteq> None"
  shows "means (serde_number as_f64) t v \<Longrightarrow> means (normal_number from_f64) t (map_json_val f v) \<and> (\<forall>n \<in> set_json_val v. ok n)"
    "means_list (serde_number as_f64) vs xs \<Longrightarrow> means_list (normal_number from_f64) vs (map (map_json_val f) xs) \<and>
      (\<forall>v \<in> set xs. \<forall>n \<in> set_json_val v. ok n)"
    "means_members (serde_number as_f64) kvs es \<Longrightarrow>
      means_members (normal_number from_f64) kvs (map (\<lambda>(k, v). (k, map_json_val f v)) es) \<and>
      (\<forall>v \<in> snd ` set es. \<forall>n \<in> set_json_val v. ok n)"
proof (induction rule: means_means_list_means_members.inducts)
  case means_null
  show ?case using means_means_list_means_members.means_null[of "normal_number from_f64"] by simp
next
  case (means_bool b)
  show ?case using means_means_list_means_members.means_bool[of "normal_number from_f64" b] by (cases b) simp_all
next
  case (means_number t n)
  then obtain x where x: "reads_number t x" "as_f64 n = Some x" by (auto simp: serde_number_def)
  then obtain m where m: "from_f64 x = Some m" using assms(1) by (auto simp: sound_numbers_def reads_number_def)
  with x have "normal_number from_f64 t (f n)" "ok n" by (auto simp: normal_number_def f_def ok_def normalize_number_def)
  then show ?case by (simp add: means_means_list_means_members.means_number)
next
  case (means_object kvs es)
  have "set_json_val (Val_Object (collect_map es)) \<subseteq> (\<Union>v \<in> snd ` set es. set_json_val v)"
    by (auto simp: fmlookup_ran'_iff dest!: collect_map_range[of es])
  with means_object show ?case
    by (auto simp: collect_map_image intro: means_means_list_means_members.means_object)
qed (auto intro: means_means_list_means_members.intros)

section \<open>The recorded checks\<close>

definition names :: "json \<Rightarrow> bytes \<Rightarrow> json \<Rightarrow> bool" where
  "names T path t \<longleftrightarrow> (\<exists>segs. list_all printable segs \<and> path = print_path segs \<and> lookup T segs = Ok t)"

lemma names_lookup: "names T path t \<Longrightarrow> lookup_path T path = Ok t"
  unfolding names_def using lookup_path_segs[OF parse_print_path] by metis

lemma names_root: "names T [] T"
  unfolding names_def by (intro exI[of _ "[]"]) (simp add: print_path_def)

lemma names_child:
  assumes "names T path t" "child t seg = Ok w" "printable seg"
  shows "names T (append_segment path seg) w"
proof -
  from assms(1) obtain segs where "list_all printable segs" "path = print_path segs" "lookup T segs = Ok t"
    by (auto simp: names_def)
  with assms(2,3) show ?thesis
    unfolding names_def by (intro exI[of _ "segs @ [seg]"]) (simp add: print_path_def lookup_append)
qed

fun expects :: "json \<Rightarrow> path_expected \<Rightarrow> bool" where
  "expects t Exp_Null = (t = JScalar (bs ''null''))"
| "expects t (Exp_Bool b) = (t = JScalar (if b then bs ''true'' else bs ''false''))"
| "expects t (Exp_Number x) = (\<exists>s. t = JScalar s \<and> reads_number s x)"
| "expects t (Exp_String s) = (\<exists>body. t = JString body \<and> spells body s)"
| "expects t (ArrayLen n) = (\<exists>vs. t = JArray vs \<and> length vs = n)"
| "expects t (ObjectLen n) = (\<exists>kvs. t = JObject kvs \<and> length kvs = n)"

definition checked :: "json \<Rightarrow> path_check list \<Rightarrow> bool" where
  "checked T checks \<longleftrightarrow> (\<forall>c \<in> set checks. \<exists>t. lookup_path T (pc_path c) = Ok t \<and> expects t (pc_expected c))"

lemma checked_Nil: "checked T []"
  by (simp add: checked_def)

lemma record_checked:
  "checked T checks \<Longrightarrow> names T path t \<Longrightarrow> expects t e \<Longrightarrow>
    checked T (record_path_check checks path e) \<and> record_path_check checks path e \<noteq> []"
  by (auto simp: checked_def record_path_check_def MAX_PATH_CHECKS_def dest: names_lookup)

lemma json_type_number: "json_number s \<Longrightarrow> json_type (JScalar s) = QJSON_T_NUM"
  using number_type[of s] by (simp add: json_scalar_def del: json_type.simps)

lemma expects_type: "expects t e \<Longrightarrow> int (type_code (json_type t)) = type_tag e"
  by (cases e) (auto simp: reads_number_def json_type_number simp del: json_type.simps(1), simp_all)

text \<open>The two reads of a check agree with what was recorded.\<close>

lemma same_reads_ok:
  assumes "h p = Some d" "doc_inv d" "reads_ok p h d (from_root h) x"
    "\<And>d'. keeps d d' \<Longrightarrow> reads_ok p (h(p \<mapsto> d')) d' (from_cursor (h(p \<mapsto> d'))) x"
  shows "\<exists>d'. same_reads from_root from_cursor x h = Ok (h(p \<mapsto> d')) \<and> keeps d d'"
proof -
  from assms(3) obtain d1 where d1: "from_root h = Ok (x, h(p \<mapsto> d1))" "keeps d d1" by (auto simp: reads_ok_def)
  from assms(4)[OF d1(2)] obtain d2 where "from_cursor (h(p \<mapsto> d1)) = Ok (x, h(p \<mapsto> d2))" "keeps d1 d2" by (auto simp: reads_ok_def)
  with d1 show ?thesis by (auto simp: same_reads_def intro: keeps_trans)
qed

lemma check_path_ok:
  assumes live: "h p = Some d" and inv: "doc_inv d" and root: "denotes d (cursor_root d) T"
    and t: "lookup_path T path = Ok t" and e: "expects t e"
  shows "\<exists>d'. check_path tgt (Some p) (internal_to_cursor (Some p) (cursor_root d)) path e h = Ok (h(p \<mapsto> d')) \<and> keeps d d'"
proof -
  have live': "(h(p \<mapsto> d')) p = Some d'" for d' by simp
  note r = root_reads[of h p d, OF live inv root t] and
    c = cursor_reads[of "h(p \<mapsto> d')" p d' for d', OF live' keeps_doc_inv[OF _ inv] _ t]
  have den: "denotes d' (cursor_root d) T" if "keeps d d'" for d' using root by (simp add: keeps_denotes[OF that])
  have same: "h(p \<mapsto> d) = h" using live by (simp add: fun_upd_idem)
  show ?thesis
  proof (cases e)
    case Exp_Null
    with same show ?thesis by (intro exI[of _ d]) simp
  next
    case (Exp_Bool b)
    with e same_reads_ok[of h p d "\<lambda>h. root_bool h (Some p) path" b "\<lambda>h. cursor_bool_at h _ path", OF live inv r(3) c(3)] den
    show ?thesis by simp
  next
    case (Exp_Number x)
    with e obtain s where "t = JScalar s" "reads_number s x" by auto
    with same_reads_ok[of h p d "\<lambda>h. root_number h (Some p) path" x "\<lambda>h. cursor_number_at h _ path", OF live inv r(4) c(4)] den
    show ?thesis by (simp add: Exp_Number)
  next
    case (Exp_String s)
    with e obtain body where "t = JString body" "spells body s" by auto
    with same_reads_ok[of h p d "\<lambda>h. root_string tgt h (Some p) path" s "\<lambda>h. cursor_string_at tgt h _ path", OF live inv r(5) c(5)] den
    show ?thesis by (simp add: Exp_String)
  next
    case (ArrayLen n)
    with e obtain vs where "t = JArray vs" "length (children t) = n" "is_container t" by auto
    with same_reads_ok[of h p d "\<lambda>h. root_len h (Some p) path" n "\<lambda>h. cursor_len_at h _ path", OF live inv] r(2) c(2) den
    show ?thesis by (simp add: ArrayLen)
  next
    case (ObjectLen n)
    with e obtain kvs where "t = JObject kvs" "length (children t) = n" "is_container t" by auto
    with same_reads_ok[of h p d "\<lambda>h. root_len h (Some p) path" n "\<lambda>h. cursor_len_at h _ path", OF live inv] r(2) c(2) den
    show ?thesis by (simp add: ObjectLen)
  qed
qed

lemma verify_ok:
  assumes "checked T checks" "h p = Some d" "doc_inv d" "denotes d (cursor_root d) T"
  shows "\<exists>d'. verify_path_getter_consistency tgt (Some p) (internal_to_cursor (Some p) (cursor_root d)) checks h =
    Ok (h(p \<mapsto> d')) \<and> keeps d d'"
  using assms
proof (induction checks arbitrary: h d)
  case Nil
  then show ?case by (intro exI[of _ d]) (simp add: fun_upd_idem)
next
  case (Cons c checks)
  let ?root = "internal_to_cursor (Some p) (cursor_root d)"
  from Cons.prems(1) obtain t where t: "lookup_path T (pc_path c) = Ok t" "expects t (pc_expected c)" and rest: "checked T checks"
    by (auto simp: checked_def)
  have root: "denotes d' (cursor_root d) T" "cursor_root d' = cursor_root d" if "keeps d d'" for d'
    using Cons.prems(4) that by (simp_all add: keeps_denotes[OF that] keeps_def cursor_root_def)
  note ty = expects_type[OF t(2)]
  have live: "(h(p \<mapsto> d')) p = Some d'" for d' by simp
  have "reads_ok p h d (root_type h (Some p) (pc_path c)) (type_tag (pc_expected c))"
    using root_reads(1)[of h p d, OF Cons.prems(2-4) t(1)] by (simp only: ty)
  moreover have "reads_ok p (h(p \<mapsto> d')) d' (cursor_type_at (h(p \<mapsto> d')) ?root (pc_path c)) (type_tag (pc_expected c))"
    if k: "keeps d d'" for d'
    using cursor_reads(1)[of "h(p \<mapsto> d')" p d' "cursor_root d" T, OF live keeps_doc_inv[OF k Cons.prems(3)] root(1)[OF k] t(1)]
    by (simp only: ty)
  ultimately have "\<exists>d'. same_reads (\<lambda>h. root_type h (Some p) (pc_path c)) (\<lambda>h. cursor_type_at h ?root (pc_path c)) (type_tag (pc_expected c)) h =
      Ok (h(p \<mapsto> d')) \<and> keeps d d'"
    by (rule same_reads_ok[of h p d, OF Cons.prems(2,3)])
  then obtain d1 where d1: "same_reads (\<lambda>h. root_type h (Some p) (pc_path c)) (\<lambda>h. cursor_type_at h ?root (pc_path c)) (type_tag (pc_expected c)) h =
      Ok (h(p \<mapsto> d1))" "keeps d d1" by blast
  from check_path_ok[of "h(p \<mapsto> d1)" p d1 T, OF live keeps_doc_inv[OF d1(2) Cons.prems(3)] _ t] root[OF d1(2)] obtain d2 where
    d2: "check_path tgt (Some p) ?root (pc_path c) (pc_expected c) (h(p \<mapsto> d1)) = Ok (h(p \<mapsto> d2))" "keeps d1 d2" by auto
  have k: "keeps d d2" using d1(2) d2(2) by (rule keeps_trans)
  from Cons.IH[of "h(p \<mapsto> d2)" d2, OF rest live keeps_doc_inv[OF k Cons.prems(3)]] root(1)[OF k] obtain d3 where
    "verify_path_getter_consistency tgt (Some p) ?root checks (h(p \<mapsto> d2)) = Ok (h(p \<mapsto> d3))" "keeps d2 d3"
    unfolding root(2)[OF k] fun_upd_upd by blast
  with d1(1) d2(1) keeps_trans[OF k] show ?case by (intro exI[of _ d3]) (simp del: fun_upd_apply)
qed

section \<open>The walk of a container\<close>

text \<open>A visit that returns \<open>x\<close>, keeps the document and records only checks that hold.\<close>

definition visits :: "json \<Rightarrow> nat \<Rightarrow> heap \<Rightarrow> document \<Rightarrow> ('a \<times> heap \<times> path_check list, unit) outcome \<Rightarrow> 'a \<Rightarrow> bool" where
  "visits T p h d r x \<longleftrightarrow> (\<exists>d' checks'. r = Ok (x, h(p \<mapsto> d'), checks') \<and> keeps d d' \<and> checked T checks')"

text \<open>A walk of values of depth less than \<open>k\<close> that does so at every cursor.\<close>

definition walks :: "(bytes \<Rightarrow> 'n \<Rightarrow> bool) \<Rightarrow> bytes \<Rightarrow> json \<Rightarrow> nat \<Rightarrow> nat \<Rightarrow> 'n visit \<Rightarrow> bool" where
  "walks num data T p k visit \<longleftrightarrow>
     (\<forall>t v h d cur path path_safe checks. tree_depth t < k \<longrightarrow> means num t v \<longrightarrow> h p = Some d \<longrightarrow> doc_inv d \<longrightarrow>
       doc_buf d = data \<longrightarrow> denotes d cur t \<longrightarrow> (path_safe \<longrightarrow> names T path t) \<longrightarrow> checked T checks \<longrightarrow>
       visits T p h d (visit h (internal_to_cursor (Some p) cur) path path_safe checks) v)"

lemma walksD:
  assumes "walks num data T p k visit" "tree_depth t < k" "means num t v" "h p = Some d" "doc_inv d" "doc_buf d = data"
    "denotes d cur t" "path_safe \<Longrightarrow> names T path t" "checked T checks"
  shows "visits T p h d (visit h (internal_to_cursor (Some p) cur) path path_safe checks) v"
  using assms unfolding walks_def by blast

lemma visits_then:
  assumes "visits T p h d r x"
    "\<And>d' checks'. keeps d d' \<Longrightarrow> checked T checks' \<Longrightarrow> visits T p (h(p \<mapsto> d')) d' (f (x, h(p \<mapsto> d'), checks')) y"
  shows "visits T p h d (and_then r f) y"
proof -
  from assms(1) obtain d1 checks1 where 1: "r = Ok (x, h(p \<mapsto> d1), checks1)" "keeps d d1" "checked T checks1"
    by (auto simp: visits_def)
  from assms(2)[OF 1(2,3)] 1(1,2) show ?thesis by (auto simp: visits_def intro: keeps_trans)
qed

lemma visits_read:
  assumes "reads_ok p h d r x" "\<And>d'. keeps d d' \<Longrightarrow> visits T p (h(p \<mapsto> d')) d' (f (x, h(p \<mapsto> d'))) y"
  shows "visits T p h d (and_then r f) y"
proof -
  from assms(1) obtain d1 where 1: "r = Ok (x, h(p \<mapsto> d1))" "keeps d d1" by (auto simp: reads_ok_def)
  from assms(2)[OF 1(2)] 1 show ?thesis by (auto simp: visits_def intro: keeps_trans)
qed

lemma visits_keeps: "keeps d d1 \<Longrightarrow> visits T p (h(p \<mapsto> d1)) d1 r x \<Longrightarrow> visits T p h d r x"
  by (auto simp: visits_def intro: keeps_trans)

lemma visits_Ok: "h p = Some d \<Longrightarrow> checked T checks \<Longrightarrow> visits T p h d (Ok (x, h, checks)) x"
  unfolding visits_def by (intro exI[of _ d] exI[of _ checks]) (simp add: fun_upd_idem)

lemma keeps_buf: "keeps d d' \<Longrightarrow> doc_buf d' = doc_buf d"
  by (simp add: keeps_def)

lemma array_length: "doc_inv d \<Longrightarrow> denotes d cur (JArray vs) \<Longrightarrow> length vs < 2 ^ 32"
  using children_bound[of d "idx_start cur" "JArray vs"] by (simp add: denotes_def doc_inv_indexed)

lemma index_value_ok:
  assumes visit: "walks num data T p k visit" and d: "h p = Some d" "doc_inv d" "doc_buf d = data" "denotes d cur (JArray vs)"
    and i: "i < length vs" "tree_depth (vs ! i) < k" "means num (vs ! i) x"
    and path: "path_safe \<longrightarrow> names T path (JArray vs)" and checks: "checked T checks"
  shows "visits T p h d (cursor_index_value visit h (internal_to_cursor (Some p) cur) i path path_safe checks) x"
proof -
  have len: "length vs < 2 ^ 32" by (rule array_length[OF d(2,4)])
  with i(1) have u: "unat (of_nat i :: u32) = i" "i \<le> unat U32_MAX" by (simp_all add: unat_of_nat)
  have child: "child (JArray vs) (Idx (of_nat i)) = Ok (vs ! i)" using i(1) u(1) by simp
  from child_call[of h p d cur "JArray vs" "Idx (of_nat i)", OF d(1,2,4) child] obtain c d' where
    call: "qjson_cursor_index h (Some (internal_to_cursor (Some p) cur)) i True =
      (err_code QJSON_OK, Some (internal_to_cursor (Some p) c), h(p \<mapsto> d'))"
    and d': "doc_inv d'" "denotes d' c (vs ! i)" "keeps d d'"
    using u(2) by (auto simp: qjson_cursor_index_def resolve_single_idx_def)
  have "names T (append_index_segment path i) (vs ! i)" if path_safe
    using names_child[of T path "JArray vs" "Idx (of_nat i)" "vs ! i"] path that child u(1) by simp
  then have "visits T p (h(p \<mapsto> d')) d' (visit (h(p \<mapsto> d')) (internal_to_cursor (Some p) c)
      (if path_safe then append_index_segment path i else path) path_safe checks) x"
    using visit i(2,3) d' d(3) checks by (simp add: walks_def keeps_buf)
  from visits_keeps[OF d'(3) this] show ?thesis
    by (simp add: cursor_index_value_def call expect_ok_def written_def)
qed

lemma index_values_ok:
  assumes visit: "walks num data T p k visit" and "\<forall>i \<in> set is. i < length vs"
    and ts: "\<forall>i < length vs. tree_depth (vs ! i) < k \<and> means num (vs ! i) (xs ! i)"
    and path: "path_safe \<longrightarrow> names T path (JArray vs)"
  shows "h p = Some d \<Longrightarrow> doc_inv d \<Longrightarrow> doc_buf d = data \<Longrightarrow> denotes d cur (JArray vs) \<Longrightarrow> checked T checks \<Longrightarrow>
    visits T p h d (index_values visit h (internal_to_cursor (Some p) cur) is path path_safe checks) (map (\<lambda>i. xs ! i) is)"
  using assms(2)
proof (induction "is" arbitrary: h d checks)
  case Nil
  then show ?case by (simp add: visits_Ok)
next
  case (Cons i "is")
  from Cons.prems(6) have i: "i < length vs" by simp
  note v = index_value_ok[where h = h and p = p and d = d, OF visit Cons.prems(1-4) i _ _ path Cons.prems(5)]
  have "visits T p (h(p \<mapsto> d')) d' (and_then (index_values visit (h(p \<mapsto> d')) (internal_to_cursor (Some p) cur) is path path_safe checks')
      (\<lambda>(vs, h, checks). Ok (xs ! i # vs, h, checks))) (xs ! i # map (\<lambda>i. xs ! i) is)"
    if k: "keeps d d'" and c: "checked T checks'" for d' checks'
  proof -
    have "visits T p (h(p \<mapsto> d')) d' (index_values visit (h(p \<mapsto> d')) (internal_to_cursor (Some p) cur) is path path_safe checks')
        (map (\<lambda>i. xs ! i) is)"
      by (rule Cons.IH) (use Cons.prems c in \<open>simp_all add: keeps_doc_inv[OF k] keeps_buf[OF k] keeps_denotes[OF k]\<close>)
    then show ?thesis by (rule visits_then) (simp add: visits_Ok)
  qed
  with v[of "xs ! i"] ts i show ?case by (simp add: visits_then)
qed

section \<open>Objects\<close>

lemma keys_call:
  assumes live: "h p = Some d" and inv: "doc_inv d" and buf: "doc_buf d = data" and den: "denotes d cur (JObject kvs)"
  shows "reads_ok p h d (cursor_raw_object_keys h (internal_to_cursor (Some p) cur) data (length kvs)) (map fst kvs)"
proof -
  let ?d = "clear_last_error_offset d"
  note c = cleared[OF inv den]
  from value_start[OF doc_inv_indexed[OF c(1)] c(2)] obtain s e where
    r: "cursor_byte_range ?d cur = Ok (s, e)" "text_at (doc_buf ?d) s e (JObject kvs)" by blast
  then have se: "s \<le> e" "e \<le> length data" and t: "tree (slice s e data) (JObject kvs)"
    using buf by (auto simp: text_at_def clear_last_error_offset_def)
  from cursor_call[of h p d "\<lambda>p d cur. (cursor_byte_range d cur, d)" cur "(s, e)" ?d, OF live] r(1)
  have "qjson_cursor_bytes h (Some (internal_to_cursor (Some p) cur)) True = (err_code QJSON_OK, Some (s, e), h(p \<mapsto> ?d))"
    by (simp add: qjson_cursor_bytes_def)
  then show ?thesis
    using se raw_object_keys_tree[OF t]
    by (auto simp: reads_ok_def cursor_raw_object_keys_def expect_ok_def written_def slice_at_def intro!: exI[of _ ?d])
qed

text \<open>The cursor of a member, the same for every way to reach it.\<close>

definition member_cursor :: "cursor \<Rightarrow> (bytes \<times> json) list \<Rightarrow> nat \<Rightarrow> cursor" where
  "member_cursor cur kvs j = child_cursor (idx_start cur + 1) (children (JObject kvs)) j"

lemma member_denotes:
  "doc_inv d \<Longrightarrow> denotes d cur (JObject kvs) \<Longrightarrow> j < length kvs \<Longrightarrow> denotes d (member_cursor cur kvs j) (snd (kvs ! j))"
  using nth_object_entry_ok[of d cur "JObject kvs" j] by (auto simp: doc_inv_indexed member_cursor_def)

lemma entry_call:
  assumes live: "h p = Some d" and inv: "doc_inv d" and den: "denotes d cur (JObject kvs)" and j: "j < length kvs"
    and key: "spells (fst (kvs ! j)) key"
  shows "\<exists>d'. cursor_object_entry_at tgt h (internal_to_cursor (Some p) cur) j =
      Ok (key, internal_to_cursor (Some p) (member_cursor cur kvs j), h(p \<mapsto> d')) \<and> keeps d d'"
proof -
  let ?d = "clear_last_error_offset d"
  note c = cleared[OF inv den]
  from object_entry_at_ok[OF doc_inv_indexed[OF c(1)] c(2), of tgt p j] j obtain cps sc r where
    r: "string_denotes (fst (kvs ! j)) cps" "ref_bytes (doc_buf ?d) sc r = utf8_text cps"
      "object_entry_at tgt p ?d cur j = (Ok (r, internal_to_cursor (Some p) (member_cursor cur kvs j)), ?d\<lparr>scratch := sc\<rparr>)"
    by (auto simp: member_cursor_def)
  have "utf8_text cps = key" using r(1) by (intro spells_unique[OF _ key]) (auto simp: spells_def)
  with r(2) entry_at_fits[OF r(3)] have "refers key (?d\<lparr>scratch := sc\<rparr>) r" by (simp add: refers_def ref_fits_def)
  with cursor_call[of h p d "\<lambda>p d cur. object_entry_at tgt p d cur j" cur, OF live r(3)] from_utf8_spells[OF key]
    raw_bytes_refers[of "h(p \<mapsto> ?d\<lparr>scratch := sc\<rparr>)" p "?d\<lparr>scratch := sc\<rparr>" key r]
  show ?thesis
    using keeps_trans[OF keeps_updates(2)[of d] keeps_updates(3)[of ?d sc]]
    by (intro exI[of _ "?d\<lparr>scratch := sc\<rparr>"])
      (simp add: cursor_object_entry_at_def qjson_cursor_object_entry_at_def expect_ok_def written_def internal_to_cursor_def)
qed

lemma field_call:
  assumes live: "h p = Some d" and inv: "doc_inv d" and den: "denotes d cur (JObject kvs)" and j: "j < length kvs"
    and first: "\<forall>l < length kvs. fst (kvs ! l) = fst (kvs ! j) \<longrightarrow> l = j"
  shows "\<exists>d'. qjson_cursor_field h (Some (internal_to_cursor (Some p) cur)) (Bytes (fst (kvs ! j))) True =
      (err_code QJSON_OK, Some (internal_to_cursor (Some p) (member_cursor cur kvs j)), h(p \<mapsto> d')) \<and> keeps d d'"
proof -
  let ?d = "clear_last_error_offset d"
  note c = cleared[OF inv den]
  have fit: "fits (Key (fst (kvs ! j))) (JObject kvs)" by (simp add: fits_def is_key_def opener_def)
  have key: "fst (children (JObject kvs) ! l) = Some (fst (kvs ! l))" if "l < length kvs" for l
    using that by (simp add: split_beta)
  have "pick (Key (fst (kvs ! j))) 0 (idx_start cur + 1) (children (JObject kvs)) = Some (member_cursor cur kvs j)"
    unfolding member_cursor_def
  proof (rule pick_key)
    show "\<forall>l < j. fst (children (JObject kvs) ! l) \<noteq> Some (fst (kvs ! j))"
    proof (intro allI impI)
      fix l assume l: "l < j"
      then have "l < length kvs" using j by simp
      with key[OF this] first l show "fst (children (JObject kvs) ! l) \<noteq> Some (fst (kvs ! j))" by auto
    qed
  qed (use j key in simp_all)
  with step_pick[OF c fit] obtain d' where s: "step ?d cur (Key (fst (kvs ! j))) = (Ok (member_cursor cur kvs j), d')"
    "doc_inv d'" "same_text ?d d'" by auto
  have k: "keeps d d'" using keeps_trans[OF keeps_updates(2) same_text_keeps[OF s(3,2)]] .
  with cursor_call[of h p d "\<lambda>p d cur. case step d cur (Key (fst (kvs ! j))) of
         (Ok c1, d) \<Rightarrow> (Ok (internal_to_cursor (Some p) c1), d)
       | (Err e, d) \<Rightarrow> or_set_offset cur (Err e) d | (Panic, d) \<Rightarrow> (Panic, d)" cur, OF live] s(1)
  show ?thesis by (intro exI[of _ d']) (simp add: qjson_cursor_field_def resolve_single_key_def)
qed

text \<open>What the loops over an object collect: for the members \<open>kvs\<close> with the decoded keys and values \<open>es\<close>.\<close>

definition raw_entry :: "nat \<Rightarrow> cursor \<Rightarrow> (bytes \<times> json) list \<Rightarrow> (bytes \<times> 'n json_val) list \<Rightarrow> nat \<Rightarrow> bytes \<times> bytes \<times> qjson_cursor" where
  "raw_entry p cur kvs es j = (fst (es ! j), fst (kvs ! j), internal_to_cursor (Some p) (member_cursor cur kvs j))"

definition raw_entries :: "nat \<Rightarrow> cursor \<Rightarrow> (bytes \<times> json) list \<Rightarrow> (bytes \<times> 'n json_val) list \<Rightarrow> (bytes \<times> bytes \<times> qjson_cursor) list" where
  "raw_entries p cur kvs es = map (raw_entry p cur kvs es) [0..<length kvs]"

definition replay_key :: "nat \<Rightarrow> cursor \<Rightarrow> (bytes \<times> json) list \<Rightarrow> (bytes \<times> 'n json_val) list \<Rightarrow> nat \<Rightarrow> bytes option" where
  "replay_key p cur kvs es j =
     field_lookup_key_for_replay (fst (es ! j)) (fst (kvs ! j)) (key_counts (raw_entries p cur kvs es) (fst (es ! j)) = 1)"

definition value_entry :: "nat \<Rightarrow> cursor \<Rightarrow> (bytes \<times> json) list \<Rightarrow> (bytes \<times> 'n json_val) list \<Rightarrow> nat \<Rightarrow> 'n entry" where
  "value_entry p cur kvs es j =
     (fst (es ! j), snd (es ! j), replay_key p cur kvs es j, internal_to_cursor (Some p) (member_cursor cur kvs j))"

lemma object_entries_ok:
  assumes keys: "\<forall>j < length kvs. spells (fst (kvs ! j)) (fst (es ! j))"
  shows "h p = Some d \<Longrightarrow> doc_inv d \<Longrightarrow> denotes d cur (JObject kvs) \<Longrightarrow> raws = map fst (drop i kvs) \<Longrightarrow> i \<le> length kvs \<Longrightarrow>
    reads_ok p h d (object_entries tgt h (internal_to_cursor (Some p) cur) i raws) (map (raw_entry p cur kvs es) [i..<length kvs])"
proof (induction raws arbitrary: i h d)
  case Nil
  then have "h(p \<mapsto> d) = h" "i = length kvs" by (simp_all add: fun_upd_idem)
  then show ?case unfolding reads_ok_def by (intro exI[of _ d]) simp
next
  case (Cons raw raws)
  then have i: "i < length kvs" by (cases "i < length kvs") auto
  then have raws: "raw = fst (kvs ! i)" "raws = map fst (drop (Suc i) kvs)" using Cons.prems(4) by (simp_all add: Cons_nth_drop_Suc[symmetric])
  from entry_call[of h p d, OF Cons.prems(1-3) i, of "fst (es ! i)" tgt] keys i obtain d1 where
    d1: "cursor_object_entry_at tgt h (internal_to_cursor (Some p) cur) i =
      Ok (fst (es ! i), internal_to_cursor (Some p) (member_cursor cur kvs i), h(p \<mapsto> d1))" "keeps d d1" by auto
  have live: "(h(p \<mapsto> d1)) p = Some d1" by simp
  have den: "denotes d1 cur (JObject kvs)" using Cons.prems(3) by (simp add: keeps_denotes[OF d1(2)])
  from Cons.IH[of "h(p \<mapsto> d1)" d1 "Suc i", OF live keeps_doc_inv[OF d1(2) Cons.prems(2)] den raws(2)] i obtain d2 where
    d2: "object_entries tgt (h(p \<mapsto> d1)) (internal_to_cursor (Some p) cur) (Suc i) raws =
      Ok (map (raw_entry p cur kvs es) [Suc i..<length kvs], h(p \<mapsto> d2))" "keeps d1 d2"
    unfolding reads_ok_def fun_upd_upd by auto
  have "[i..<length kvs] = i # [Suc i..<length kvs]" using i by (rule upt_conv_Cons)
  then show ?case
    unfolding reads_ok_def using d1(1) d2(1) keeps_trans[OF d1(2) d2(2)] raws(1)
    by (intro exI[of _ d2]) (simp add: raw_entry_def)
qed

lemma key_counts_filter: "key_counts es k = length (filter (\<lambda>e. fst e = k) es)"
proof -
  have "fold (\<lambda>(key, _, _) counts. counts(key := counts key + 1)) es m k = m k + length (filter (\<lambda>e. fst e = k) es)" for m
    by (induction es arbitrary: m) auto
  then show ?thesis by (simp add: key_counts_def)
qed

lemma unique_key:
  assumes "key_counts (raw_entries p cur kvs es) (fst (es ! j)) = 1" "j < length kvs" "l < length kvs" "fst (es ! l) = fst (es ! j)"
  shows "l = j"
proof -
  let ?ns = "filter (\<lambda>i. fst (es ! i) = fst (es ! j)) [0..<length kvs]"
  have "length ?ns = 1"
    using assms(1) by (simp add: key_counts_filter raw_entries_def filter_map comp_def raw_entry_def)
  then obtain x where "?ns = [x]" by (auto simp: length_Suc_conv)
  then have "set ?ns = {x}" by (simp only: list.set)
  moreover have "j \<in> set ?ns" "l \<in> set ?ns" using assms(2-4) by simp_all
  ultimately show ?thesis by (simp only: singleton_iff)
qed

lemma replay_keyD:
  assumes key: "replay_key p cur kvs es j = Some k" and j: "j < length kvs"
    and keys: "\<forall>j < length kvs. spells (fst (kvs ! j)) (fst (es ! j))"
  shows "k = fst (kvs ! j)" "fst (es ! j) = k" "\<forall>l < length kvs. fst (kvs ! l) = fst (kvs ! j) \<longrightarrow> l = j"
proof -
  from key have k: "k = fst (kvs ! j)" "fst (es ! j) = k" "key_counts (raw_entries p cur kvs es) (fst (es ! j)) = 1"
    by (auto simp: replay_key_def field_lookup_key_for_replay_def split: if_splits)
  show "k = fst (kvs ! j)" "fst (es ! j) = k" by (fact k)+
  show "\<forall>l < length kvs. fst (kvs ! l) = fst (kvs ! j) \<longrightarrow> l = j"
  proof (intro allI impI)
    fix l assume l: "l < length kvs" "fst (kvs ! l) = fst (kvs ! j)"
    with keys j have "fst (es ! l) = fst (es ! j)" by (metis spells_unique)
    with unique_key[OF k(3) j l(1)] show "l = j" by simp
  qed
qed

lemma object_values_ok:
  assumes visit: "walks num data T p k visit" and ns: "\<forall>j \<in> set ns. j < length kvs"
    and keys: "\<forall>j < length kvs. spells (fst (kvs ! j)) (fst (es ! j))"
    and vals: "\<forall>j < length kvs. tree_depth (snd (kvs ! j)) < k \<and> means num (snd (kvs ! j)) (snd (es ! j))"
    and path: "path_safe \<longrightarrow> names T path (JObject kvs)"
  shows "h p = Some d \<Longrightarrow> doc_inv d \<Longrightarrow> doc_buf d = data \<Longrightarrow> denotes d cur (JObject kvs) \<Longrightarrow> checked T checks \<Longrightarrow>
    visits T p h d
      (object_values visit h (key_counts (raw_entries p cur kvs es)) (map (raw_entry p cur kvs es) ns) path path_safe checks)
      (map (value_entry p cur kvs es) ns)"
  using ns
proof (induction ns arbitrary: h d checks)
  case Nil
  then show ?case by (simp add: visits_Ok)
next
  case (Cons j ns)
  let ?counts = "key_counts (raw_entries p cur kvs es)"
  let ?key = "fst (es ! j)" and ?cur = "internal_to_cursor (Some p) (member_cursor cur kvs j)"
  define safe where "safe \<longleftrightarrow> path_safe \<and> replay_key p cur kvs es j \<noteq> None \<and> path_key_can_be_in_qjson_path ?key"
  define child_path where "child_path = (if safe then append_key_segment path ?key else path)"
  have j: "j < length kvs" using Cons.prems(6) by simp
  have named: "names T child_path (snd (kvs ! j))" if safe
  proof -
    from that obtain k where "replay_key p cur kvs es j = Some k" and s: path_safe "path_key_can_be_in_qjson_path ?key"
      by (auto simp: safe_def)
    note k = replay_keyD[OF this(1) j keys]
    have "map_of kvs ?key = Some (snd (kvs ! j))"
    proof (rule map_of_first)
      show "\<forall>l < j. fst (kvs ! l) \<noteq> ?key"
        using k j by (metis less_trans nat_neq_iff)
    qed (use k j in simp_all)
    then have "child (JObject kvs) (Key ?key) = Ok (snd (kvs ! j))" by simp
    from names_child[OF _ this, of T path] path s that show ?thesis by (simp add: child_path_def)
  qed
  have "visits T p h d (visit h ?cur child_path safe checks) (snd (es ! j))"
    by (rule walksD[OF visit]) (use Cons.prems(1-5) member_denotes[OF Cons.prems(2,4) j] vals j named in auto)
  then have "visits T p h d (and_then (visit h ?cur child_path safe checks) (\<lambda>(v, h, checks).
      and_then (object_values visit h ?counts (map (raw_entry p cur kvs es) ns) path path_safe checks)
        (\<lambda>(vs, h, checks). Ok ((?key, v, replay_key p cur kvs es j, ?cur) # vs, h, checks))))
      (value_entry p cur kvs es j # map (value_entry p cur kvs es) ns)"
  proof (rule visits_then, unfold prod.case)
    fix d' checks' assume k: "keeps d d'" and c: "checked T checks'"
    have "visits T p (h(p \<mapsto> d')) d' (object_values visit (h(p \<mapsto> d')) ?counts (map (raw_entry p cur kvs es) ns) path path_safe checks')
        (map (value_entry p cur kvs es) ns)"
      by (rule Cons.IH) (use Cons.prems c in \<open>simp_all add: keeps_doc_inv[OF k] keeps_buf[OF k] keeps_denotes[OF k]\<close>)
    then show "visits T p (h(p \<mapsto> d')) d'
        (and_then (object_values visit (h(p \<mapsto> d')) ?counts (map (raw_entry p cur kvs es) ns) path path_safe checks')
          (\<lambda>(vs, h, checks). Ok ((?key, snd (es ! j), replay_key p cur kvs es j, ?cur) # vs, h, checks)))
        (value_entry p cur kvs es j # map (value_entry p cur kvs es) ns)"
      by (rule visits_then) (simp add: visits_Ok value_entry_def)
  qed
  then show ?case
    unfolding list.map(2) raw_entry_def[of p cur kvs es j] object_values.simps(2) Let_def replay_key_def[symmetric]
      safe_def[symmetric] child_path_def[symmetric] .
qed

lemma field_lookups_ok:
  assumes visit: "walks num data T p k visit" and ns: "\<forall>j \<in> set ns. j < length kvs"
    and keys: "\<forall>j < length kvs. spells (fst (kvs ! j)) (fst (es ! j))"
    and vals: "\<forall>j < length kvs. tree_depth (snd (kvs ! j)) < k \<and> means num (snd (kvs ! j)) (snd (es ! j))"
    and entries: "ents = map (value_entry p cur kvs es) [0..<length kvs]"
  shows "h p = Some d \<Longrightarrow> doc_inv d \<Longrightarrow> doc_buf d = data \<Longrightarrow> denotes d cur (JObject kvs) \<Longrightarrow> checked T checks \<Longrightarrow>
    \<exists>d' checks'. field_lookups visit h (internal_to_cursor (Some p) cur) ents ns checks = Ok (h(p \<mapsto> d'), checks') \<and>
      keeps d d' \<and> checked T checks'"
  using ns
proof (induction ns arbitrary: h d checks)
  case Nil
  then show ?case by (intro exI[of _ d] exI[of _ checks]) (simp add: fun_upd_idem)
next
  case (Cons j ns)
  have j: "j < length kvs" and rest: "\<forall>j \<in> set ns. j < length kvs" using Cons.prems(6) by simp_all
  then have ent: "at ents j = (Ok (value_entry p cur kvs es j) :: (_, unit) outcome)" by (simp add: entries at_def)
  show ?case
  proof (cases "replay_key p cur kvs es j")
    case None
    with Cons.IH[of h d checks, OF Cons.prems(1-5)] Cons.prems(6) ent show ?thesis by (simp add: value_entry_def del: fun_upd_apply)
  next
    case (Some key)
    let ?cur = "internal_to_cursor (Some p) (member_cursor cur kvs j)"
    note k = replay_keyD[OF Some j keys]
    from field_call[of h p d, OF Cons.prems(1,2,4) j k(3)] k(1) obtain d1 where
      d1: "qjson_cursor_field h (Some (internal_to_cursor (Some p) cur)) (Bytes key) True = (err_code QJSON_OK, Some ?cur, h(p \<mapsto> d1))"
        "keeps d d1" by blast
    have inv1: "doc_inv d1" by (rule keeps_doc_inv[OF d1(2) Cons.prems(2)])
    have den1: "denotes d1 cur (JObject kvs)" using Cons.prems(4) by (simp add: keeps_denotes[OF d1(2)])
    have "visits T p (h(p \<mapsto> d1)) d1 (visit (h(p \<mapsto> d1)) ?cur [] False checks) (snd (es ! j))"
      by (rule walksD[OF visit]) (use Cons.prems(3,5) member_denotes[OF inv1 den1 j] vals j inv1 keeps_buf[OF d1(2)] in auto)
    then obtain d2 checks2 where d2: "visit (h(p \<mapsto> d1)) ?cur [] False checks = Ok (snd (es ! j), h(p \<mapsto> d2), checks2)"
      "keeps d1 d2" "checked T checks2" unfolding visits_def fun_upd_upd by blast
    have k2: "keeps d d2" using d1(2) d2(2) by (rule keeps_trans)
    have live: "(h(p \<mapsto> d2)) p = Some d2" by simp
    have den2: "denotes d2 cur (JObject kvs)" using Cons.prems(4) by (simp add: keeps_denotes[OF k2])
    have "doc_buf d2 = data" using Cons.prems(3) by (simp add: keeps_buf[OF k2])
    from Cons.IH[of "h(p \<mapsto> d2)" d2 checks2, OF live keeps_doc_inv[OF k2 Cons.prems(2)] this den2 d2(3) rest]
    obtain d3 checks3 where d3: "field_lookups visit (h(p \<mapsto> d2)) (internal_to_cursor (Some p) cur) ents ns checks2 = Ok (h(p \<mapsto> d3), checks3)"
      "keeps d2 d3" "checked T checks3" unfolding fun_upd_upd by blast
    then show ?thesis
      using keeps_trans[OF k2 d3(2)] ent Some d1(1) d2(1)
      by (intro exI[of _ d3] exI[of _ checks3]) (simp add: value_entry_def expect_ok_def written_def Let_def del: fun_upd_apply)
  qed
qed

lemma varied_order_less: "\<forall>i \<in> set (varied_order n). i < n"
  by (auto simp: varied_order_def)

lemma children_depth:
  "tree_depth (JArray vs) \<le> k \<Longrightarrow> i < length vs \<Longrightarrow> tree_depth (vs ! i) < k"
  "tree_depth (JObject kvs) \<le> k \<Longrightarrow> i < length kvs \<Longrightarrow> tree_depth (snd (kvs ! i)) < k"
proof -
  assume a: "tree_depth (JArray vs) \<le> k" "i < length vs"
  have "tree_depth (vs ! i) \<le> fold max (map tree_depth vs) 0"
    using fold_max_le[of "map tree_depth vs" 0 "fold max (map tree_depth vs) 0"] a(2) by simp
  with a(1) show "tree_depth (vs ! i) < k" by simp
next
  let ?ds = "map (\<lambda>kv. tree_depth (snd kv)) kvs"
  assume a: "tree_depth (JObject kvs) \<le> k" "i < length kvs"
  have "tree_depth (snd (kvs ! i)) \<le> fold max ?ds 0"
    using fold_max_le[of ?ds 0 "fold max ?ds 0"] a(2) by simp
  with a(1) show "tree_depth (snd (kvs ! i)) < k" by simp
qed

lemma array_ok:
  assumes visit: "walks num data T p k visit" and d: "h p = Some d" "doc_inv d" "doc_buf d = data" "denotes d cur (JArray vs)"
    and depth: "tree_depth (JArray vs) \<le> k" and xs: "means_list num vs xs"
    and path: "path_safe \<longrightarrow> names T path (JArray vs)" and checks: "checked T checks"
  shows "visits T p h d (cursor_array visit h (internal_to_cursor (Some p) cur) path path_safe checks) xs"
proof -
  let ?c = "internal_to_cursor (Some p) cur"
  have ts: "\<forall>i < length vs. tree_depth (vs ! i) < k \<and> means num (vs ! i) (xs ! i)"
    using children_depth(1)[OF depth] means_list_nth[OF xs] by blast
  have map: "map ((!) xs) [0..<length vs] = xs" using means_list_nth[OF xs] map_nth[of xs] by simp
  note vals = index_values_ok[OF visit _ ts]
  show ?thesis
    unfolding cursor_array_def plain_reads
  proof (rule visits_read[of p h d _ "length vs"], goal_cases)
    case 1
    then show ?case using cursor_reads(2)[of h p d cur "JArray vs" "[]", OF d(1,2,4)] by simp
  next
    case (2 d1)
    have "visits T p (h(p \<mapsto> d1)) d1 (index_values visit (h(p \<mapsto> d1)) ?c [0..<length vs] path path_safe checks) xs"
      using vals[of "[0..<length vs]" path_safe path "h(p \<mapsto> d1)" d1 cur checks] path d checks
      by (simp add: map keeps_doc_inv[OF 2] keeps_buf[OF 2] keeps_denotes[OF 2])
    then show ?case
      unfolding prod.case
    proof (rule visits_then, goal_cases)
      case (1 d2 checks2)
      have k: "keeps d d2" using 2 1(1) by (rule keeps_trans)
      have "visits T p (h(p \<mapsto> d2)) d2 (index_values visit (h(p \<mapsto> d2)) ?c (varied_order (length vs)) [] False checks2)
          (map ((!) xs) (varied_order (length vs)))"
        using vals[of "varied_order (length vs)" False "[]" "h(p \<mapsto> d2)" d2 cur checks2] varied_order_less d 1(2)
        by (simp add: keeps_doc_inv[OF k] keeps_buf[OF k] keeps_denotes[OF k])
      then show ?case unfolding prod.case fun_upd_upd by (rule visits_then) (simp add: visits_Ok)
    qed
  qed
qed

lemma object_ok:
  assumes visit: "walks num data T p k visit" and d: "h p = Some d" "doc_inv d" "doc_buf d = data" "denotes d cur (JObject kvs)"
    and depth: "tree_depth (JObject kvs) \<le> k" and es: "means_members num kvs es"
    and path: "path_safe \<longrightarrow> names T path (JObject kvs)" and checks: "checked T checks"
  shows "visits T p h d (cursor_object tgt data visit h (internal_to_cursor (Some p) cur) path path_safe checks) (collect_map es)"
proof -
  let ?c = "internal_to_cursor (Some p) cur" and ?raw = "raw_entries p cur kvs es"
  define ents where "ents = map (value_entry p cur kvs es) [0..<length kvs]"
  have keys: "\<forall>j < length kvs. spells (fst (kvs ! j)) (fst (es ! j))"
    and vals: "\<forall>j < length kvs. tree_depth (snd (kvs ! j)) < k \<and> means num (snd (kvs ! j)) (snd (es ! j))"
    using children_depth(2)[OF depth] means_members_nth[OF es] by blast+
  have collected: "map (\<lambda>(key, v, _). (key, v)) ents = es"
    using means_members_nth[OF es] by (intro nth_equalityI) (simp_all add: ents_def value_entry_def)
  have live: "(h(p \<mapsto> d')) p = Some d'" for d' by simp
  have at: "doc_inv d'" "doc_buf d' = data" "denotes d' cur (JObject kvs)" if "keeps d d'" for d'
    using d(2-4) by (simp_all add: keeps_doc_inv[OF that] keeps_buf[OF that] keeps_denotes[OF that])
  show ?thesis
    unfolding cursor_object_def plain_reads
  proof (rule visits_read[of p h d _ "length kvs"], goal_cases)
    case 1
    then show ?case using cursor_reads(2)[of h p d cur "JObject kvs" "[]", OF d(1,2,4)] by simp
  next
    case (2 d1)
    from keys_call[of "h(p \<mapsto> d1)" p d1, OF live at[OF 2]] show ?case
      unfolding prod.case
    proof (rule visits_read, goal_cases)
      case (1 d2)
      have k2: "keeps d d2" using 2 1 by (rule keeps_trans)
      have "reads_ok p (h(p \<mapsto> d2)) d2 (object_entries tgt (h(p \<mapsto> d2)) ?c 0 (map fst kvs)) ?raw"
        using object_entries_ok[OF keys, of "h(p \<mapsto> d2)" p d2 cur "map fst kvs" 0 tgt] at[OF k2] by (simp add: raw_entries_def)
      then show ?case
        unfolding prod.case fun_upd_upd
      proof (rule visits_read, goal_cases)
        case (1 d3)
        have k3: "keeps d d3" using k2 1 by (rule keeps_trans)
        have "visits T p (h(p \<mapsto> d3)) d3 (object_values visit (h(p \<mapsto> d3)) (key_counts ?raw) ?raw path path_safe checks) ents"
          using object_values_ok[OF visit _ keys vals path, of "[0..<length kvs]" "h(p \<mapsto> d3)" d3 cur checks] at[OF k3] checks
          by (simp add: ents_def raw_entries_def)
        then show ?case
          unfolding prod.case fun_upd_upd
        proof (rule visits_then, goal_cases)
          case (1 d4 checks4)
          have k4: "keeps d d4" using k3 1(1) by (rule keeps_trans)
          have "\<forall>j \<in> set (varied_order (length ents)). j < length kvs"
            using varied_order_less[of "length ents"] by (simp add: ents_def)
          from field_lookups_ok[where h = "h(p \<mapsto> d4)" and p = p and d = d4, OF visit this keys vals ents_def live at[OF k4] 1(2)]
          obtain d5 checks5 where "field_lookups visit (h(p \<mapsto> d4)) ?c ents (varied_order (length ents)) checks4 = Ok (h(p \<mapsto> d5), checks5)"
            "keeps d4 d5" "checked T checks5" unfolding fun_upd_upd by blast
          then show ?case
            unfolding visits_def prod.case fun_upd_upd
            by (intro exI[of _ d5] exI[of _ checks5]) (simp add: collected del: fun_upd_apply)
        qed
      qed
    qed
  qed
qed

section \<open>The walk\<close>

lemma value_at_ok:
  assumes visit: "walks (normal_number from_f64) data T p k visit" and d: "h p = Some d" "doc_inv d" "doc_buf d = data" "denotes d cur t"
    and depth: "tree_depth t \<le> k" and v: "means (normal_number from_f64) t v"
    and path: "path_safe \<longrightarrow> names T path t" and checks: "checked T checks"
  shows "visits T p h d (value_at from_f64 tgt data visit (int (type_code (json_type t))) h (internal_to_cursor (Some p) cur) path path_safe checks) v"
  using v
proof (cases rule: means.cases)
  case means_null
  then show ?thesis using visits_Ok[of h p d, OF d(1) checks] by (simp add: value_at_def)
next
  case (means_bool b)
  have "json_type t = QJSON_T_BOOL" by (simp add: means_bool(1))
  moreover have "reads_ok p h d (cursor_bool h (internal_to_cursor (Some p) cur)) b"
    unfolding plain_reads using cursor_reads(3)[of h p d cur t "[]" t b, OF d(1,2,4)] means_bool(1) by simp
  then have "visits T p h d (and_then (cursor_bool h (internal_to_cursor (Some p) cur)) (\<lambda>(b, h). Ok (Val_Bool b, h, checks))) v"
    by (rule visits_read) (simp add: visits_Ok checks means_bool(2))
  ultimately show ?thesis by (simp add: value_at_def)
next
  case (means_number s n)
  then obtain x where x: "reads_number s x" "from_f64 x = Some n" by (auto simp: normal_number_def)
  have ty: "json_type t = QJSON_T_NUM" using x(1) json_type_number means_number(1) by (simp add: reads_number_def del: json_type.simps)
  from cursor_reads(4)[of h p d cur t "[]" t s x, OF d(1,2,4)] means_number(1) x(1)
  have "reads_ok p h d (cursor_number_at h (internal_to_cursor (Some p) cur) []) x" by simp
  then have "reads_ok p h d (cursor_number from_f64 h (internal_to_cursor (Some p) cur)) n"
    unfolding plain_reads using x(2) by (auto simp: reads_ok_def)
  then have "visits T p h d (and_then (cursor_number from_f64 h (internal_to_cursor (Some p) cur)) (\<lambda>(n, h). Ok (Val_Number n, h, checks))) v"
    by (rule visits_read) (simp add: visits_Ok checks means_number(2))
  then show ?thesis by (simp add: value_at_def ty del: json_type.simps)
next
  case (means_string body s)
  have "reads_ok p h d (cursor_string tgt h (internal_to_cursor (Some p) cur)) s"
    unfolding plain_reads using cursor_reads(5)[of h p d cur t "[]" t body s tgt, OF d(1,2,4)] means_string by simp
  then have "visits T p h d (and_then (cursor_string tgt h (internal_to_cursor (Some p) cur)) (\<lambda>(s, h). Ok (Val_String s, h, checks))) v"
    by (rule visits_read) (simp add: visits_Ok checks means_string(2))
  then show ?thesis by (simp add: value_at_def means_string(1))
next
  case (means_array vs xs)
  from array_ok[where h = h and p = p and d = d, OF visit d(1-3) d(4)[unfolded means_array(1)] depth[unfolded means_array(1)] means_array(3)
      path[unfolded means_array(1)] checks]
  have "visits T p h d (and_then (cursor_array visit h (internal_to_cursor (Some p) cur) path path_safe checks)
      (\<lambda>(vs, h, checks). Ok (Val_Array vs, h, checks))) v"
    by (rule visits_then) (simp add: visits_Ok means_array(2))
  then show ?thesis by (simp add: value_at_def means_array(1))
next
  case (means_object kvs es)
  from object_ok[where h = h and p = p and d = d, OF visit d(1-3) d(4)[unfolded means_object(1)] depth[unfolded means_object(1)] means_object(3)
      path[unfolded means_object(1)] checks]
  have "visits T p h d (and_then (cursor_object tgt data visit h (internal_to_cursor (Some p) cur) path path_safe checks)
      (\<lambda>(m, h, checks). Ok (Val_Object m, h, checks))) v"
    by (rule visits_then) (simp add: visits_Ok means_object(2))
  then show ?thesis by (simp add: value_at_def means_object(1))
qed

lemma expected_at_ok:
  assumes nums: "sound_numbers as_f64 from_f64" and d: "h p = Some d" "doc_inv d" "denotes d cur t" and v: "means (normal_number from_f64) t v"
  shows "\<exists>e. reads_ok p h d (expected_at as_f64 (int (type_code (json_type t))) h (internal_to_cursor (Some p) cur) v) e \<and> expects t e"
proof -
  have here: "reads_ok p h d (Ok (e, h)) e" for e :: path_expected
    unfolding reads_ok_def using d(1) by (intro exI[of _ d]) (simp add: fun_upd_idem)
  note len = cursor_reads(2)[of h p d cur t "[]" t, OF d, simplified]
  from v show ?thesis
  proof (cases rule: means.cases)
    case means_null
    then show ?thesis using here[of Exp_Null] by (intro exI[of _ Exp_Null]) (simp add: expected_at_def)
  next
    case (means_bool b)
    then show ?thesis using here[of "Exp_Bool b"] by (intro exI[of _ "Exp_Bool b"]) (simp add: expected_at_def)
  next
    case (means_number s n)
    then obtain x where x: "reads_number s x" "from_f64 x = Some n" by (auto simp: normal_number_def)
    with nums have "as_f64 n = Some x" by (fastforce simp: sound_numbers_def reads_number_def)
    moreover have "json_type t = QJSON_T_NUM" using x(1) json_type_number means_number(1) by (simp add: reads_number_def del: json_type.simps)
    ultimately show ?thesis
      using here[of "Exp_Number x"] x(1) means_number(1,2)
      by (intro exI[of _ "Exp_Number x"]) (simp add: expected_at_def del: json_type.simps)
  next
    case (means_string body s)
    then show ?thesis using here[of "Exp_String s"] by (intro exI[of _ "Exp_String s"]) (simp add: expected_at_def)
  next
    case (means_array vs xs)
    with len show ?thesis
      by (intro exI[of _ "ArrayLen (length vs)"]) (auto simp: expected_at_def plain_reads reads_ok_def)
  next
    case (means_object kvs es)
    with len show ?thesis
      by (intro exI[of _ "ObjectLen (length kvs)"]) (auto simp: expected_at_def plain_reads reads_ok_def)
  qed
qed

lemma cursor_to_value_walks:
  assumes nums: "sound_numbers as_f64 from_f64"
  shows "walks (normal_number from_f64) data T p k (cursor_to_value as_f64 from_f64 tgt data k)"
proof (induction k)
  case 0
  then show ?case by (simp add: walks_def)
next
  case (Suc k)
  show ?case
    unfolding walks_def
  proof (intro allI impI)
    fix t v and h :: heap and d cur path path_safe checks
    let ?c = "internal_to_cursor (Some p) cur" and ?ty = "int (type_code (json_type t))"
    assume depth: "tree_depth t < Suc k" and v: "means (normal_number from_f64) t v"
      and d: "h p = Some d" "doc_inv d" "doc_buf d = data" "denotes d cur t"
      and path: "path_safe \<longrightarrow> names T path t" and checks: "checked T checks"
    have live: "(h(p \<mapsto> d')) p = Some d'" for d' by simp
    have at: "doc_inv d'" "doc_buf d' = data" "denotes d' cur t" if "keeps d d'" for d'
      using d(2-4) by (simp_all add: keeps_doc_inv[OF that] keeps_buf[OF that] keeps_denotes[OF that])
    have le: "tree_depth t \<le> k" using depth by simp
    have "reads_ok p h d (cursor_type h ?c) ?ty"
      unfolding plain_reads using cursor_reads(1)[of h p d cur t "[]" t, OF d(1,2,4)] by simp
    then show "visits T p h d (cursor_to_value as_f64 from_f64 tgt data (Suc k) h ?c path path_safe checks) v"
      unfolding cursor_to_value.simps(2)
    proof (rule visits_read, goal_cases)
      case (1 d1)
      from value_at_ok[where h = "h(p \<mapsto> d1)" and p = p and d = d1, OF Suc.IH live at[OF 1] le v path checks]
      show ?case
        unfolding prod.case
      proof (rule visits_then, goal_cases)
        case (1 d2 checks2)
        have k: "keeps d d2" using \<open>keeps d d1\<close> 1(1) by (rule keeps_trans)
        show ?case
        proof (cases path_safe)
          case True
          from expected_at_ok[where h = "h(p \<mapsto> d2)" and p = p and d = d2, OF nums live at(1)[OF k] at(3)[OF k] v] obtain e where
            e: "reads_ok p (h(p \<mapsto> d2)) d2 (expected_at as_f64 ?ty (h(p \<mapsto> d2)) ?c v) e" "expects t e" by blast
          have "names T path t" using path True by simp
          note rec = record_checked[OF 1(2) this e(2)]
          from e(1) show ?thesis
            unfolding prod.case fun_upd_upd if_P[OF True]
          proof (rule visits_read, goal_cases)
            case (1 d')
            show ?case
              using visits_Ok[of "h(p \<mapsto> d')" p d' T "record_path_check checks2 path e" v] rec by simp
          qed
        next
          case False
          then show ?thesis using 1(2) by (simp add: visits_Ok)
        qed
      qed
    qed
  qed
qed

lemma cursor_to_value_records:
  "cursor_to_value as_f64 from_f64 tgt data levels h cur path True checks = Ok (v, h', checks') \<Longrightarrow> checks' \<noteq> []"
  by (cases levels) (auto simp: record_path_check_def MAX_PATH_CHECKS_def split: if_splits)

section \<open>The target does not fail\<close>

context structural_scanner
begin

lemma fuzz_one_ok:
  assumes len: "length data < 2 ^ 32" and fresh: "h addr = None" and nums: "sound_numbers as_f64 from_f64"
    and serde: "sound_values as_f64 serde"
  shows "fuzz_one as_f64 from_f64 serde scan tgt addr data h = Ok h"
proof (cases "exceeds_container_depth data DEPTH_SKIP_LIMIT \<or> serde data = None")
  case True
  then show ?thesis by (auto simp: fuzz_one_def)
next
  case False
  then obtain sv where shallow: "\<not> exceeds_container_depth data DEPTH_SKIP_LIMIT" and read: "serde data = Some sv" by auto
  with serde obtain t where t: "json_doc data t" "means (serde_number as_f64) t sv" by (auto simp: sound_values_def)
  note norm = normalize_means(1)[OF nums t(2)]
  define expected where "expected = map_json_val (\<lambda>n. the (normalize_number as_f64 from_f64 n)) sv"
  have v: "means (normal_number from_f64) t expected" and normal: "normalize_numbers as_f64 from_f64 sv = Ok expected"
    using norm by (simp_all add: normalize_numbers_def expected_def)
  have depth: "tree_depth t \<le> 64"
    using shallow exceeds_container_depth_nesting[OF len] json_doc_nesting[OF t(1)] by (simp add: DEPTH_SKIP_LIMIT_def not_less)
  define opts where "opts = \<lparr>opt_mode = QJSON_MODE_LAZY, opt_max_depth = FUZZ_MAX_DEPTH\<rparr>"
  have limit: "unat (effective_max_depth opts) = 128"
    by (simp add: opts_def effective_max_depth_def FUZZ_MAX_DEPTH_def QJSON_MAX_MAX_DEPTH_def min_def)
  define d where "d = document_new data (offsets (tokens data) @ [U32_MAX]) (is_eager opts)"
  have parse: "parse_with_options_detailed scan tgt data opts = Ok d"
    using parse_json[OF len t(1), where tgt = tgt and opts = opts] depth limit by (auto simp: d_def split: outcome.splits)
  let ?d = "clear_last_error_offset d" and ?root = "internal_to_cursor (Some addr) (cursor_root d)"
  have buf: "doc_buf d = data" by (simp add: d_def document_new_def)
  have inv: "doc_inv d" unfolding d_def using len by (rule doc_new_inv)
  have den: "denotes d (cursor_root d) t"
    using root_denotes[OF doc_inv_indexed[OF inv]] t(1) buf by simp
  note c = cleared[OF inv den]
  have open_root: "qjson_open (h(addr \<mapsto> d)) (Some addr) (Null 0) True = (err_code QJSON_OK, Some ?root, h(addr \<mapsto> ?d))"
    using open_call[of "h(addr \<mapsto> d)" addr d] by simp
  have live: "(h(addr \<mapsto> d')) addr = Some d'" for d' by simp
  have "doc_buf ?d = data" using buf by (simp add: clear_last_error_offset_def)
  have "tree_depth t < unat FUZZ_MAX_DEPTH + 1" using depth by (simp add: FUZZ_MAX_DEPTH_def)
  have "visits t addr (h(addr \<mapsto> ?d)) ?d
      (cursor_to_value as_f64 from_f64 tgt data (unat FUZZ_MAX_DEPTH + 1) (h(addr \<mapsto> ?d)) ?root [] True []) expected"
    by (rule walksD[OF cursor_to_value_walks[OF nums, of data]]) (fact | rule live c names_root checked_Nil)+
  then obtain d1 checks where walk: "cursor_to_value as_f64 from_f64 tgt data (unat FUZZ_MAX_DEPTH + 1) (h(addr \<mapsto> ?d)) ?root [] True [] =
      Ok (expected, h(addr \<mapsto> d1), checks)" "keeps ?d d1" "checked t checks" unfolding visits_def fun_upd_upd by blast
  have root: "cursor_root d1 = cursor_root d" using walk(2) by (simp add: keeps_def cursor_root_def clear_last_error_offset_def)
  have den1: "denotes d1 (cursor_root d1) t" using c(2) by (simp add: keeps_denotes[OF walk(2)] root)
  from verify_ok[OF walk(3), of "h(addr \<mapsto> d1)" addr d1 tgt, OF live keeps_doc_inv[OF walk(2) c(1)] den1] obtain d2 where
    verify: "verify_path_getter_consistency tgt (Some addr) ?root checks (h(addr \<mapsto> d1)) = Ok (h(addr \<mapsto> d2))"
    unfolding root fun_upd_upd by blast
  show ?thesis
    using shallow read normal parse open_root walk(1) verify cursor_to_value_records[OF walk(1)] free_fresh[of h addr d2, OF fresh]
    by (simp add: fuzz_one_def opts_def[symmetric] qjson_parse_ex_def expect_ok_def written_def Let_def del: fun_upd_apply and_then_eq_Ok cursor_to_value.simps)
qed

end

end
