(* ===== verification/Spec2Isabelle.thy ===== *)
theory Spec2Isabelle
  imports Errors Options Scan_Scalar Decode_String Eager_Correct Path Parse_Total Examples Messages
    Fuzz_Replay_Correct
begin

text \<open>
  A model of lua-qjson, the JSON library of \<open>src/src\<close> (Rust, with a C interface), and its proofs.

  \<^bold>\<open>The program.\<close> A document is a byte buffer and the list of the offsets of its structural bytes
  outside string literals (the index). Parsing scans the buffer (\<open>scan/\<close>: a scalar scanner, AVX2 and
  NEON ones, and a dispatcher), then either validates the whole text (\<open>validate/\<close>, eager mode) or only
  bounds its nesting (lazy mode). Reading walks the index: a cursor is a pair of positions in it, a
  path is resolved segment by segment (\<open>path.rs\<close>, \<open>cursor.rs\<close>), the children of a container that was
  walked are cached (\<open>skip_cache.rs\<close>), and leaves are decoded (\<open>decode/\<close>). \<open>ffi.rs\<close> exports this as a C
  interface with documents by pointer, cursors and iterators by value, integer error codes, and an
  error offset in each document; a panic is caught and reported as \<open>QJSON_OOM\<close>. The Lua wrapper
  uses that interface.

  \<^bold>\<open>The theories\<close>, in the order of their imports.
  \<^item> \<open>Prelude\<close>: \<open>outcome\<close> (\<open>Ok\<close>, \<open>Err\<close>, and \<open>Panic\<close> for every index, slice or unwrap that can fail), byte
    strings, slices, and the operations of the standard library the source uses.
  \<^item> \<open>Errors\<close>, \<open>Options\<close> (\<open>error.rs\<close>, \<open>options.rs\<close>): codes, the messages of \<open>format_error\<close>, mode and depth limit.
  \<^item> \<open>Lexer\<close>, \<open>Scan_Scalar\<close> (\<open>scan/scalar.rs\<close>, \<open>scan/mod.rs\<close>): a three-state automaton as the meaning of the
    scan, and the fused and the emit-only scalar scanners, which compute its tokens.
  \<^item> \<open>Scan_Bits\<close>, \<open>Scan_Simd\<close>, \<open>Scan_Masks\<close>, \<open>Scan_Chunks\<close>, \<open>Scan_Stray\<close> (\<open>scan/mod.rs\<close>, \<open>scan/avx2.rs\<close>,
    \<open>scan/neon.rs\<close>): the 64-bit mask arithmetic (escape runs by addition, prefix parity by carry-less
    product), the loads, comparisons, table lookups and move-masks on lists of lanes, both chunk
    loops with the in-string jump, and the dispatcher. A chunk is shown to be 64 steps of an
    automaton in which a backslash escapes outside strings too; where no backslash is outside strings it is
    the automaton of \<open>Lexer\<close>. On other buffers the eager validator still rejects.
  \<^item> \<open>Unicode\<close>, \<open>Strings\<close>, \<open>Simd\<close>, \<open>Strings_Simd\<close>, \<open>Decode_String\<close> (\<open>validate/strings/\<close>, \<open>decode/string.rs\<close>):
    what a string literal denotes, its three validators and its decoder.
  \<^item> \<open>Numbers\<close> (\<open>validate/number.rs\<close>, \<open>decode/number.rs\<close>): the grammar, the 64-bit decoders with their
    checked arithmetic, and \<open>f64\<close> as sign, exponent and significand rounded to nearest even.
  \<^item> \<open>Path\<close> (\<open>path.rs\<close>): the path iterator, shown to accept exactly a grammar of paths, and the path printer
    of the fuzz targets.
  \<^item> \<open>Eager\<close>, \<open>Eager_Refine\<close>, \<open>Json_Grammar\<close>, \<open>Eager_Correct\<close> (\<open>validate/mod.rs\<close>): the depth, trailing-content
    and grammar passes with the two-tier context stack, refined to a walk over the bytes with a list of
    contexts, and the walk shown to accept the grammar of RFC 8259.
  \<^item> \<open>Skip_Cache\<close>, \<open>Document\<close>, \<open>Cursor\<close> (\<open>skip_cache.rs\<close>, \<open>doc.rs\<close>, \<open>cursor.rs\<close>): the state of a document and the
    operations on it, as functions that return the changed document. The cache (locale \<open>child_cache\<close>) has
    32-bit openers, children and slot numbers.
  \<^item> \<open>Parse\<close>, \<open>Parse_Errors\<close>: the parse pipeline against the contract of a scanner (the locale
    \<open>structural_scanner\<close>, extended to \<open>offset_scanner\<close>), interpreted for the scalar scanner here and for the
    vectorised ones and the dispatcher in \<open>Scan_Chunks\<close>. \<open>Parse_Total\<close>: parsing of arbitrary bytes, stray
    backslashes included, on every target; what a client relies on is the locale \<open>json_parser\<close>.
  \<^item> \<open>Json_Tree\<close>, \<open>Layout\<close>, \<open>Navigate\<close>, \<open>Access\<close>: the tree a text denotes and path lookup in it as the
    abstract specification; where the values of a text lie in its index; the cursor operations as a
    refinement of the tree operations, with the cache as part of the document invariant \<open>doc_inv\<close>; the
    leaf accessors.
  \<^item> \<open>Ffi\<close>, \<open>Ffi_Cursor\<close>, \<open>Api\<close>, \<open>Calls\<close>, \<open>Messages\<close> (\<open>ffi.rs\<close>): the exported functions on a heap of
    documents, the iterators, the calls of a client as a step relation with an invariant, and messages
    as C strings.
  \<^item> \<open>Nesting\<close>: the depth limit decided by the depth of the tree. \<open>Fuzz_Depth\<close>, \<open>Fuzz_Numbers\<close>, \<open>Fuzz_Eager\<close>,
    \<open>Fuzz_Lazy\<close>, \<open>Fuzz_Ffi\<close>, \<open>Fuzz_Replay\<close>, \<open>Fuzz_Replay_Correct\<close> (\<open>fuzz/fuzz_targets/\<close>): the generators, filters and
    drivers of the fuzz targets, with their assertions as \<open>Panic\<close>; the theorems show that no assertion can fail. The
    specification of the replay is \<open>means\<close>, the value of a tree.
  \<^item> \<open>Examples\<close>: a concrete document for the witnesses. This theory: the properties across components.

  \<^bold>\<open>Conventions.\<close> A Rust function with a \<open>Result\<close> is a function to \<open>outcome\<close>, one that mutates returns
  the new state; loops are recursive functions that terminate by a measure, none has fuel (\<open>cursor_to_value\<close> counts down
  the levels its source asserts not to exceed). \<open>drain\<close> calls an iterator
  a given number of times; one more than the number of members is enough to reach its end. Bytes are 8-bit words, index
  entries, depths and path indices 32-bit words, the masks 64-bit words; positions in the index and \<open>usize\<close> offsets are
  naturals (as are the positions a \<open>u32\<close> holds in a cursor; where the skip cache stores them they are 32-bit words and
  shown to fit). A \<open>target\<close> says whether it is a debug build: there the depth counter panics where it would
  overflow. The digits of a path index and the assertion of the skip cache are modelled as in a debug build on every target; the other
  32-bit words wrap, as in a release build. The sentinel \<open>u32::MAX\<close> ends every index. Theorems about
  parsing assume buffers below 4 GiB: beyond that the code truncates offsets to 32 bits.
  The scanner that parsing calls is an argument of the model, \<open>memchr2\<close> of the \<open>memchr\<close> crate an
  argument of the vectorised scanners, used under the hypothesis \<open>finds_first\<close>: it returns the position of the
  first of the two bytes. \<open>memchr\<close> and \<open>memchr3\<close> are used only to ask whether a byte
  occurs. A CPU and build configuration is a \<open>target\<close>.

  \<^bold>\<open>What lazy parsing does not promise.\<close> Lazy parsing does not validate. The theorems on calls assume that a client
  parses lazily only JSON texts: on a malformed document the readers can panic, and the C interface then
  reports \<open>QJSON_OOM\<close>. A backslash outside strings makes lazy parsing itself depend on the scanner and on the
  build; theorems that exclude it say so with \<open>no_stray\<close>. Eager parsing needs neither condition.

  The oracle \<open>serde_json\<close> of the fuzz targets and the byte source of the \<open>arbitrary\<close> crate are arguments too, under
  \<open>sound_serde\<close> (it accepts only JSON and rejects JSON only for a number out of range), \<open>sound_values\<close> (the value it
  returns is that of the text, with numbers correctly rounded), \<open>sound_numbers\<close> (finite numbers convert to \<open>f64\<close> and
  back) and \<open>sound_source\<close> (a draw is in its range, and an exhausted source is an error).

  \<^bold>\<open>Not modelled.\<close> The Lua wrapper, benchmarks and the build; allocation failure and the layout of
  memory (an address is a number, a pointer that is neither null nor live has no meaning here); the
  reuse of allocated capacity; \<open>RefCell\<close> borrows, which never overlap in this code.
\<close>

section \<open>Properties\<close>

text \<open>C1: Eager parsing, on every target and so with each of the three scanners, succeeds exactly on the JSON texts of RFC 8259 whose nesting is within the effective limit, and the document it builds holds the buffer, the offsets of the structural bytes and the sentinel.\<close>

theorem eager_parsing_accepts_json:
  assumes "finds_first memchr2" "length buf < 2 ^ 32" "is_eager opts"
  shows "parse_with_options_detailed (scan memchr2 tgt) tgt buf opts = Ok d \<longleftrightarrow>
    json_text (unat (effective_max_depth opts)) buf \<and>
    d = document_new buf (offsets (tokens buf) @ [U32_MAX]) True"
  using assms parse_eager_scan[of buf opts tgt d] by (simp add: finds_first_ref)

theorem eager_parsing_accepts_json_witness:
  "parse_with_options_detailed (scan memchr2_ref neon_target) neon_target ex_buf options_default = Ok ex_doc"
proof -
  have "is_eager options_default" "1 \<le> unat (effective_max_depth options_default)"
    using effective_max_depth_bounds[of options_default] by (simp_all add: is_eager_def options_default_def)
  then show ?thesis
    using eager_parsing_accepts_json[of memchr2_ref ex_buf options_default neon_target ex_doc] ex_length ex_text
    by (simp add: ex_doc_def finds_first_ref)
qed

text \<open>C2: On a document whose cache is sound, resolving a path from a cursor that denotes a value finds a cursor for exactly the value the path selects in the tree (the first of equal keys), or fails with exactly the error of the tree lookup; it never panics, whatever containers were already cached, and it leaves a document that differs in its cache only and whose cache is sound.\<close>

theorem path_resolution_follows_tree:
  assumes "doc_inv d" "denotes d cur v"
  shows "\<exists>r d'. resolve d cur path = (r, d') \<and> agrees d (lookup_path v path) r \<and> doc_inv d' \<and> same_text d d'"
  using assms by (rule resolve_ok)

theorem path_resolution_follows_tree_witness:
  "\<exists>r d'. resolve ex_doc (cursor_root ex_doc) (bs ''a'') = (r, d') \<and>
    agrees ex_doc (lookup_path ex_value (bs ''a'')) r \<and> doc_inv d' \<and> same_text ex_doc d'"
  using path_resolution_follows_tree[OF ex_inv(1) ex_root] by simp

text \<open>C3: A client that starts with nothing and makes any sequence of calls (parsing any bytes below 4 GiB in eager mode, stray backslashes included, but in lazy mode, which does not validate, only JSON texts; reading by path, opening cursors, cursor and iterator functions, freeing; null arguments included; cursors and iterators only while their document lives) never gets QJSON_OOM, the code a caught panic is reported with, and after every sequence all live documents, held cursors and iterators are valid. The condition on lazy parsing is needed: after lazy parsing of {,} a lookup of a key reads past the end of the index.\<close>

theorem api_calls_never_panic:
  assumes "finds_first memchr2" "api_calls (scan memchr2 tgt) tgt client_new codes s"
  shows "err_code QJSON_OOM \<notin> set codes \<and> api_inv s"
  using assms parser.api_calls_inv[of tgt client_new codes s] client_new_inv by (simp add: finds_first_ref)

theorem api_calls_never_panic_witness:
  "\<exists>s. api_calls (scan memchr2_ref avx2_target) avx2_target client_new [0, 0] s \<and> api_inv s"
proof -
  obtain s where "api_calls (scan memchr2_ref avx2_target) avx2_target client_new [0, 0] s"
    using ex_calls by blast
  with api_calls_never_panic[of memchr2_ref avx2_target "[0, 0]" s] show ?thesis by (auto simp: finds_first_ref)
qed

text \<open>C4: On every buffer below 4 GiB with no backslash outside string literals, the AVX2 and NEON scanners (64-byte chunks, carried string and escape state, in-string jumps, scalar tail) return what scalar emission followed by bracket pairing returns, and accept exactly the buffers the fused scalar scanner accepts, with the same index.\<close>

theorem vector_scanners_agree:
  assumes "finds_first memchr2" "length buf < 2 ^ 32" "no_stray buf"
  shows "avx2_scan memchr2 buf [] = two_pass_scan buf \<and> neon_scan memchr2 buf [] = two_pass_scan buf \<and>
    (fst (two_pass_scan buf) = Ok () \<longleftrightarrow> fst (scalar_scan buf []) = Ok ()) \<and>
    (fst (scalar_scan buf []) = Ok () \<longrightarrow> snd (scalar_scan buf []) = snd (two_pass_scan buf))"
  using assms avx2.two_pass[OF assms(3)] neon.two_pass[OF assms(3)] two_pass_scan_cases[OF assms(2)]
    scalar.scan_accepts[OF _ assms(2)] scalar.scan_index[OF _ assms(2)]
  by (simp add: finds_first_ref)

theorem vector_scanners_agree_witness:
  "avx2_scan memchr2_ref ex_buf [] = two_pass_scan ex_buf \<and> neon_scan memchr2_ref ex_buf [] = two_pass_scan ex_buf"
  using vector_scanners_agree[of memchr2_ref ex_buf] ex_length ex_no_stray by (simp add: finds_first_ref)

text \<open>C5: Starting an iterator on an object and calling next once more than the object has members delivers every member in the order of the text (its key decoded to UTF-8 and readable at that moment, and a cursor that denotes its value), and the last call answers QJSON_NOT_FOUND.\<close>

theorem iterator_delivers_members:
  assumes "valid_heap h" "h p = Some d" "denotes d cur (JObject kvs)"
  shows "\<exists>it h1 rs h2. qjson_iter_init h (Some (internal_to_cursor (Some p) cur)) True = (0, Some it, h1) \<and>
    drain tgt (Suc (length kvs)) h1 it = rs @ [(err_code QJSON_NOT_FOUND, None, h2)] \<and>
    list_all2 (delivered p) kvs rs"
proof -
  define h1 where "h1 = h(p \<mapsto> clear_last_error_offset d)"
  from iter_init_ok[OF assms] obtain it where it:
    "qjson_iter_init h (Some (internal_to_cursor (Some p) cur)) True = (0, Some it, h1)"
    "qi_doc it = Some p" "iter_at (clear_last_error_offset d) it kvs" unfolding h1_def by blast
  have "valid_heap h1"
    unfolding h1_def using heap_keeps_upd[of h p d, OF assms(2) keeps_updates(2)] assms(1) by (rule heap_keeps_valid)
  from drain_ok[OF this it(2) _ it(3), of tgt] it(1) show ?thesis by (auto simp: h1_def)
qed

theorem iterator_delivers_members_witness:
  "\<exists>it h1 r h2. qjson_iter_init ex_heap (Some (internal_to_cursor (Some 7) (cursor_root ex_doc))) True = (0, Some it, h1) \<and>
    drain scalar_target 2 h1 it = [r, (err_code QJSON_NOT_FOUND, None, h2)] \<and> delivered 7 ([97], JScalar [49]) r"
  using iterator_delivers_members[OF ex_heap ex_root[unfolded ex_value_def], of scalar_target]
  by (auto simp: list_all2_Cons1 numeral_2_eq_2)

text \<open>C12: For every JSON text, in eager and in lazy mode and on every target: if the depth of its tree is within the effective limit, parsing returns the document with the index of its structural bytes; if it is deeper, parsing returns QJSON_NESTING_TOO_DEEP and no other error.\<close>

theorem nesting_limit_decides:
  assumes "finds_first memchr2" "length buf < 2 ^ 32" "json_doc buf v"
  shows "if tree_depth v \<le> unat (effective_max_depth opts)
    then parse_with_options_detailed (scan memchr2 tgt) tgt buf opts =
      Ok (document_new buf (offsets (tokens buf) @ [U32_MAX]) (is_eager opts))
    else \<exists>e. parse_with_options_detailed (scan memchr2 tgt) tgt buf opts = Err e \<and> pe_code e = QJSON_NESTING_TOO_DEEP"
  using assms(1) dispatch.parse_json[OF assms(2,3), where tgt = tgt and tgta = tgt and opts = opts]
  by (auto simp: finds_first_ref split: outcome.splits)

theorem nesting_limit_decides_witness:
  "parse_with_options_detailed (scan memchr2_ref avx2_target) avx2_target ex_buf options_default = Ok ex_doc"
proof -
  have "1 \<le> unat (effective_max_depth options_default)" "tree_depth ex_value = 1" "is_eager options_default"
    using effective_max_depth_bounds[of options_default] by (simp_all add: ex_value_def is_eager_def options_default_def)
  with nesting_limit_decides[of memchr2_ref ex_buf ex_value options_default avx2_target] ex_length ex_json
  show ?thesis by (simp add: ex_doc_def finds_first_ref)
qed

text \<open>C13: On every target, parsing returns a document or an error, never a panic, and the error is one of the six parse codes with an offset of at most the length of the buffer, or QJSON_NO_OFFSET. This holds for any bytes below 4 GiB in eager mode and, in lazy mode, in release builds; in lazy mode of a debug build, where the depth counter can underflow, for buffers with no backslash outside string literals.\<close>

theorem parsing_returns:
  assumes "finds_first memchr2" "length buf < 2 ^ 32" "is_eager opts \<or> \<not> debug_build tgt \<or> no_stray buf"
  shows "(\<exists>d. parse_with_options_detailed (scan memchr2 tgt) tgt buf opts = Ok d) \<or>
    (\<exists>e. parse_with_options_detailed (scan memchr2 tgt) tgt buf opts = Err e \<and> pe_code e \<in> parse_codes \<and>
      (pe_offset e \<le> length buf \<or> pe_offset e = QJSON_NO_OFFSET))"
  using assms(1) parse_returns[OF assms(2,3)]
  by (cases "parse_with_options_detailed (scan memchr2 tgt) tgt buf opts") (simp_all add: finds_first_ref)

theorem parsing_returns_witness:
  "parse_with_options_detailed (scan memchr2_ref avx2_target) avx2_target (replicate 64 92) \<lparr>opt_mode = 1, opt_max_depth = 0\<rparr> \<noteq> Panic"
  using parsing_returns[of memchr2_ref "replicate 64 92" "\<lparr>opt_mode = 1, opt_max_depth = 0\<rparr>" avx2_target]
  by (auto simp: finds_first_ref avx2_target_def)

text \<open>C14: Lazy parsing succeeds exactly when the buffer is not blank, its strings are closed, its brackets pair up and their nesting is within the effective limit, and the document is marked as not validated: on a target that uses the scalar scanner for every buffer below 4 GiB, and on the vectorised ones for buffers with no backslash outside string literals (with such a backslash they may accept more).\<close>

theorem lazy_parsing_accepts:
  assumes "finds_first memchr2" "length buf < 2 ^ 32" "no_stray buf \<or> \<not> vector_build tgt" "\<not> is_eager opts"
  shows "parse_with_options_detailed (scan memchr2 tgt) tgt buf opts = Ok d \<longleftrightarrow>
    \<not> list_all is_ws buf \<and> well_bracketed buf \<and> max_nesting 0 (tokens buf) \<le> unat (effective_max_depth opts) \<and>
    d = document_new buf (offsets (tokens buf) @ [U32_MAX]) False"
  using assms(1) lazy_accepts[OF assms(2-4), of d] by (simp add: finds_first_ref)

theorem lazy_parsing_accepts_witness:
  "\<forall>d. parse_with_options_detailed (scan memchr2_ref scalar_target) scalar_target (js ''{]'') \<lparr>opt_mode = 1, opt_max_depth = 0\<rparr> \<noteq> Ok d"
proof -
  have "\<not> well_bracketed (js ''{]'')" by (simp add: well_bracketed_def tokens_def is_structural_def)
  then show ?thesis
    using lazy_parsing_accepts[of memchr2_ref "js ''{]''" scalar_target "\<lparr>opt_mode = 1, opt_max_depth = 0\<rparr>"]
    by (simp add: finds_first_ref no_stray_def is_eager_def QJSON_MODE_EAGER_def)
qed

text \<open>C15: For all 64-bit backslash masks and both carries, the escape mask marks a non-backslash byte exactly when an odd run of backslashes (continued from the previous chunk if the carry says so) ends before it, and the new carry is the parity of the run at the end of the chunk.\<close>

theorem escape_mask_correct:
  assumes "find_escape_mask_with_carry b (of_bool c) = (m, c')"
  shows "(\<forall>n < 64. \<not> bit b n \<longrightarrow> bit m n = esc b c n) \<and> c' = of_bool (esc b c 64)"
  using escape_mask[OF assms] by blast

theorem escape_mask_correct_witness:
  "esc 3 True 2 \<and> \<not> esc 3 True 64"
proof -
  have "find_escape_mask_with_carry 3 (of_bool True) = (5, 0)" by code_simp
  note mask = escape_mask_correct[OF this]
  have "\<not> bit (3 :: u64) 2" "bit (5 :: u64) 2" by code_simp+
  with conjunct1[OF mask, rule_format, of 2] have "esc 3 True 2" by simp
  with mask show ?thesis by simp
qed

text \<open>C16: For every 64-byte chunk the masks NEON computes with two nibble tables and weighted pairwise sums are bit for bit the masks AVX2 computes with byte comparisons: backslashes, quotes and structural bytes.\<close>

theorem neon_masks_are_avx2_masks:
  assumes "i + 64 \<le> length buf"
  shows "tag_mask64 (neon_tags buf i) TAG_BACKSLASH = byte_mask (load 32 buf i) (load 32 buf (i + 32)) 92 \<and>
    tag_mask64 (neon_tags buf i) TAG_QUOTE = byte_mask (load 32 buf i) (load 32 buf (i + 32)) 34 \<and>
    tag_mask64 (neon_tags buf i) TAG_STRUCTURAL = structural_mask_chunk (load 32 buf i) (load 32 buf (i + 32))"
  by (intro conjI bit_word_eqI)
    (simp_all add: tag_mask64_bits[OF assms] nibble_tag_bits byte_mask_bits[OF assms] structural_mask_bits[OF assms])

theorem neon_masks_are_avx2_masks_witness:
  "tag_mask64 (neon_tags (replicate 64 34) 0) TAG_QUOTE =
    byte_mask (load 32 (replicate 64 34) 0) (load 32 (replicate 64 34) 32) 34"
  using neon_masks_are_avx2_masks[of 0 "replicate 64 34"] by simp

text \<open>C17: The document that parsing builds for a buffer satisfies the invariant that every other theorem starts from (index of the structural bytes, sound cache), and if the buffer holds a JSON text its root cursor denotes the value of the text, a root scalar included.\<close>

theorem new_document_invariant:
  assumes "length buf < 2 ^ 32" "d = document_new buf (offsets (tokens buf) @ [U32_MAX]) eager"
  shows "doc_inv d \<and> (\<forall>v. json_doc buf v \<longrightarrow> denotes d (cursor_root d) v)"
proof -
  have inv: "doc_inv d" and buf: "doc_buf d = buf"
    using doc_new_inv[OF assms(1), of eager] by (simp_all add: assms(2) document_new_def)
  with root_denotes[OF doc_inv_indexed[OF inv]] show ?thesis by simp
qed

theorem new_document_invariant_witness:
  "doc_inv ex_doc \<and> denotes ex_doc (cursor_root ex_doc) ex_value"
  using new_document_invariant[OF ex_length(2) ex_doc_def] ex_json by blast

text \<open>C18: The type the document reports for a cursor is the type of the value the cursor denotes: object, array, string, boolean, null or number, also for scalars inside containers, whose cursor points at the separator after them.\<close>

theorem value_type_correct:
  assumes "doc_inv d" "denotes d cur v"
  shows "type_of d cur = Ok (json_type v)"
  using type_of_ok[OF doc_inv_indexed[OF assms(1)] assms(2)] .

theorem value_type_correct_witness: "type_of ex_doc (cursor_root ex_doc) = Ok QJSON_T_OBJ"
  using value_type_correct[OF ex_inv(1) ex_root] by (simp add: ex_value_def)

text \<open>C19: Reading an integer at a cursor returns the exact value if the cursor denotes an integer number in range (signed or unsigned 64 bits), QJSON_OUT_OF_RANGE if it is out of range and QJSON_TYPE_MISMATCH for everything else; on an error the recorded offset is where the value starts, and the document is otherwise unchanged.\<close>

theorem integer_reads_correct:
  assumes "doc_inv d" "denotes d cur v"
  shows "reads_as d v (value_i64 v) (read_i64 d cur) \<and> reads_as d v (value_u64 v) (read_u64 d cur)"
  using read_i64_ok[OF doc_inv_indexed[OF assms(1)] assms(2)] read_u64_ok[OF doc_inv_indexed[OF assms(1)] assms(2)] by blast

theorem integer_reads_correct_witness:
  "fst (read_i64 ex_doc (cursor_root ex_doc)) = Err QJSON_TYPE_MISMATCH"
  using integer_reads_correct[OF ex_inv(1) ex_root] by (simp add: reads_as_def value_i64_def ex_value_def)

text \<open>C20: Reading a boolean at a cursor returns 1 for true, 0 for false and QJSON_TYPE_MISMATCH, as the C documentation says, for every other scalar and every nested string or container; a string or container at the root of the document is the exception, the code answers QJSON_PARSE_ERROR there, which contradicts the documentation. Reading a float converts the bytes of the scalar the cursor denotes; a nested string or container is QJSON_INVALID_NUMBER and a root one QJSON_PARSE_ERROR. After an error the recorded offset is where the value starts, and the document is otherwise unchanged.\<close>

theorem float_bool_reads_correct:
  assumes "doc_inv d" "denotes d cur v"
  shows "reads_as d v
      (if v = JScalar (bs ''true'') then Ok 1
       else if v = JScalar (bs ''false'') then Ok 0
       else if (\<exists>t. v = JScalar t) \<or> idx_start cur \<noteq> 0 then Err QJSON_TYPE_MISMATCH
       else Err QJSON_PARSE_ERROR) (read_bool d cur) \<and>
    reads_as d v
      (case v of
         JScalar t \<Rightarrow> parse_f64 t (eager_validated d)
       | _ \<Rightarrow> Err (if idx_start cur \<noteq> 0 then QJSON_INVALID_NUMBER else QJSON_PARSE_ERROR)) (read_f64 d cur)"
proof -
  have "value_bool (idx_start cur) v =
      (if v = JScalar (bs ''true'') then Ok 1
       else if v = JScalar (bs ''false'') then Ok 0
       else if (\<exists>t. v = JScalar t) \<or> idx_start cur \<noteq> 0 then Err QJSON_TYPE_MISMATCH
       else Err QJSON_PARSE_ERROR)" by (cases v) (simp_all add: value_bool_def)
  moreover have "value_f64 (eager_validated d) (idx_start cur) v =
      (case v of
         JScalar t \<Rightarrow> parse_f64 t (eager_validated d)
       | _ \<Rightarrow> Err (if idx_start cur \<noteq> 0 then QJSON_INVALID_NUMBER else QJSON_PARSE_ERROR))"
    by (cases v) (simp_all add: value_f64_def)
  ultimately show ?thesis
    using read_bool_ok[OF doc_inv_indexed[OF assms(1)] assms(2)] read_f64_ok[OF doc_inv_indexed[OF assms(1)] assms(2)]
    by (simp only:)
qed

theorem float_bool_reads_correct_witness:
  "fst (read_bool ex_doc (cursor_root ex_doc)) = Err QJSON_PARSE_ERROR"
  using float_bool_reads_correct[OF ex_inv(1) ex_root] by (simp add: reads_as_def ex_value_def root_start)

text \<open>C21: Reading a string at a cursor that denotes a string literal returns a reference, into the buffer or the scratch space, to exactly the UTF-8 text the literal denotes, on every target; at any other value it is QJSON_TYPE_MISMATCH with the offset of the value.\<close>

theorem string_reads_correct:
  assumes "doc_inv d" "denotes d cur v"
  shows "case v of
      JString body \<Rightarrow> \<exists>cps s r. string_denotes body cps \<and> read_str tgt d cur = (Ok r, d\<lparr>scratch := s\<rparr>) \<and>
        ref_bytes (doc_buf d) s r = utf8_text cps
    | _ \<Rightarrow> reads_as d v (Err QJSON_TYPE_MISMATCH) (read_str tgt d cur)"
  using read_str_ok[OF doc_inv_indexed[OF assms(1)] assms(2)] .

theorem string_reads_correct_witness:
  "fst (read_str avx2_target ex_doc (cursor_root ex_doc)) = Err QJSON_TYPE_MISMATCH"
  using string_reads_correct[OF ex_inv(1) ex_root, of avx2_target] by (simp add: reads_as_def ex_value_def)

text \<open>C22: The length at a cursor is the number of children of the container it denotes (a type mismatch for other values); the entry with number n of an object is its n-th member in the order of the text, with the key decoded and a cursor for the value, and QJSON_NOT_FOUND past the end.\<close>

theorem length_and_entries_correct:
  assumes "doc_inv d" "denotes d cur v"
  shows "cursor_len d cur = (if is_container v then Ok (length (children v)) else Err QJSON_TYPE_MISMATCH) \<and>
    (case v of
      JObject kvs \<Rightarrow>
        if n < length kvs
        then \<exists>cps s r c. string_denotes (fst (kvs ! n)) cps \<and>
          object_entry_at tgt p d cur n = (Ok (r, internal_to_cursor (Some p) c), d\<lparr>scratch := s\<rparr>) \<and>
          ref_bytes (doc_buf d) s r = utf8_text cps \<and> denotes d c (snd (kvs ! n))
        else reads_as d v (Err QJSON_NOT_FOUND) (object_entry_at tgt p d cur n)
    | _ \<Rightarrow> reads_as d v (Err QJSON_TYPE_MISMATCH) (object_entry_at tgt p d cur n))"
  using cursor_len_ok[OF doc_inv_indexed[OF assms(1)] assms(2)] object_entry_at_ok[OF doc_inv_indexed[OF assms(1)] assms(2), of tgt p n]
  by (cases v) (auto split: if_splits)

theorem length_and_entries_correct_witness:
  "cursor_len ex_doc (cursor_root ex_doc) = Ok 1 \<and>
    fst (object_entry_at neon_target 7 ex_doc (cursor_root ex_doc) 1) = Err QJSON_NOT_FOUND"
  using length_and_entries_correct[OF ex_inv(1) ex_root, of neon_target 7 1] by (simp add: reads_as_def ex_value_def)

text \<open>C23: The byte range reported for a cursor lies inside the buffer and its bytes spell exactly the value the cursor denotes, without surrounding whitespace; the offset recorded on errors is the start of that range.\<close>

theorem byte_range_spells_value:
  assumes "doc_inv d" "denotes d cur v"
  shows "\<exists>s e. cursor_value_start_offset d cur = Ok (Some s) \<and> cursor_byte_range d cur = Ok (s, e) \<and>
    s \<le> e \<and> e \<le> length (doc_buf d) \<and> tree (slice s e (doc_buf d)) v"
  using value_start[OF doc_inv_indexed[OF assms(1)] assms(2)] by (simp add: text_at_def)

theorem byte_range_spells_value_witness:
  "\<exists>s e. cursor_byte_range ex_doc (cursor_root ex_doc) = Ok (s, e) \<and> e \<le> 7 \<and> tree (slice s e ex_buf) ex_value"
  using byte_range_spells_value[OF ex_inv(1) ex_root] by (auto simp: ex_inv ex_length)

text \<open>C24: Every error code converts to its C integer and back, the conversion accepts no other integer, and the static message the C side returns for the integer is the message of the Rust side.\<close>

theorem error_codes_round_trip:
  "(err_from_i32 c = Some e \<longleftrightarrow> c = err_code e) \<and> qjson_strerror (err_code e) = strerror e"
  using err_from_code err_from_Some qjson_strerror_code by blast

text \<open>C25: Whatever the code, the offset and the bytes of the input, the message qjson_format_error builds is printable ASCII; it is written only if it fits into the given buffer with its NUL, that NUL is the only one, and the length without it is returned in every case.\<close>

theorem formatted_message_fits:
  "case qjson_format_error code off extra buf out of
     (n, None) \<Rightarrow> (case out of None \<Rightarrow> True | Some l \<Rightarrow> l \<le> n)
   | (n, Some w) \<Rightarrow> (\<exists>l. out = Some l \<and> length w = n + 1 \<and> n + 1 \<le> l) \<and>
       list_all printable_char (butlast w) \<and> last w = CHR 0x00"
proof -
  have "printable_string ''unknown error code''" by (simp add: printable_Char)
  then show ?thesis
    using printable_format by (simp add: qjson_format_error_def Let_def butlast_append split: option.split)
qed

text \<open>C26: Any sequence of insertions into a new skip cache succeeds if each start list is as long as its end list, as the assertion in the code demands, and no opener is the sentinel 2^32 - 1. Afterwards looking up an opener finds nothing if it was never inserted and otherwise the slot with the children inserted for it last: slots are never mixed up and their 32-bit numbers do not wrap, however long the sequence is.\<close>

theorem skip_cache_is_map:
  assumes "\<forall>(k, starts, ends) \<in> set es. k \<noteq> U32_MAX \<and> length starts = length ends"
  shows "\<exists>c. insert_all cache_new es = (Ok c :: (skip_cache, qjson_err) outcome) \<and>
    (\<forall>k. case cache_get c k of
       None \<Rightarrow> map_of (rev es) k = None
     | Some n \<Rightarrow> \<exists>s. cache_slot c n = (Ok s :: (skip_slot, qjson_err) outcome) \<and> map_of (rev es) k = Some (child_starts s, child_ends s))"
proof -
  have "\<forall>(k, v) \<in> set es. cacheable k v" using assms by (auto simp: cacheable_def)
  from insert_all_new[OF this, where ?'e = qjson_err] obtain c where
    c: "insert_all cache_new es = (Ok c :: (skip_cache, qjson_err) outcome)" "cache_inv c" "\<And>k. cache_lookup c k = map_of (rev es) k" by blast
  have "case cache_get c k of
       None \<Rightarrow> map_of (rev es) k = None
     | Some n \<Rightarrow> \<exists>s. cache_slot c n = (Ok s :: (skip_slot, qjson_err) outcome) \<and> map_of (rev es) k = Some (child_starts s, child_ends s)" for k
    using cache_get_lookup[of c k] cache_slot_lookup[OF c(2), of k] c(3)[of k] by (auto split: option.split)
  with c(1) show ?thesis by blast
qed

theorem skip_cache_is_map_witness:
  "\<exists>c. insert_all cache_new [(0, [1, 3], [2, 4]), (5, [], []), (0, [6], [7])] = (Ok c :: (skip_cache, qjson_err) outcome) \<and>
    cache_get c 3 = None"
  using skip_cache_is_map[of "[(0, [1, 3], [2, 4]), (5, [], []), (0, [6], [7])]"] by (fastforce split: option.splits)

text \<open>C27: Outside strings a backslash is not JSON, and a vectorised scanner takes it to escape a quote. Take any buffer below 4 GiB in which a backslash and a quote follow each other after bytes that are neither structural nor backslashes, followed by at least 63 bytes with no further backslash or quote and no opening bracket. With AVX2 or NEON lazy parsing returns a document whose index holds the escaped quote and the structural bytes after it, unpaired closing brackets included; in a debug build it panics instead if there is such a bracket, because the depth counter underflows. With the scalar scanner lazy parsing reports a parse error at the end of the buffer. Eager parsing rejects the buffer on every target.\<close>

theorem stray_backslash_divergence:
  assumes "finds_first memchr2" "length buf < 2 ^ 32" "buf = pre @ 92 # 34 # rest"
    "list_all (\<lambda>b. b \<noteq> 34 \<and> b \<noteq> 92 \<and> \<not> is_structural b) pre"
    "list_all (\<lambda>b. b \<noteq> 34 \<and> b \<noteq> 92 \<and> b \<noteq> 123 \<and> b \<noteq> 91) rest" "63 \<le> length rest"
  shows "if is_eager opts then \<exists>e. parse_with_options_detailed (scan memchr2 tgt) tgt buf opts = Err e
    else parse_with_options_detailed (scan memchr2 tgt) tgt buf opts =
      (if \<not> vector_build tgt then Err (parse_error_new QJSON_PARSE_ERROR (length buf))
       else if debug_build tgt \<and> (125 \<in> set rest \<or> 93 \<in> set rest) then Panic
       else Ok (document_new buf
         (offsets ((Suc (length pre), 34) # lex_tokens Outside (length pre + 2) rest) @ [U32_MAX]) False))"
  using assms(1) stray_parse[OF assms(2-6), where tgt = tgt and opts = opts] by (simp add: finds_first_ref)

theorem stray_backslash_divergence_witness:
  "parse_with_options_detailed (scan memchr2_ref avx2_target) avx2_target ([] @ 92 # 34 # 125 # replicate 62 32)
      \<lparr>opt_mode = 1, opt_max_depth = 0\<rparr> =
    Ok (document_new ([] @ 92 # 34 # 125 # replicate 62 32) [1, 2, U32_MAX] False)"
proof -
  have "offsets ((Suc (length ([] :: bytes)), 34) # lex_tokens Outside (length ([] :: bytes) + 2) (125 # replicate 62 32)) @ [U32_MAX] =
      [1, 2, U32_MAX]" by code_simp
  moreover have "list_all (\<lambda>b. b \<noteq> 34 \<and> b \<noteq> 92 \<and> b \<noteq> 123 \<and> b \<noteq> 91) (125 # replicate 62 (32 :: u8))"
    by (simp add: list_all_iff)
  ultimately show ?thesis
    using stray_backslash_divergence[of memchr2_ref "[] @ 92 # 34 # 125 # replicate 62 32" "[]" "125 # replicate 62 32"
        "\<lparr>opt_mode = 1, opt_max_depth = 0\<rparr>" avx2_target]
    by (simp add: finds_first_ref vector_build_def avx2_target_def is_eager_def QJSON_MODE_EAGER_def del: lex_tokens.simps length_greater_0_conv)
qed

text \<open>C28: On every target no assertion of the depth fuzz target fails, and each run leaves the heap as it was: at the limit a generated document parses and the walk through the C interface reaches its leaf (each container has one child), one level deeper both interfaces answer QJSON_NESTING_TOO_DEEP, and a mutated document never makes the C interface report a caught panic. In a release build this holds for every input of the generator; in a debug build, where lazy parsing can underflow the depth counter, for the inputs whose generated and mutated document has no backslash outside strings.\<close>

theorem fuzz_depth_never_fails:
  assumes "finds_first memchr2" "h addr = None" "\<not> debug_build tgt \<or> no_stray (fst (generated_json data))"
  shows "run_boundary_assertions (scan memchr2 tgt) tgt addr h = Ok h \<and>
    run_generated_case (scan memchr2 tgt) tgt addr h data = Ok h"
  using assms(1) dispatch.boundaries_ok[of h addr, OF assms(2)] generated_ok[of h addr, OF assms(2,3)]
  by (simp add: finds_first_ref)

theorem fuzz_depth_never_fails_witness:
  "run_generated_case (scan memchr2_ref neon_target) neon_target 7 (\<lambda>_. None) [0, 4, 0, 0, 1, 1] = Ok (\<lambda>_. None)"
  using fuzz_depth_never_fails[of memchr2_ref "\<lambda>_. None" 7 neon_target "[0, 4, 0, 0, 1, 1]"]
  by (simp add: finds_first_ref neon_target_def)

text \<open>C29: Whatever the byte source draws, the number generator does not panic, and for the test case it yields: eager parsing on every target accepts the array with the number exactly when the specification is valid by RFC 8259; no check of the target fails for a serde_json that accepts only JSON and rejects JSON only for numbers out of range, whatever values it reads, and the run leaves the heap as it was; but for a valid number both reads of the extraction are type mismatches, as its path 0 names a key of an array, so no value is ever compared.\<close>

theorem number_cases_decided:
  assumes "finds_first memchr2" "sound_source ir ratio one_of" "sound_serde serde" "h addr = None"
  shows "arbitrary_test_case ir ratio one_of u \<noteq> Panic \<and>
    (\<forall>tc u'. arbitrary_test_case ir ratio one_of u = Ok (tc, u') \<longrightarrow>
      is_ok (parse_with_options (scan memchr2 tgt) tgt (to_json tc) \<lparr>opt_mode = QJSON_MODE_EAGER, opt_max_depth = FUZZ_MAX_DEPTH\<rparr>) =
        is_rfc8259_valid (tc_number tc) \<and>
      check_number (scan memchr2 tgt) tgt addr serde serde_i64 serde_f64 h tc = Ok h \<and>
      (is_rfc8259_valid (tc_number tc) \<longrightarrow>
        (\<exists>d. extract_number (scan memchr2 tgt) tgt addr h (to_json tc) =
          (Some (err_code QJSON_TYPE_MISMATCH, 0, err_code QJSON_TYPE_MISMATCH, f64_zero, Some addr), h(addr \<mapsto> d)))))"
  using test_case_yields[OF assms(2), of u] check_number_ok[where h = h and addr = addr and tgt = tgt, OF _ assms(3,4)]
    number_extraction[of _ tgt addr h] assms(1,4)
  by (auto simp: finds_first_ref yields_def simp del: err_code.simps split: outcome.splits)

theorem number_cases_decided_witness:
  "check_number (scan memchr2_ref avx2_target) avx2_target 7 (\<lambda>_. Some ''number out of range'') (\<lambda>_. Some 5) (\<lambda>_. None) (\<lambda>_. None)
    \<lparr>tc_number = from_str (bs ''1e308''), whitespace_prefix = [], whitespace_suffix = []\<rparr> = Ok (\<lambda>_. None)"
proof -
  let ?ir = "\<lambda>lo hi u. Ok (lo, u) :: (nat \<times> unit, unit) outcome"
  let ?ratio = "\<lambda>n d u. Ok (True, u) :: (bool \<times> unit, unit) outcome"
  let ?one_of = "\<lambda>xs u. Ok (xs ! 0, u) :: (bytes \<times> unit, unit) outcome"
  have "sound_source ?ir ?ratio ?one_of" by (simp add: sound_source_def)
  moreover have "sound_serde (\<lambda>_. Some ''number out of range'')" by (simp add: sound_serde_def)
  moreover have "arbitrary_test_case ?ir ?ratio ?one_of () =
      Ok (\<lparr>tc_number = from_str (bs ''1e308''), whitespace_prefix = [], whitespace_suffix = []\<rparr>, ())"
    by (simp add: arbitrary_test_case_def arbitrary_number_def arbitrary_boundary_def boundary_literals_def ws_choices_def)
  ultimately show ?thesis
    using number_cases_decided[of memchr2_ref ?ir ?ratio ?one_of "\<lambda>_. Some ''number out of range''" "\<lambda>_. None" 7 "()" avx2_target
        "\<lambda>_. Some 5" "\<lambda>_. None"]
    by (simp add: finds_first_ref)
qed

text \<open>C30: For every buffer below 4 GiB the depth filter of the fuzz targets skips an input exactly if its brackets outside strings nest deeper than the limit, and finds no unpaired surrogate escape in a JSON text of any depth; so that the exemption of the target for such escapes, which its comment justifies by saying that the parser accepts them, is never used; and on every target the eager parser agrees with any serde_json that accepts only JSON and rejects JSON only for numbers out of range, up to the divergences the target allows.\<close>

theorem fuzz_eager_never_fails:
  assumes "finds_first memchr2" "length data < 2 ^ 32" "sound_serde serde"
  shows "fuzz_parse_eager (scan memchr2 tgt) tgt serde data = Ok () \<and>
    (exceeds_container_depth data limit \<longleftrightarrow> unat limit < max_nesting 0 (tokens data)) \<and>
    (\<forall>d. json_text d data \<longrightarrow> \<not> contains_escaped_unpaired_surrogate data)"
  using assms fuzz_parse_eager_ok exceeds_container_depth_nesting json_no_unpaired by (auto simp: finds_first_ref)

theorem fuzz_eager_never_fails_witness:
  "fuzz_parse_eager (scan memchr2_ref scalar_target) scalar_target (\<lambda>_. Some ''number out of range'') ex_buf = Ok () \<and>
    \<not> exceeds_container_depth ex_buf 1"
proof -
  have "sound_serde (\<lambda>_. Some ''number out of range'')" by (simp add: sound_serde_def)
  moreover have "max_nesting 0 (tokens ex_buf) = 1" by code_simp
  ultimately show ?thesis
    using fuzz_eager_never_fails[of memchr2_ref ex_buf "\<lambda>_. Some ''number out of range''" scalar_target 1]
      ex_length by (simp add: finds_first_ref)
qed

text \<open>C31: For every buffer below 4 GiB, on every target, and any serde_json that returns the value its JSON text denotes with correctly rounded numbers: the replay of the lazy fuzz target ends with no failed assertion and frees the document. So the walk through the C interface yields the value of the text, repeated and reordered reads agree with it, every field found by key is the cursor found by position, and the getters by path from the document and from the root cursor return the recorded types, values and lengths. The raw key scan it compares with returns the keys of every JSON object, in order and with duplicates.\<close>

theorem lazy_replay_never_fails:
  assumes "finds_first memchr2" "length data < 2 ^ 32" "h addr = None"
    "sound_numbers as_f64 from_f64" "sound_values as_f64 serde"
  shows "fuzz_one as_f64 from_f64 serde (scan memchr2 tgt) tgt addr data h = Ok h \<and>
    (\<forall>obj kvs. tree obj (JObject kvs) \<longrightarrow> raw_object_keys obj = Ok (map fst kvs))"
proof (intro conjI allI impI)
  have "memchr2 = memchr2_ref" using assms(1) by (simp add: finds_first_ref)
  then show "fuzz_one as_f64 from_f64 serde (scan memchr2 tgt) tgt addr data h = Ok h"
    using dispatch.fuzz_one_ok[where h = h and addr = addr and tgt = tgt and tgta = tgt, OF assms(2-5)] by (simp only:)
qed (rule raw_object_keys_tree)

theorem lazy_replay_never_fails_witness:
  "fuzz_one Some Some
    (\<lambda>data. if data = js ''{`a`:true}'' then Some (Val_Object (collect_map [([97], Val_Bool True)])) else None)
    (scan memchr2_ref avx2_target) avx2_target 7 (js ''{`a`:true}'') (\<lambda>_. None) = Ok (\<lambda>_. None)"
proof -
  let ?serde = "\<lambda>data. if data = js ''{`a`:true}'' then Some (Val_Object (collect_map [([97], Val_Bool True)])) else None"
  let ?t = "JObject [([97], JScalar (bs ''true''))]"
  have "tree (bs ''true'') (JScalar (bs ''true''))" by (intro tree_scalar) (simp add: json_scalar_def json_literal_def)
  then have "members ([] @ (34 # [97] @ [34]) @ [] @ 58 # [] @ bs ''true'' @ []) [([97], JScalar (bs ''true''))]"
    using ex_key by (intro members_one) (simp_all add: ws_def)
  then have "tree (123 # ([] @ (34 # [97] @ [34]) @ [] @ 58 # [] @ bs ''true'' @ []) @ [125]) ?t" by (rule tree_object)
  then have doc: "json_doc (js ''{`a`:true}'') ?t"
    unfolding json_doc_def by (intro exI[of _ "[]"] exI[of _ "js ''{`a`:true}''"]) (simp add: ws_def)
  have "spells [97] [97]"
    unfolding spells_def using den_plain[of 97 "[]" "[]"] den_nil by (intro exI[of _ "[97]"]) (simp add: utf8_def)
  then have "means (serde_number Some) ?t (Val_Object (collect_map [([97], Val_Bool True)]))"
    using means_bool[of "serde_number Some" True] by (intro means_object members_Cons members_Nil) simp_all
  with doc have "sound_values Some ?serde" by (auto simp: sound_values_def)
  moreover have "sound_numbers Some Some" by (simp add: sound_numbers_def)
  ultimately show ?thesis
    using lazy_replay_never_fails[of memchr2_ref "js ''{`a`:true}''" "\<lambda>_. None" 7 Some Some ?serde avx2_target]
    by (simp add: finds_first_ref)
qed

text \<open>C32: For every sequence of operations of the C interface target over arbitrary buffers below 4 GiB, documents parsed anew at the same address included, the run ends without a failed assertion or a read outside the memory a returned string spans, no call reports a caught panic, and at the end the heap is empty and no cursor is left.\<close>

theorem fuzz_ffi_never_fails:
  assumes "finds_first memchr2" "op_fits (Parse (case_json cs))" "\<forall>op \<in> set (case_ops cs). op_fits op"
  shows "\<exists>codes. fuzz_ffi_ops (scan memchr2 tgt) tgt addr cs = Ok (codes, fuzz_state_default) \<and> err_code QJSON_OOM \<notin> set codes"
  using assms(1) parser.fuzz_ffi_ops_fine[OF assms(2,3), of tgt addr] by (simp add: finds_first_ref)

theorem fuzz_ffi_never_fails_witness:
  "\<exists>codes. fuzz_ffi_ops (scan memchr2_ref avx2_target) avx2_target 7
      \<lparr>case_json = ex_buf, case_ops = [GetStr 0 [97], ObjectEntryAt 0 0, Parse ex_buf, Free]\<rparr> = Ok (codes, fuzz_state_default)"
  using fuzz_ffi_never_fails[of memchr2_ref "\<lparr>case_json = ex_buf, case_ops = [GetStr 0 [97], ObjectEntryAt 0 0, Parse ex_buf, Free]\<rparr>" avx2_target 7]
    ex_length by (auto simp: finds_first_ref op_fits_def)

end
